theory Spec2Isabelle
  imports Main
begin

section \<open>Grids\<close>

text \<open>
  A grid is a JavaScript array of nine row arrays of nine numbers, \<open>0\<close> meaning empty.
  Both game scripts (\<open>sudoku-pwa/script.js\<close> and the stand-alone game script) contain the
  same engine functions, statement for statement; where they differ (the shuffle call of
  \<open>createPuzzle\<close>, the move history) both variants are modelled and the variant of
  \<open>sudoku-pwa/script.js\<close> carries the prefix \<open>pwa_\<close>.
\<close>

type_synonym grid = "nat list list"

text \<open>
  \<open>cell grid r c\<close> is the read \<open>grid[r][c]\<close>; \<open>None\<close> stands for \<open>undefined\<close>, the value
  of a read past the end of a row. (A read of a missing row throws in JavaScript; the
  properties below are about grids with nine rows, where no such read occurs.)
\<close>

definition cell :: "grid \<Rightarrow> nat \<Rightarrow> nat \<Rightarrow> nat option" where
  "cell grid r c = (if r < length grid \<and> c < length (grid ! r) then Some (grid ! r ! c) else None)"

text \<open>\<open>set_cell grid r c v\<close> is the write \<open>grid[r][c] = v\<close> at a position inside the grid.\<close>

definition set_cell :: "grid \<Rightarrow> nat \<Rightarrow> nat \<Rightarrow> nat \<Rightarrow> grid" where
  "set_cell grid r c v = grid[r := (grid ! r)[c := v]]"

definition createEmptyGrid :: grid where
  "createEmptyGrid = replicate 9 (replicate 9 0)"

section \<open>The random source\<close>

text \<open>
  \<open>Math.random()\<close> is modelled by an oracle: an infinite sequence of natural numbers, one
  per call. \<open>floorRandom rng n\<close> is \<open>Math.floor(Math.random() * n)\<close>: for positive \<open>n\<close> some
  integer in \<open>0..n-1\<close>, for \<open>n \<le> 0\<close> some integer in \<open>n..0\<close>; every such integer is produced
  by some oracle.
\<close>

type_synonym rng = "nat \<Rightarrow> nat"

definition floorRandom :: "rng \<Rightarrow> int \<Rightarrow> int \<times> rng" where
  "floorRandom rng n =
     ((if 0 < n then int (rng 0 mod nat n) else - int (rng 0 mod nat (1 - n))),
      (\<lambda>k. rng (Suc k)))"

text \<open>Fisher-Yates: \<open>for (i = array.length - 1; i > 0; i--)\<close> swap \<open>array[i]\<close> and \<open>array[j]\<close>.\<close>

fun shuffleFrom :: "rng \<Rightarrow> 'a list \<Rightarrow> nat \<Rightarrow> 'a list \<times> rng" where
  "shuffleFrom rng array 0 = (array, rng)"
| "shuffleFrom rng array (Suc k) =
     (let i = Suc k;
          (j, rng') = floorRandom rng (int i + 1)
      in shuffleFrom rng' (array[i := array ! nat j, nat j := array ! i]) k)"

definition shuffleArray :: "rng \<Rightarrow> 'a list \<Rightarrow> 'a list \<times> rng" where
  "shuffleArray rng array = shuffleFrom rng array (length array - 1)"

section \<open>Constraint checker\<close>

definition isValid :: "grid \<Rightarrow> nat \<Rightarrow> nat \<Rightarrow> nat \<Rightarrow> bool" where
  "isValid grid row col num =
     (if list_ex (\<lambda>c. cell grid row c = Some num) [0..<9] then False
      else if list_ex (\<lambda>r. cell grid r col = Some num) [0..<9] then False
      else let boxRow = (row div 3) * 3; boxCol = (col div 3) * 3 in
        if list_ex (\<lambda>r. list_ex (\<lambda>c. cell grid r c = Some num) [boxCol..<boxCol + 3])
             [boxRow..<boxRow + 3]
        then False
        else True)"

section \<open>Generation of a complete grid\<close>

text \<open>
  \<open>generateSolution\<close> mutates the grid it is given and returns a boolean; the model returns
  the boolean, the grid as the call leaves it, and the rest of the random source.
  \<open>generateLoop\<close> is the \<open>for (const num of numbers)\<close> loop of its body.
  The result \<open>None\<close> stands for a call that throws: outside the board the source either
  reads a row that does not exist (TypeError) or recurses on \<open>col + 1\<close> without bound
  (RangeError); the entry call \<open>(0, 0)\<close> never gets there.
\<close>

text \<open>The number of board positions from \<open>(row, col)\<close> on, the termination measure.\<close>

definition rank :: "nat \<Rightarrow> nat \<Rightarrow> nat" where
  "rank row col = (if row < 9 \<and> col < 9 then 81 - (9 * row + col) else 0)"

function generateSolution :: "rng \<Rightarrow> grid \<Rightarrow> nat \<Rightarrow> nat \<Rightarrow> (bool \<times> grid \<times> rng) option"
  and generateLoop :: "rng \<Rightarrow> grid \<Rightarrow> nat \<Rightarrow> nat \<Rightarrow> nat list \<Rightarrow> (bool \<times> grid \<times> rng) option"
  where
  "generateSolution rng grid row col =
     (let row' = (if col = 9 then row + 1 else row);
          col' = (if col = 9 then 0 else col)
      in if row' = 9 then Some (True, grid, rng)
         else if 9 < row' \<or> 9 < col' then None
         else if cell grid row' col' \<noteq> Some 0 then generateSolution rng grid row' (col' + 1)
         else (case shuffleArray rng [1, 2, 3, 4, 5, 6, 7, 8, 9] of
                 (numbers, rng') \<Rightarrow> generateLoop rng' grid row' col' numbers))"
| "generateLoop rng grid row col [] = Some (False, grid, rng)"
| "generateLoop rng grid row col (num # nums) =
     (if isValid grid row col num then
        (case generateSolution rng (set_cell grid row col num) row (col + 1) of
           None \<Rightarrow> None
         | Some (True, grid', rng') \<Rightarrow> Some (True, grid', rng')
         | Some (False, grid', rng') \<Rightarrow> generateLoop rng' (set_cell grid' row col 0) row col nums)
      else generateLoop rng grid row col nums)"
  by pat_completeness auto

termination
  apply (relation "inv_image (less_than <*lex*> less_than)
     (\<lambda>x. case x of
        Inl (rng, g, row, col) \<Rightarrow>
          (2 * rank (if col = 9 then row + 1 else row) (if col = 9 then 0 else col) + 1, 0)
      | Inr (rng, g, row, col, nums) \<Rightarrow>
          (2 * rank row col + (if row < 9 \<and> col < 9 then 0 else 1), length nums))")
  apply (auto simp: rank_def split: if_splits)
  done

declare generateSolution.simps [simp del]

section \<open>Solver\<close>

text \<open>
  \<open>solve\<close> copies its argument and runs the local function \<open>backtrack\<close> on the copy;
  \<open>tryNums\<close> is the loop \<open>for (num = 1; num <= 9; num++)\<close>. The outer \<open>option\<close> of the
  result of \<open>solve\<close> is \<open>None\<close> when the call throws, the inner one is JavaScript's \<open>null\<close>.
\<close>

function backtrack :: "grid \<Rightarrow> nat \<Rightarrow> nat \<Rightarrow> (bool \<times> grid) option"
  and tryNums :: "grid \<Rightarrow> nat \<Rightarrow> nat \<Rightarrow> nat list \<Rightarrow> (bool \<times> grid) option" where
  "backtrack copy row col =
     (let row' = (if col = 9 then row + 1 else row);
          col' = (if col = 9 then 0 else col)
      in if row' = 9 then Some (True, copy)
         else if 9 < row' \<or> 9 < col' then None
         else if cell copy row' col' \<noteq> Some 0 then backtrack copy row' (col' + 1)
         else tryNums copy row' col' [1..<10])"
| "tryNums copy row col [] = Some (False, copy)"
| "tryNums copy row col (num # nums) =
     (if isValid copy row col num then
        (case backtrack (set_cell copy row col num) row (col + 1) of
           None \<Rightarrow> None
         | Some (True, copy') \<Rightarrow> Some (True, copy')
         | Some (False, copy') \<Rightarrow> tryNums (set_cell copy' row col 0) row col nums)
      else tryNums copy row col nums)"
  by pat_completeness auto

termination
  apply (relation "inv_image (less_than <*lex*> less_than)
     (\<lambda>x. case x of
        Inl (g, row, col) \<Rightarrow>
          (2 * rank (if col = 9 then row + 1 else row) (if col = 9 then 0 else col) + 1, 0)
      | Inr (g, row, col, nums) \<Rightarrow>
          (2 * rank row col + (if row < 9 \<and> col < 9 then 0 else 1), length nums))")
  apply (auto simp: rank_def split: if_splits)
  done

declare backtrack.simps [simp del]

definition solve :: "grid \<Rightarrow> grid option option" where
  "solve grid =
     (let copy = map (\<lambda>row. row) grid
      in case backtrack copy 0 0 of
           None \<Rightarrow> None
         | Some (True, copy') \<Rightarrow> Some (Some copy')
         | Some (False, copy') \<Rightarrow> Some None)"

section \<open>Counting solutions\<close>

text \<open>The 81 positions in row-major order, as the nested loops over \<open>r\<close> and \<open>c\<close> visit them.\<close>

definition allPositions :: "(nat \<times> nat) list" where
  "allPositions = concat (map (\<lambda>r. map (\<lambda>c. (r, c)) [0..<9]) [0..<9])"

definition findEmpty :: "grid \<Rightarrow> (nat \<times> nat) option" where
  "findEmpty grid = find (\<lambda>(r, c). cell grid r c = Some 0) allPositions"

text \<open>
  \<open>countSolutions grid count\<close> threads the grid and the counter object \<open>count.value\<close>; it
  returns both as the call leaves them. \<open>countLoop\<close> is the loop over \<open>num\<close>.
\<close>

function countSolutions :: "grid \<Rightarrow> nat \<Rightarrow> grid \<times> nat"
  and countLoop :: "grid \<Rightarrow> nat \<Rightarrow> nat \<Rightarrow> nat \<Rightarrow> nat list \<Rightarrow> grid \<times> nat" where
  "countSolutions grid count =
     (case findEmpty grid of
        None \<Rightarrow> (grid, count + 1)
      | Some (row, col) \<Rightarrow> countLoop grid row col count [1..<10])"
| "countLoop grid row col count [] = (grid, count)"
| "countLoop grid row col count (num # nums) =
     (if isValid grid row col num then
        (case countSolutions (set_cell grid row col num) count of
           (grid', count') \<Rightarrow>
             if 1 < count' then (set_cell grid' row col 0, count')
             else countLoop (set_cell grid' row col 0) row col count' nums)
      else countLoop grid row col count nums)"
  by pat_completeness auto

text \<open>
  The recursion is nested (the loop goes on with the grid the recursive call returns), so
  termination needs to know that a call hands the grid back as it got it. The measure is
  the number of empty cells.
\<close>

definition zeros :: "grid \<Rightarrow> nat" where
  "zeros grid = sum_list (map (\<lambda>row. length (filter (\<lambda>v. v = 0) row)) grid)"

lemma set_cell_twice: "set_cell (set_cell g r c a) r c b = set_cell g r c b"
  by (cases "r < length g") (simp_all add: set_cell_def list_update_beyond)

lemma set_cell_same: "cell g r c = Some v \<Longrightarrow> set_cell g r c v = g"
  by (auto simp: cell_def set_cell_def split: if_splits)

lemma zeros_row_update:
  "c < length xs \<Longrightarrow>
   length (filter (\<lambda>v. v = 0) (xs[c := w])) + (if xs ! c = 0 then 1 else 0)
     = length (filter (\<lambda>v. v = (0::nat)) xs) + (if w = 0 then 1 else 0)"
proof (induction xs arbitrary: c)
  case Nil
  then show ?case by simp
next
  case (Cons x xs)
  show ?case
  proof (cases c)
    case 0
    then show ?thesis by simp
  next
    case (Suc k)
    with Cons.prems have "k < length xs" by simp
    from Cons.IH[OF this] Suc show ?thesis by (auto split: if_splits)
  qed
qed

lemma zeros_row_le: "r < length g \<Longrightarrow> length (filter (\<lambda>v. v = (0::nat)) (g ! r)) \<le> zeros g"
  unfolding zeros_def
  by (rule member_le_sum_list) (auto simp: in_set_conv_nth intro!: image_eqI[where x="g ! r"])

lemma zeros_set_cell:
  assumes "r < length g" "c < length (g ! r)"
  shows "zeros (set_cell g r c v) + (if g ! r ! c = 0 then 1 else 0)
           = zeros g + (if v = 0 then 1 else 0)"
proof -
  let ?f = "\<lambda>row. length (filter (\<lambda>v. v = (0::nat)) row)"
  have a: "zeros (set_cell g r c v) = zeros g + ?f ((g ! r)[c := v]) - ?f (g ! r)"
    using assms(1) by (simp add: zeros_def set_cell_def map_update sum_list_update)
  have b: "?f (g ! r) \<le> zeros g"
    using assms(1) by (rule zeros_row_le)
  from zeros_row_update[OF assms(2), of v] a b show ?thesis
    by (auto split: if_splits)
qed

lemma set_cell_out: "\<not> (r < length g \<and> c < length (g ! r)) \<Longrightarrow> set_cell g r c v = g"
  by (cases "r < length g") (simp_all add: set_cell_def list_update_beyond)

lemma zeros_set_cell_le: "zeros (set_cell g r c v) \<le> zeros (set_cell g r c 0)"
proof (cases "r < length g \<and> c < length (g ! r)")
  case True
  then show ?thesis
    using zeros_set_cell[of r g c v] zeros_set_cell[of r g c 0] by (auto split: if_splits)
next
  case False
  then show ?thesis by (simp add: set_cell_out)
qed

lemma zeros_set_cell_nz:
  assumes "v \<noteq> 0"
  shows "zeros (set_cell g r c v) = zeros (set_cell g r c (Suc 0))"
proof (cases "r < length g \<and> c < length (g ! r)")
  case True
  then show ?thesis
    using assms zeros_set_cell[of r g c v] zeros_set_cell[of r g c "Suc 0"]
    by (auto split: if_splits)
next
  case False
  then show ?thesis by (simp add: set_cell_out)
qed

lemma findEmpty_Some: "findEmpty g = Some (r, c) \<Longrightarrow> cell g r c = Some 0"
  by (auto simp: findEmpty_def find_Some_iff)

lemma count_dom_grid:
  "countSolutions_countLoop_dom (Inl (g, n)) \<Longrightarrow> fst (countSolutions g n) = g"
  "countSolutions_countLoop_dom (Inr (g, r, c, n, ns)) \<Longrightarrow>
     fst (countLoop g r c n ns) = g \<or> fst (countLoop g r c n ns) = set_cell g r c 0"
proof (induction g n and g r c n ns rule: countSolutions_countLoop.pinduct)
  case (1 grid count)
  show ?case
  proof (cases "findEmpty grid")
    case None
    with 1(1) show ?thesis by (simp add: countSolutions.psimps)
  next
    case (Some p)
    obtain row col where p: "p = (row, col)" by (cases p)
    have fe: "findEmpty grid = Some (row, col)"
      using Some p by simp
    then have "cell grid row col = Some 0"
      by (rule findEmpty_Some)
    then have same: "set_cell grid row col 0 = grid"
      by (rule set_cell_same)
    have "fst (countLoop grid row col count [1..<10]) = grid"
      using 1(2)[OF Some p[symmetric]] same by auto
    moreover have "countSolutions grid count = countLoop grid row col count [1..<10]"
      using 1(1) fe by (simp add: countSolutions.psimps)
    ultimately show ?thesis by simp
  qed
next
  case (2 grid row col count)
  then show ?case by (simp add: countLoop.psimps)
next
  case (3 grid row col count num nums)
  show ?case
  proof (cases "isValid grid row col num")
    case False
    with 3(1) 3(4) show ?thesis by (simp add: countLoop.psimps)
  next
    case True
    obtain g' n' where r: "countSolutions (set_cell grid row col num) count = (g', n')"
      by (cases "countSolutions (set_cell grid row col num) count")
    from 3(2)[OF True] r have g': "g' = set_cell grid row col num" by simp
    show ?thesis
    proof (cases "1 < n'")
      case True
      with \<open>isValid grid row col num\<close> r g' 3(1) show ?thesis
        by (simp add: countLoop.psimps set_cell_twice)
    next
      case False
      from 3(3)[OF \<open>isValid grid row col num\<close> r[symmetric] False]
      show ?thesis using \<open>isValid grid row col num\<close> r g' 3(1) False
        by (simp add: countLoop.psimps set_cell_twice)
    qed
  qed
qed

termination countSolutions
  apply (relation "inv_image (less_than <*lex*> less_than)
     (\<lambda>x. case x of
        Inl (g, n) \<Rightarrow> (2 * zeros g + 1, 0)
      | Inr (g, r, c, n, ns) \<Rightarrow>
          (2 * zeros (set_cell g r c (if 0 \<in> set ns then 0 else 1)) + 2, length ns))")
  subgoal by auto
  subgoal for grid count p row col
    using zeros_set_cell[of row grid col 1]
    by (auto dest!: findEmpty_Some simp: cell_def split: if_splits)
  subgoal for grid row col count num nums
    using zeros_set_cell_le[of grid row col num] zeros_set_cell_nz[of num grid row col]
    by (auto split: if_splits)
  subgoal for grid row col count num nums x y
  proof -
    assume a: "(x, y) = countSolutions (set_cell grid row col num) count"
      and d: "countSolutions_countLoop_dom (Inl (set_cell grid row col num, count))"
    from count_dom_grid(1)[OF d] a have "x = set_cell grid row col num"
      by (metis fst_conv)
    then show ?thesis
      using zeros_set_cell_le[of grid row col 1] by (auto simp: set_cell_twice)
  qed
  subgoal for grid row col count num nums
    using zeros_set_cell_le[of grid row col 1] by auto
  done

declare countSolutions.simps [simp del]



section \<open>Puzzle creation\<close>

text \<open>
  The difficulty table \<open>CONFIG.DIFFICULTY\<close> / \<open>DIFFICULTY_CLUES\<close> maps a difficulty name to
  its clue window; \<open>createPuzzle\<close> takes the table as a parameter, and a name that is not a
  key of the table makes the destructuring throw (\<open>None\<close>). Only the three keys that the
  object literal lists are in \<open>DIFFICULTY_CLUES\<close>; a name that JavaScript finds on the
  prototype of the object (such as \<open>constructor\<close>) is not a difficulty the game offers and
  is not in the table.
\<close>

type_synonym tiers = "string \<rightharpoonup> int \<times> int"

definition DIFFICULTY_CLUES :: tiers where
  "DIFFICULTY_CLUES =
     [''easy'' \<mapsto> (40, 45), ''medium'' \<mapsto> (30, 39), ''hard'' \<mapsto> (25, 29)]"

text \<open>
  The loop \<open>for (const {row, col} of positions)\<close> with its counter \<open>removed\<close>. The test grid
  handed to \<open>countSolutions\<close> is a fresh copy and is dropped afterwards.
\<close>

fun removeCells :: "grid \<Rightarrow> int \<Rightarrow> int \<Rightarrow> (nat \<times> nat) list \<Rightarrow> grid" where
  "removeCells puzzle cellsToRemove removed [] = puzzle"
| "removeCells puzzle cellsToRemove removed ((row, col) # positions) =
     (if cellsToRemove \<le> removed then puzzle
      else let backup = puzzle ! row ! col;
               puzzle1 = set_cell puzzle row col 0;
               testGrid = map (\<lambda>r. r) puzzle1
           in if snd (countSolutions testGrid 0) \<noteq> 1
              then removeCells (set_cell puzzle1 row col backup) cellsToRemove removed positions
              else removeCells puzzle1 cellsToRemove (removed + 1) positions)"

text \<open>The stand-alone script shuffles \<open>positions\<close> in place.\<close>

definition createPuzzle :: "tiers \<Rightarrow> rng \<Rightarrow> grid \<Rightarrow> string \<Rightarrow> (grid \<times> rng) option" where
  "createPuzzle tiers rng solution difficulty =
     (case tiers difficulty of
        None \<Rightarrow> None
      | Some (min', max') \<Rightarrow>
          (let puzzle = map (\<lambda>row. row) solution;
               (j, rng1) = floorRandom rng (max' - min' + 1);
               targetClues = min' + j;
               cellsToRemove = 81 - targetClues;
               (positions, rng2) = shuffleArray rng1 allPositions
           in Some (removeCells puzzle cellsToRemove 0 positions, rng2)))"

text \<open>
  In \<open>sudoku-pwa/script.js\<close> the helper \<open>shuffle\<close> returns a shuffled copy, and
  \<open>createPuzzle\<close> drops the result of \<open>this.shuffle(positions)\<close>: the random numbers are
  drawn, the positions are visited in row-major order.
\<close>

definition pwa_createPuzzle :: "tiers \<Rightarrow> rng \<Rightarrow> grid \<Rightarrow> string \<Rightarrow> (grid \<times> rng) option" where
  "pwa_createPuzzle tiers rng solution difficulty =
     (case tiers difficulty of
        None \<Rightarrow> None
      | Some (min', max') \<Rightarrow>
          (let puzzle = map (\<lambda>row. row) solution;
               (j, rng1) = floorRandom rng (max' - min' + 1);
               targetClues = min' + j;
               cellsToRemove = 81 - targetClues;
               positions = allPositions;
               (shuffled, rng2) = shuffleArray rng1 positions
           in Some (removeCells puzzle cellsToRemove 0 positions, rng2)))"

text \<open>\<open>generatePuzzle\<close> / \<open>SudokuGenerator.generate\<close>: the boolean of \<open>generateSolution\<close> is ignored.\<close>

definition generatePuzzle :: "tiers \<Rightarrow> rng \<Rightarrow> string \<Rightarrow> ((grid \<times> grid) \<times> rng) option" where
  "generatePuzzle tiers rng difficulty =
     (case generateSolution rng createEmptyGrid 0 0 of
        None \<Rightarrow> None
      | Some (ok, solution, rng1) \<Rightarrow>
          (case createPuzzle tiers rng1 solution difficulty of
             None \<Rightarrow> None
           | Some (puzzle, rng2) \<Rightarrow> Some ((puzzle, solution), rng2)))"

definition pwa_generate :: "tiers \<Rightarrow> rng \<Rightarrow> string \<Rightarrow> ((grid \<times> grid) \<times> rng) option" where
  "pwa_generate tiers rng difficulty =
     (case generateSolution rng createEmptyGrid 0 0 of
        None \<Rightarrow> None
      | Some (ok, solution, rng1) \<Rightarrow>
          (case pwa_createPuzzle tiers rng1 solution difficulty of
             None \<Rightarrow> None
           | Some (puzzle, rng2) \<Rightarrow> Some ((puzzle, solution), rng2)))"

section \<open>Specification vocabulary\<close>

text \<open>A well-formed grid: nine rows of nine cells, every cell a digit or empty.\<close>

definition wf_grid :: "grid \<Rightarrow> bool" where
  "wf_grid g = (length g = 9 \<and> list_all (\<lambda>row. length row = 9 \<and> list_all (\<lambda>v. v \<le> 9) row) g)"

text \<open>Two distinct positions see each other when they share a row, a column or a box.\<close>

definition related :: "nat \<times> nat \<Rightarrow> nat \<times> nat \<Rightarrow> bool" where
  "related p q = (p \<noteq> q \<and>
     (fst p = fst q \<or> snd p = snd q \<or> (fst p div 3 = fst q div 3 \<and> snd p div 3 = snd q div 3)))"

text \<open>Position \<open>(r', c')\<close> lies in the row, the column or the box of \<open>(r, c)\<close>.\<close>

definition sees :: "nat \<Rightarrow> nat \<Rightarrow> nat \<Rightarrow> nat \<Rightarrow> bool" where
  "sees r c r' c' = (r' = r \<or> c' = c \<or> (r' div 3 = r div 3 \<and> c' div 3 = c div 3))"

text \<open>A grid is consistent when no digit occurs twice in a row, a column or a box.\<close>

definition consistent :: "grid \<Rightarrow> bool" where
  "consistent g = list_all (\<lambda>p. list_all (\<lambda>q.
       \<not> (related p q \<and> g ! fst p ! snd p \<noteq> 0 \<and> g ! fst p ! snd p = g ! fst q ! snd q))
     allPositions) allPositions"

definition complete :: "grid \<Rightarrow> bool" where
  "complete g = list_all (\<lambda>p. g ! fst p ! snd p \<noteq> 0) allPositions"

text \<open>\<open>p\<close> keeps only cells of \<open>s\<close>: every nonzero cell of \<open>p\<close> equals the cell of \<open>s\<close>.\<close>

definition clues_of :: "grid \<Rightarrow> grid \<Rightarrow> bool" where
  "clues_of p s = list_all (\<lambda>q. p ! fst q ! snd q \<noteq> 0 \<longrightarrow> p ! fst q ! snd q = s ! fst q ! snd q)
     allPositions"

text \<open>A completion of \<open>g\<close>: a complete consistent well-formed grid that keeps the cells of \<open>g\<close>.\<close>

definition completion :: "grid \<Rightarrow> grid \<Rightarrow> bool" where
  "completion g s = (wf_grid s \<and> complete s \<and> consistent s \<and> clues_of g s)"

definition clueCount :: "grid \<Rightarrow> nat" where
  "clueCount g = length (filter (\<lambda>p. g ! fst p ! snd p \<noteq> 0) allPositions)"

definition emptyCount :: "grid \<Rightarrow> nat" where
  "emptyCount g = length (filter (\<lambda>p. g ! fst p ! snd p = 0) allPositions)"

text \<open>The solved grid that the specification uses as its running example.\<close>

definition canonical :: grid where
  "canonical =
     [[5, 3, 4, 6, 7, 8, 9, 1, 2], [6, 7, 2, 1, 9, 5, 3, 4, 8], [1, 9, 8, 3, 4, 2, 5, 6, 7],
      [8, 5, 9, 7, 6, 1, 4, 2, 3], [4, 2, 6, 8, 5, 3, 7, 9, 1], [7, 1, 3, 9, 2, 4, 8, 5, 6],
      [9, 6, 1, 5, 3, 7, 2, 8, 4], [2, 8, 7, 4, 1, 9, 6, 3, 5], [3, 4, 5, 2, 8, 6, 1, 7, 9]]"

text \<open>
  Vocabulary for the backtracking searches. \<open>filled_from g k\<close>: every cell at row-major
  index \<open>k\<close> or later is filled. \<open>search_ok g row col g'\<close>: what a successful search started
  at \<open>(row, col)\<close> on \<open>g\<close> leaves in \<open>g'\<close>. \<open>bt_spec\<close> and \<open>try_spec\<close>: the contract of a search
  call and of its loop over candidate digits.
\<close>

definition filled_from :: "grid \<Rightarrow> nat \<Rightarrow> bool" where
  "filled_from g k = (\<forall>r<9. \<forall>c<9. k \<le> 9 * r + c \<longrightarrow> g ! r ! c \<noteq> 0)"

definition digits :: "nat list \<Rightarrow> bool" where
  "digits nums = list_all (\<lambda>n. 1 \<le> n \<and> n \<le> 9) nums"

definition search_ok :: "grid \<Rightarrow> nat \<Rightarrow> nat \<Rightarrow> grid \<Rightarrow> bool" where
  "search_ok g row col g' = (wf_grid g' \<and> clues_of g g' \<and> filled_from g' (9 * row + col) \<and>
     (consistent g \<longrightarrow> consistent g'))"

definition bt_spec :: "grid \<Rightarrow> nat \<Rightarrow> nat \<Rightarrow> (bool \<times> grid) option \<Rightarrow> bool" where
  "bt_spec g row col res = (\<exists>ok g'. res = Some (ok, g') \<and>
     (if ok then search_ok g row col g' else g' = g \<and> (\<forall>s. \<not> completion g s)))"

definition try_spec :: "grid \<Rightarrow> nat \<Rightarrow> nat \<Rightarrow> nat list \<Rightarrow> (bool \<times> grid) option \<Rightarrow> bool" where
  "try_spec g row col nums res = (\<exists>ok g'. res = Some (ok, g') \<and>
     (if ok then search_ok g row col g'
      else g' = g \<and> (\<forall>s. completion g s \<longrightarrow> s ! row ! col \<notin> set nums)))"

text \<open>The result of \<open>generateSolution\<close> without the rest of the random source.\<close>

definition drop_rng :: "bool \<times> grid \<times> rng \<Rightarrow> bool \<times> grid" where
  "drop_rng res = (fst res, fst (snd res))"

text \<open>Inputs of \<open>solve\<close> that repeat the digit 3 in row 0, and a puzzle with an empty row.\<close>

definition dupRow :: grid where
  "dupRow = set_cell canonical 0 0 3"

definition dupRowOpen :: grid where
  "dupRowOpen = set_cell (set_cell canonical 0 0 3) 8 8 0"

definition rowZeroed :: grid where
  "rowZeroed = canonical[0 := replicate 9 0]"

text \<open>
  The cells of column \<open>c\<close> and of box \<open>b\<close> (boxes numbered row-major), and what it means for
  every row, column and box to be a permutation of the digits 1-9.
\<close>

definition colValues :: "grid \<Rightarrow> nat \<Rightarrow> nat list" where
  "colValues g c = map (\<lambda>r. g ! r ! c) [0..<9]"

definition boxValues :: "grid \<Rightarrow> nat \<Rightarrow> nat list" where
  "boxValues g b = map (\<lambda>k. g ! (3 * (b div 3) + k div 3) ! (3 * (b mod 3) + k mod 3)) [0..<9]"

definition permutation19 :: "nat list \<Rightarrow> bool" where
  "permutation19 xs = (length xs = 9 \<and> distinct xs \<and> set xs = set [1..<10])"

definition solved :: "grid \<Rightarrow> bool" where
  "solved g = list_all (\<lambda>i. permutation19 (g ! i) \<and> permutation19 (colValues g i) \<and>
     permutation19 (boxValues g i)) [0..<9]"

text \<open>
  The number of completions of a grid, and the completions whose cell \<open>(row, col)\<close> holds one
  of the digits \<open>nums\<close>.
\<close>

definition numCompletions :: "grid \<Rightarrow> nat" where
  "numCompletions g = card {s. completion g s}"

definition valuesAt :: "grid \<Rightarrow> nat \<Rightarrow> nat \<Rightarrow> nat list \<Rightarrow> grid set" where
  "valuesAt g row col nums = {s. completion g s \<and> s ! row ! col \<in> set nums}"

section \<open>The game state of the stand-alone script\<close>

text \<open>
  The notes of a cell (field \<open>notes\<close>, here \<open>notes'\<close>) are a JavaScript \<open>Set\<close> of digits; the notes of the board are a 9x9
  array of such sets. History actions are objects tagged by their \<open>type\<close> field
  (\<open>'value'\<close>, \<open>'hint'\<close>, \<open>'note'\<close>, \<open>'erase'\<close>) with the fields \<open>row\<close>, \<open>col\<close> and the old and new
  value or notes. Every action stores copies of the note sets (\<open>new Set(...)\<close>), so values
  model them.
\<close>

type_synonym notes_grid = "nat set list list"

definition set_notes :: "notes_grid \<Rightarrow> nat \<Rightarrow> nat \<Rightarrow> nat set \<Rightarrow> notes_grid" where
  "set_notes ns r c v = ns[r := (ns ! r)[c := v]]"

datatype action =
    ValueAction nat nat nat nat
  | HintAction nat nat nat nat
  | NoteAction nat nat "nat set" "nat set"
  | EraseAction nat nat nat "nat set"

record game =
  board :: grid
  solution :: grid
  initial :: grid
  notes' :: notes_grid
  selected :: "(nat \<times> nat) option"
  difficulty :: string
  hintsRemaining :: int
  isNotesMode :: bool
  isPaused :: bool
  isComplete :: bool
  history :: "action list"
  historyIndex :: int

text \<open>\<open>slice0 xs e\<close> is \<open>xs.slice(0, e)\<close>; a negative end counts from the end of the array.\<close>

definition slice0 :: "'a list \<Rightarrow> int \<Rightarrow> 'a list" where
  "slice0 xs e = (if 0 \<le> e then take (nat e) xs else take (length xs - nat (- e)) xs)"

text \<open>\<open>history.slice(0, historyIndex + 1)\<close>, then \<open>push\<close> and \<open>historyIndex++\<close>.\<close>

definition addToHistory :: "action \<Rightarrow> game \<Rightarrow> game" where
  "addToHistory a s =
     s\<lparr>history := slice0 (history s) (historyIndex s + 1) @ [a],
       historyIndex := historyIndex s + 1\<rparr>"

fun applyAction :: "action \<Rightarrow> bool \<Rightarrow> game \<Rightarrow> game" where
  "applyAction (ValueAction row col oldValue newValue) reverse s =
     s\<lparr>board := set_cell (board s) row col (if reverse then oldValue else newValue)\<rparr>"
| "applyAction (HintAction row col oldValue newValue) reverse s =
     s\<lparr>board := set_cell (board s) row col (if reverse then oldValue else newValue)\<rparr>"
| "applyAction (NoteAction row col oldNotes newNotes) reverse s =
     s\<lparr>notes' := set_notes (notes' s) row col (if reverse then oldNotes else newNotes)\<rparr>"
| "applyAction (EraseAction row col oldValue oldNotes) reverse s =
     (if reverse
      then s\<lparr>board := set_cell (board s) row col oldValue,
             notes' := set_notes (notes' s) row col oldNotes\<rparr>
      else s\<lparr>board := set_cell (board s) row col 0,
             notes' := set_notes (notes' s) row col {}\<rparr>)"

definition undo :: "game \<Rightarrow> game" where
  "undo s =
     (if historyIndex s < 0 \<or> isPaused s \<or> isComplete s then s
      else let a = history s ! nat (historyIndex s)
           in applyAction a True (s\<lparr>historyIndex := historyIndex s - 1\<rparr>))"

definition redo :: "game \<Rightarrow> game" where
  "redo s =
     (if int (length (history s)) - 1 \<le> historyIndex s \<or> isPaused s \<or> isComplete s then s
      else let s1 = s\<lparr>historyIndex := historyIndex s + 1\<rparr>;
               a = history s1 ! nat (historyIndex s1)
           in applyAction a False s1)"

definition checkWinCondition :: "game \<Rightarrow> game" where
  "checkWinCondition s =
     (if list_ex (\<lambda>(r, c). board s ! r ! c \<noteq> solution s ! r ! c) allPositions then s
      else s\<lparr>isComplete := True\<rparr>)"

definition setsEqual :: "nat set \<Rightarrow> nat set \<Rightarrow> bool" where
  "setsEqual a b = (card a = card b \<and> a \<subseteq> b)"

definition inputNumber :: "nat \<Rightarrow> game \<Rightarrow> game" where
  "inputNumber num s =
     (case selected s of
        None \<Rightarrow> s
      | Some (row, col) \<Rightarrow>
          if isPaused s \<or> isComplete s then s
          else if initial s ! row ! col \<noteq> 0 then s
          else checkWinCondition
            (if isNotesMode s then
               let cellNotes = notes' s ! row ! col;
                   oldNotes = cellNotes;
                   cellNotes' = (if num \<in> cellNotes then cellNotes - {num}
                                 else insert num cellNotes);
                   s1 = s\<lparr>notes' := set_notes (notes' s) row col cellNotes'\<rparr>;
                   s2 = (if \<not> setsEqual oldNotes cellNotes'
                         then addToHistory (NoteAction row col oldNotes cellNotes') s1
                         else s1)
               in if board s2 ! row ! col \<noteq> 0
                  then let oldValue = board s2 ! row ! col
                       in addToHistory (ValueAction row col oldValue 0)
                            (s2\<lparr>board := set_cell (board s2) row col 0\<rparr>)
                  else s2
             else
               let oldValue = board s ! row ! col
               in if oldValue = num
                  then addToHistory (ValueAction row col oldValue 0)
                         (s\<lparr>board := set_cell (board s) row col 0\<rparr>)
                  else addToHistory (ValueAction row col oldValue num)
                         (s\<lparr>board := set_cell (board s) row col num,
                            notes' := set_notes (notes' s) row col {}\<rparr>)))"

definition eraseCell :: "game \<Rightarrow> game" where
  "eraseCell s =
     (case selected s of
        None \<Rightarrow> s
      | Some (row, col) \<Rightarrow>
          if isPaused s \<or> isComplete s then s
          else if initial s ! row ! col \<noteq> 0 then s
          else let oldValue = board s ! row ! col;
                   oldNotes = notes' s ! row ! col
               in if oldValue \<noteq> 0 \<or> oldNotes \<noteq> {}
                  then addToHistory (EraseAction row col oldValue oldNotes)
                         (s\<lparr>board := set_cell (board s) row col 0,
                            notes' := set_notes (notes' s) row col {}\<rparr>)
                  else s)"

text \<open>
  \<open>giveHint\<close> picks \<open>candidates[Math.floor(Math.random() * candidates.length)]\<close>; the
  parameter \<open>u\<close> is the draw of the random source.
\<close>

definition giveHint :: "nat \<Rightarrow> game \<Rightarrow> game" where
  "giveHint u s =
     (if hintsRemaining s \<le> 0 \<or> isPaused s \<or> isComplete s then s
      else let candidates = filter (\<lambda>(r, c). board s ! r ! c \<noteq> solution s ! r ! c) allPositions
           in if candidates = [] then s
              else let (row, col) = candidates ! (u mod length candidates);
                       correctValue = solution s ! row ! col;
                       oldValue = board s ! row ! col
                   in checkWinCondition
                        (addToHistory (HintAction row col oldValue correctValue)
                           (s\<lparr>board := set_cell (board s) row col correctValue,
                              notes' := set_notes (notes' s) row col {},
                              hintsRemaining := hintsRemaining s - 1\<rparr>)))"

definition selectCell :: "nat \<Rightarrow> nat \<Rightarrow> game \<Rightarrow> game" where
  "selectCell row col s =
     (if isPaused s \<or> isComplete s then s else s\<lparr>selected := Some (row, col)\<rparr>)"

definition toggleNotesMode :: "game \<Rightarrow> game" where
  "toggleNotesMode s = s\<lparr>isNotesMode := \<not> isNotesMode s\<rparr>"

definition togglePause :: "game \<Rightarrow> game" where
  "togglePause s = (if isComplete s then s else s\<lparr>isPaused := \<not> isPaused s\<rparr>)"

text \<open>\<open>autoSolve\<close> copies the solution into the 81 cells of the board and clears all notes.\<close>

definition autoSolve :: "game \<Rightarrow> game" where
  "autoSolve s =
     (if isPaused s \<or> isComplete s then s
      else s\<lparr>board := foldl (\<lambda>b (r, c). set_cell b r c (solution s ! r ! c)) (board s) allPositions,
             notes' := foldl (\<lambda>n (r, c). set_notes n r c {}) (notes' s) allPositions,
             isComplete := True\<rparr>)"

text \<open>The state that \<open>startNewGame\<close> installs for a generated puzzle.\<close>

definition newGameState :: "grid \<Rightarrow> grid \<Rightarrow> string \<Rightarrow> game" where
  "newGameState puzzle solution' difficulty' =
     \<lparr>board = map (\<lambda>row. row) puzzle, solution = solution',
      initial = map (\<lambda>row. row) puzzle,
      notes' = replicate 9 (replicate 9 {}), selected = None, difficulty = difficulty',
      hintsRemaining = 3, isNotesMode = False, isPaused = False, isComplete = False,
      history = [], historyIndex = - 1\<rparr>"

definition startNewGame :: "tiers \<Rightarrow> rng \<Rightarrow> string \<Rightarrow> (game \<times> rng) option" where
  "startNewGame tiers rng difficulty' =
     (case generatePuzzle tiers rng difficulty' of
        None \<Rightarrow> None
      | Some ((puzzle, solution'), rng') \<Rightarrow> Some (newGameState puzzle solution' difficulty', rng'))"

text \<open>
  The events the user interface sends: a click or arrow key selects a cell of the board, a
  digit key or number button enters one of 1-9.
\<close>

datatype event =
    SelectCell nat nat
  | InputNumber nat
  | EraseCell
  | ToggleNotesMode
  | GiveHint nat
  | Undo
  | Redo
  | TogglePause
  | AutoSolve

fun handle :: "event \<Rightarrow> game \<Rightarrow> game" where
  "handle (SelectCell row col) s = selectCell row col s"
| "handle (InputNumber num) s = inputNumber num s"
| "handle EraseCell s = eraseCell s"
| "handle ToggleNotesMode s = toggleNotesMode s"
| "handle (GiveHint u) s = giveHint u s"
| "handle Undo s = undo s"
| "handle Redo s = redo s"
| "handle TogglePause s = togglePause s"
| "handle AutoSolve s = autoSolve s"

definition ui_event :: "event \<Rightarrow> bool" where
  "ui_event e = (case e of
       SelectCell row col \<Rightarrow> row < 9 \<and> col < 9
     | InputNumber num \<Rightarrow> 1 \<le> num \<and> num \<le> 9
     | _ \<Rightarrow> True)"

text \<open>The states a game started by \<open>startNewGame\<close> can reach.\<close>

inductive reachable :: "tiers \<Rightarrow> rng \<Rightarrow> string \<Rightarrow> game \<Rightarrow> bool"
  for tiers :: tiers and rng :: rng and d :: string where
  start: "startNewGame tiers rng d = Some (s, rng') \<Longrightarrow> reachable tiers rng d s"
| step: "reachable tiers rng d s \<Longrightarrow> ui_event e \<Longrightarrow> reachable tiers rng d (handle e s)"

section \<open>The game state of \<open>sudoku-pwa/script.js\<close>\<close>

text \<open>
  Here the history is a pair of stacks, \<open>moveHistory\<close> and \<open>redoStack\<close> (arrays used with
  \<open>push\<close> and \<open>pop\<close>, the top at the end). Every entry has the same fields; \<open>newNotes\<close> stays
  \<open>null\<close> (\<open>None\<close>) when a value is toggled off. The preference \<open>autoRemoveNotes\<close> is part
  of the modelled state.
\<close>

datatype move_type = NoteMove | ValueMove | EraseMove | HintMove

record move =
  moveType :: move_type
  moveRow :: nat
  moveCol :: nat
  oldValue :: nat
  oldNotes :: "nat set"
  newValue :: nat
  newNotes :: "nat set option"

record pwa_game =
  pwa_board :: grid
  pwa_solution :: grid
  pwa_initial :: grid
  pwa_notes :: notes_grid
  pwa_selected :: "(nat \<times> nat) option"
  pwa_difficulty :: string
  pwa_hintsRemaining :: int
  pwa_hintsUsed :: int
  pwa_isNotesMode :: bool
  pwa_isPaused :: bool
  pwa_isComplete :: bool
  moveHistory :: "move list"
  redoStack :: "move list"
  autoRemoveNotes :: bool

definition deleteNote :: "notes_grid \<Rightarrow> nat \<Rightarrow> nat \<Rightarrow> nat \<Rightarrow> notes_grid" where
  "deleteNote ns r c num = set_notes ns r c (ns ! r ! c - {num})"

definition removeRelatedNotes :: "notes_grid \<Rightarrow> nat \<Rightarrow> nat \<Rightarrow> nat \<Rightarrow> notes_grid" where
  "removeRelatedNotes ns row col num =
     (let ns1 = foldl (\<lambda>n i. deleteNote (deleteNote n row i num) i col num) ns [0..<9];
          boxRow = (row div 3) * 3;
          boxCol = (col div 3) * 3
      in foldl (\<lambda>n r. foldl (\<lambda>n' c. deleteNote n' r c num) n [boxCol..<boxCol + 3]) ns1
           [boxRow..<boxRow + 3])"

definition pwa_checkWin :: "pwa_game \<Rightarrow> pwa_game" where
  "pwa_checkWin s =
     (if list_ex (\<lambda>(r, c). pwa_board s ! r ! c \<noteq> pwa_solution s ! r ! c) allPositions then s
      else s\<lparr>pwa_isComplete := True\<rparr>)"

definition pwa_inputNumber :: "nat \<Rightarrow> pwa_game \<Rightarrow> pwa_game" where
  "pwa_inputNumber num s =
     (case pwa_selected s of
        None \<Rightarrow> s
      | Some (row, col) \<Rightarrow>
          if pwa_isPaused s \<or> pwa_isComplete s then s
          else if pwa_initial s ! row ! col \<noteq> 0 then s
          else
            let historyEntry =
                  \<lparr>moveType = (if pwa_isNotesMode s then NoteMove else ValueMove),
                   moveRow = row, moveCol = col,
                   oldValue = pwa_board s ! row ! col,
                   oldNotes = pwa_notes s ! row ! col,
                   newValue = 0, newNotes = None\<rparr>;
                (s1, historyEntry1) =
                  (if pwa_isNotesMode s then
                     let cellNotes = pwa_notes s ! row ! col;
                         cellNotes' = (if num \<in> cellNotes then cellNotes - {num}
                                       else insert num cellNotes);
                         s' = s\<lparr>pwa_notes := set_notes (pwa_notes s) row col cellNotes'\<rparr>;
                         s'' = (if pwa_board s' ! row ! col \<noteq> 0
                                then s'\<lparr>pwa_board := set_cell (pwa_board s') row col 0\<rparr>
                                else s')
                     in (s'', historyEntry\<lparr>newNotes := Some cellNotes', newValue := 0\<rparr>)
                   else
                     let oldValue' = pwa_board s ! row ! col
                     in if oldValue' = num
                        then (s\<lparr>pwa_board := set_cell (pwa_board s) row col 0\<rparr>,
                              historyEntry\<lparr>newValue := 0\<rparr>)
                        else
                          let s' = s\<lparr>pwa_board := set_cell (pwa_board s) row col num,
                                     pwa_notes := set_notes (pwa_notes s) row col {}\<rparr>;
                              s'' = (if autoRemoveNotes s'
                                     then s'\<lparr>pwa_notes :=
                                            removeRelatedNotes (pwa_notes s') row col num\<rparr>
                                     else s')
                          in (s'', historyEntry\<lparr>newValue := num, newNotes := Some {}\<rparr>))
            in pwa_checkWin
                 (s1\<lparr>moveHistory := moveHistory s1 @ [historyEntry1], redoStack := []\<rparr>))"

definition pwa_erase :: "pwa_game \<Rightarrow> pwa_game" where
  "pwa_erase s =
     (case pwa_selected s of
        None \<Rightarrow> s
      | Some (row, col) \<Rightarrow>
          if pwa_isPaused s \<or> pwa_isComplete s then s
          else if pwa_initial s ! row ! col \<noteq> 0 then s
          else let oldValue' = pwa_board s ! row ! col;
                   oldNotes' = pwa_notes s ! row ! col
               in if oldValue' = 0 \<and> oldNotes' = {} then s
                  else s\<lparr>moveHistory := moveHistory s @
                             [\<lparr>moveType = EraseMove, moveRow = row, moveCol = col,
                               oldValue = oldValue', oldNotes = oldNotes',
                               newValue = 0, newNotes = Some {}\<rparr>],
                         redoStack := [],
                         pwa_board := set_cell (pwa_board s) row col 0,
                         pwa_notes := set_notes (pwa_notes s) row col {}\<rparr>)"

definition pwa_undo :: "pwa_game \<Rightarrow> pwa_game" where
  "pwa_undo s =
     (if moveHistory s = [] \<or> pwa_isPaused s \<or> pwa_isComplete s then s
      else let m = last (moveHistory s)
           in s\<lparr>moveHistory := butlast (moveHistory s),
                redoStack := redoStack s @ [m],
                pwa_board := set_cell (pwa_board s) (moveRow m) (moveCol m) (oldValue m),
                pwa_notes := set_notes (pwa_notes s) (moveRow m) (moveCol m) (oldNotes m)\<rparr>)"

definition pwa_redo :: "pwa_game \<Rightarrow> pwa_game" where
  "pwa_redo s =
     (if redoStack s = [] \<or> pwa_isPaused s \<or> pwa_isComplete s then s
      else let m = last (redoStack s)
           in s\<lparr>redoStack := butlast (redoStack s),
                moveHistory := moveHistory s @ [m],
                pwa_board := set_cell (pwa_board s) (moveRow m) (moveCol m) (newValue m),
                pwa_notes := set_notes (pwa_notes s) (moveRow m) (moveCol m)
                               (case newNotes m of None \<Rightarrow> {} | Some ns \<Rightarrow> ns)\<rparr>)"

definition pwa_hint :: "nat \<Rightarrow> pwa_game \<Rightarrow> pwa_game" where
  "pwa_hint u s =
     (if pwa_hintsRemaining s \<le> 0 \<or> pwa_isPaused s \<or> pwa_isComplete s then s
      else let candidates =
                 filter (\<lambda>(r, c). pwa_board s ! r ! c \<noteq> pwa_solution s ! r ! c) allPositions
           in if candidates = [] then s
              else let (row, col) = candidates ! (u mod length candidates);
                       correctValue = pwa_solution s ! row ! col;
                       oldValue' = pwa_board s ! row ! col
                   in pwa_checkWin
                        (s\<lparr>moveHistory := moveHistory s @
                              [\<lparr>moveType = HintMove, moveRow = row, moveCol = col,
                                oldValue = oldValue', oldNotes = pwa_notes s ! row ! col,
                                newValue = correctValue, newNotes = Some {}\<rparr>],
                           redoStack := [],
                           pwa_board := set_cell (pwa_board s) row col correctValue,
                           pwa_notes := set_notes (pwa_notes s) row col {},
                           pwa_hintsRemaining := pwa_hintsRemaining s - 1,
                           pwa_hintsUsed := pwa_hintsUsed s + 1\<rparr>))"

definition pwa_selectCell :: "nat \<Rightarrow> nat \<Rightarrow> pwa_game \<Rightarrow> pwa_game" where
  "pwa_selectCell row col s =
     (if pwa_isPaused s \<or> pwa_isComplete s then s else s\<lparr>pwa_selected := Some (row, col)\<rparr>)"

definition pwa_toggleNotes :: "pwa_game \<Rightarrow> pwa_game" where
  "pwa_toggleNotes s = s\<lparr>pwa_isNotesMode := \<not> pwa_isNotesMode s\<rparr>"

definition pwa_togglePause :: "pwa_game \<Rightarrow> pwa_game" where
  "pwa_togglePause s = (if pwa_isComplete s then s else s\<lparr>pwa_isPaused := \<not> pwa_isPaused s\<rparr>)"

definition pwa_autoSolve :: "pwa_game \<Rightarrow> pwa_game" where
  "pwa_autoSolve s =
     (if pwa_isPaused s \<or> pwa_isComplete s then s
      else s\<lparr>pwa_board := foldl (\<lambda>b (r, c). set_cell b r c (pwa_solution s ! r ! c))
                             (pwa_board s) allPositions,
             pwa_notes := foldl (\<lambda>n (r, c). set_notes n r c {}) (pwa_notes s) allPositions,
             pwa_isComplete := True\<rparr>)"

text \<open>The state that \<open>GameController.newGame\<close> installs; the preference is kept.\<close>

definition pwa_newGameState :: "grid \<Rightarrow> grid \<Rightarrow> string \<Rightarrow> bool \<Rightarrow> pwa_game" where
  "pwa_newGameState puzzle solution' difficulty' autoRemove =
     \<lparr>pwa_board = map (\<lambda>row. row) puzzle, pwa_solution = solution',
      pwa_initial = map (\<lambda>row. row) puzzle,
      pwa_notes = replicate 9 (replicate 9 {}), pwa_selected = None,
      pwa_difficulty = difficulty', pwa_hintsRemaining = 3, pwa_hintsUsed = 0,
      pwa_isNotesMode = False, pwa_isPaused = False, pwa_isComplete = False,
      moveHistory = [], redoStack = [], autoRemoveNotes = autoRemove\<rparr>"

definition pwa_newGame :: "tiers \<Rightarrow> rng \<Rightarrow> string \<Rightarrow> bool \<Rightarrow> (pwa_game \<times> rng) option" where
  "pwa_newGame tiers rng difficulty' autoRemove =
     (case pwa_generate tiers rng difficulty' of
        None \<Rightarrow> None
      | Some ((puzzle, solution'), rng') \<Rightarrow>
          Some (pwa_newGameState puzzle solution' difficulty' autoRemove, rng'))"

datatype pwa_event =
    PwaSelectCell nat nat
  | PwaInputNumber nat
  | PwaErase
  | PwaToggleNotes
  | PwaHint nat
  | PwaUndo
  | PwaRedo
  | PwaTogglePause
  | PwaAutoSolve
  | PwaSetAutoRemoveNotes bool

fun pwa_handle :: "pwa_event \<Rightarrow> pwa_game \<Rightarrow> pwa_game" where
  "pwa_handle (PwaSelectCell row col) s = pwa_selectCell row col s"
| "pwa_handle (PwaInputNumber num) s = pwa_inputNumber num s"
| "pwa_handle PwaErase s = pwa_erase s"
| "pwa_handle PwaToggleNotes s = pwa_toggleNotes s"
| "pwa_handle (PwaHint u) s = pwa_hint u s"
| "pwa_handle PwaUndo s = pwa_undo s"
| "pwa_handle PwaRedo s = pwa_redo s"
| "pwa_handle PwaTogglePause s = pwa_togglePause s"
| "pwa_handle PwaAutoSolve s = pwa_autoSolve s"
| "pwa_handle (PwaSetAutoRemoveNotes b) s = s\<lparr>autoRemoveNotes := b\<rparr>"

definition pwa_ui_event :: "pwa_event \<Rightarrow> bool" where
  "pwa_ui_event e = (case e of
       PwaSelectCell row col \<Rightarrow> row < 9 \<and> col < 9
     | PwaInputNumber num \<Rightarrow> 1 \<le> num \<and> num \<le> 9
     | _ \<Rightarrow> True)"

inductive pwa_reachable :: "tiers \<Rightarrow> rng \<Rightarrow> string \<Rightarrow> bool \<Rightarrow> pwa_game \<Rightarrow> bool"
  for tiers :: tiers and rng :: rng and d :: string and autoRemove :: bool where
  pwa_start: "pwa_newGame tiers rng d autoRemove = Some (s, rng') \<Longrightarrow>
      pwa_reachable tiers rng d autoRemove s"
| pwa_step: "pwa_reachable tiers rng d autoRemove s \<Longrightarrow> pwa_ui_event e \<Longrightarrow>
      pwa_reachable tiers rng d autoRemove (pwa_handle e s)"

section \<open>Vocabulary for the game state\<close>

text \<open>
  \<open>grid9\<close>: a 9x9 array. \<open>editable init r c\<close>: a board position that is not prefilled.
  \<open>prefilled_kept init b\<close>: the board \<open>b\<close> still shows every clue of \<open>init\<close>. \<open>game_inv\<close> and
  \<open>pwa_inv\<close>: what every reachable state of the two scripts satisfies. \<open>toggleNote\<close>,
  \<open>pwa_noteEntry\<close> and \<open>pwa_valueEntry\<close> name the note set and the history entries that
  \<open>GameController.inputNumber\<close> builds.
\<close>

definition grid9 :: "'a list list \<Rightarrow> bool" where
  "grid9 g = (length g = 9 \<and> (\<forall>r<9. length (g ! r) = 9))"

fun actionRow :: "action \<Rightarrow> nat" where
  "actionRow (ValueAction row col ov nv) = row"
| "actionRow (HintAction row col ov nv) = row"
| "actionRow (NoteAction row col ons nns) = row"
| "actionRow (EraseAction row col ov ons) = row"

fun actionCol :: "action \<Rightarrow> nat" where
  "actionCol (ValueAction row col ov nv) = col"
| "actionCol (HintAction row col ov nv) = col"
| "actionCol (NoteAction row col ons nns) = col"
| "actionCol (EraseAction row col ov ons) = col"

definition editable :: "grid \<Rightarrow> nat \<Rightarrow> nat \<Rightarrow> bool" where
  "editable init r c = (r < 9 \<and> c < 9 \<and> init ! r ! c = 0)"

definition prefilled_kept :: "grid \<Rightarrow> grid \<Rightarrow> bool" where
  "prefilled_kept init b = (\<forall>r<9. \<forall>c<9. init ! r ! c \<noteq> 0 \<longrightarrow> b ! r ! c = init ! r ! c)"

definition game_inv :: "game \<Rightarrow> bool" where
  "game_inv s = (grid9 (board s) \<and> clues_of (initial s) (solution s) \<and>
     prefilled_kept (initial s) (board s) \<and>
     (\<forall>a\<in>set (history s). editable (initial s) (actionRow a) (actionCol a)) \<and>
     - 1 \<le> historyIndex s \<and> historyIndex s < int (length (history s)) \<and>
     (case selected s of None \<Rightarrow> True | Some (r, c) \<Rightarrow> r < 9 \<and> c < 9))"

definition pwa_inv :: "pwa_game \<Rightarrow> bool" where
  "pwa_inv s = (grid9 (pwa_board s) \<and> clues_of (pwa_initial s) (pwa_solution s) \<and>
     prefilled_kept (pwa_initial s) (pwa_board s) \<and>
     (\<forall>m\<in>set (moveHistory s) \<union> set (redoStack s).
        editable (pwa_initial s) (moveRow m) (moveCol m)) \<and>
     (case pwa_selected s of None \<Rightarrow> True | Some (r, c) \<Rightarrow> r < 9 \<and> c < 9))"

definition toggleNote :: "nat \<Rightarrow> nat set \<Rightarrow> nat set" where
  "toggleNote num ns = (if num \<in> ns then ns - {num} else insert num ns)"

definition pwa_noteEntry :: "nat \<Rightarrow> pwa_game \<Rightarrow> nat \<Rightarrow> nat \<Rightarrow> move" where
  "pwa_noteEntry num s row col =
     \<lparr>moveType = NoteMove, moveRow = row, moveCol = col,
      oldValue = pwa_board s ! row ! col, oldNotes = pwa_notes s ! row ! col,
      newValue = 0, newNotes = Some (toggleNote num (pwa_notes s ! row ! col))\<rparr>"

definition pwa_valueEntry :: "nat \<Rightarrow> pwa_game \<Rightarrow> nat \<Rightarrow> nat \<Rightarrow> move" where
  "pwa_valueEntry num s row col =
     \<lparr>moveType = ValueMove, moveRow = row, moveCol = col,
      oldValue = pwa_board s ! row ! col, oldNotes = pwa_notes s ! row ! col,
      newValue = (if pwa_board s ! row ! col = num then 0 else num),
      newNotes = (if pwa_board s ! row ! col = num then None else Some {})\<rparr>"

section \<open>Vocabulary for the undo/redo history\<close>

text \<open>
  \<open>revBoard\<close> and \<open>fwdBoard\<close>: what \<open>applyAction\<close> does to the board when it reverses or
  re-applies one entry. \<open>applied s\<close>: the entries up to \<open>historyIndex\<close>, the part of the log
  that is in effect. \<open>ledger_ok\<close>: the index points into the log or is \<open>-1\<close>. \<open>active\<close>: the
  game is neither paused nor complete. \<open>coherent b as\<close>: replaying \<open>as\<close> from board \<open>b\<close>, each
  entry is undone by its own reversal. \<open>logs s new s'\<close>: going from \<open>s\<close> to \<open>s'\<close> appended the
  entries \<open>new\<close> to the applied part, and \<open>new\<close> relates the two boards. \<open>synced b0 s\<close>: the
  board of \<open>s\<close> is \<open>b0\<close> with the applied part of a coherent log replayed. \<open>run\<close> feeds a list
  of events to \<open>handle\<close>. \<open>edit_event\<close>: every event except undo, redo and auto-solve.
  The \<open>pwa_\<close> names are the same notions for the two stacks of \<open>sudoku-pwa/script.js\<close>.
  \<open>revNotes\<close>, \<open>fwdNotes\<close>, \<open>ncoherent\<close>, \<open>nreplay\<close>, \<open>nlogs\<close> and \<open>nsynced\<close> are the same
  notions for the notes. \<open>notes_kept s e\<close>: the event \<open>e\<close> in state \<open>s\<close> changes the notes only
  in ways that its history entries describe. In the stand-alone script this rules out a
  new value or a hint on a cell that holds notes (value and hint entries carry no notes)
  and asks that a note toggle is recorded, which it is whenever the note set is finite; in
  \<open>sudoku-pwa/script.js\<close> it rules out a value toggled off on a cell that holds notes and a
  new value whose \<open>removeRelatedNotes\<close> removes a note. \<open>notes_kept_run\<close> asks this of every
  event of a run.
  \<open>demoGame\<close>, \<open>pwa_demoGame\<close>, \<open>lastOpen\<close> and the definitions after them are concrete
  games, grids and event lists used as examples.
\<close>

fun revBoard :: "action \<Rightarrow> grid \<Rightarrow> grid" where
  "revBoard (ValueAction row col ov nv) b = set_cell b row col ov"
| "revBoard (HintAction row col ov nv) b = set_cell b row col ov"
| "revBoard (NoteAction row col ons nns) b = b"
| "revBoard (EraseAction row col ov ons) b = set_cell b row col ov"

fun fwdBoard :: "action \<Rightarrow> grid \<Rightarrow> grid" where
  "fwdBoard (ValueAction row col ov nv) b = set_cell b row col nv"
| "fwdBoard (HintAction row col ov nv) b = set_cell b row col nv"
| "fwdBoard (NoteAction row col ons nns) b = b"
| "fwdBoard (EraseAction row col ov ons) b = set_cell b row col 0"

definition active :: "game \<Rightarrow> bool" where
  "active s = (\<not> isPaused s \<and> \<not> isComplete s)"

definition ledger_ok :: "game \<Rightarrow> bool" where
  "ledger_ok s = (- 1 \<le> historyIndex s \<and> historyIndex s < int (length (history s)))"

definition applied :: "game \<Rightarrow> action list" where
  "applied s = take (nat (historyIndex s + 1)) (history s)"

definition edit_event :: "event \<Rightarrow> bool" where
  "edit_event e = (case e of Undo \<Rightarrow> False | Redo \<Rightarrow> False | AutoSolve \<Rightarrow> False | _ \<Rightarrow> True)"

fun coherent :: "grid \<Rightarrow> action list \<Rightarrow> bool" where
  "coherent b [] = True"
| "coherent b (a # as) = (revBoard a (fwdBoard a b) = b \<and> coherent (fwdBoard a b) as)"

definition replay :: "grid \<Rightarrow> action list \<Rightarrow> grid" where
  "replay b as = foldl (\<lambda>b a. fwdBoard a b) b as"

definition logs :: "game \<Rightarrow> action list \<Rightarrow> game \<Rightarrow> bool" where
  "logs s new s' = (applied s' = applied s @ new \<and> ledger_ok s' \<and>
     coherent (board s) new \<and> replay (board s) new = board s' \<and>
     history s' = (if new = [] then history s else applied s'))"

definition synced :: "grid \<Rightarrow> game \<Rightarrow> bool" where
  "synced b0 s = (ledger_ok s \<and> coherent b0 (history s) \<and> board s = replay b0 (applied s))"

definition run :: "event list \<Rightarrow> game \<Rightarrow> game" where
  "run es s = foldl (\<lambda>s e. handle e s) s es"

definition plain_event :: "event \<Rightarrow> bool" where
  "plain_event e = (e \<noteq> AutoSolve)"

definition undo_redo_event :: "event \<Rightarrow> bool" where
  "undo_redo_event e = (e = Undo \<or> e = Redo)"

definition pwa_revBoard :: "move \<Rightarrow> grid \<Rightarrow> grid" where
  "pwa_revBoard m b = set_cell b (moveRow m) (moveCol m) (oldValue m)"

definition pwa_fwdBoard :: "move \<Rightarrow> grid \<Rightarrow> grid" where
  "pwa_fwdBoard m b = set_cell b (moveRow m) (moveCol m) (newValue m)"

definition pwa_active :: "pwa_game \<Rightarrow> bool" where
  "pwa_active s = (\<not> pwa_isPaused s \<and> \<not> pwa_isComplete s)"

definition pwa_edit_event :: "pwa_event \<Rightarrow> bool" where
  "pwa_edit_event e = (case e of PwaUndo \<Rightarrow> False | PwaRedo \<Rightarrow> False | PwaAutoSolve \<Rightarrow> False
     | _ \<Rightarrow> True)"

definition pwa_run :: "pwa_event list \<Rightarrow> pwa_game \<Rightarrow> pwa_game" where
  "pwa_run es s = foldl (\<lambda>s e. pwa_handle e s) s es"

fun pwa_coherent :: "grid \<Rightarrow> move list \<Rightarrow> bool" where
  "pwa_coherent b [] = True"
| "pwa_coherent b (m # ms) =
     (pwa_revBoard m (pwa_fwdBoard m b) = b \<and> pwa_coherent (pwa_fwdBoard m b) ms)"

definition pwa_replay :: "grid \<Rightarrow> move list \<Rightarrow> grid" where
  "pwa_replay b ms = foldl (\<lambda>b m. pwa_fwdBoard m b) b ms"

definition pwa_logs :: "pwa_game \<Rightarrow> move list \<Rightarrow> pwa_game \<Rightarrow> bool" where
  "pwa_logs s new s' = (moveHistory s' = moveHistory s @ new \<and>
     pwa_coherent (pwa_board s) new \<and> pwa_replay (pwa_board s) new = pwa_board s' \<and>
     redoStack s' = (if new = [] then redoStack s else []))"

definition pwa_synced :: "grid \<Rightarrow> pwa_game \<Rightarrow> bool" where
  "pwa_synced b0 s = (pwa_coherent b0 (moveHistory s @ rev (redoStack s)) \<and>
     pwa_board s = pwa_replay b0 (moveHistory s))"

definition pwa_plain_event :: "pwa_event \<Rightarrow> bool" where
  "pwa_plain_event e = (e \<noteq> PwaAutoSolve)"

definition pwa_undo_redo_event :: "pwa_event \<Rightarrow> bool" where
  "pwa_undo_redo_event e = (e = PwaUndo \<or> e = PwaRedo)"

definition demoGame :: game where
  "demoGame = newGameState rowZeroed canonical ''easy''"

definition pwa_demoGame :: pwa_game where
  "pwa_demoGame = pwa_newGameState rowZeroed canonical ''easy'' True"

definition lastOpen :: grid where
  "lastOpen = set_cell canonical 8 8 0"

definition notedGame :: game where
  "notedGame = run [SelectCell 0 0, ToggleNotesMode, InputNumber 5, ToggleNotesMode] demoGame"

definition pwa_notedGame :: pwa_game where
  "pwa_notedGame = pwa_run [PwaSelectCell 0 1, PwaToggleNotes, PwaInputNumber 7, PwaToggleNotes,
     PwaSelectCell 0 0] pwa_demoGame"

definition lastOpenGame :: game where
  "lastOpenGame = handle (SelectCell 8 8) (newGameState lastOpen canonical ''easy'')"

definition demoStart :: game where
  "demoStart = run [SelectCell 0 0] demoGame"

definition pwa_demoStart :: pwa_game where
  "pwa_demoStart = pwa_run [PwaSelectCell 0 0] pwa_demoGame"

fun revNotes :: "action \<Rightarrow> notes_grid \<Rightarrow> notes_grid" where
  "revNotes (ValueAction row col ov nv) n = n"
| "revNotes (HintAction row col ov nv) n = n"
| "revNotes (NoteAction row col ons nns) n = set_notes n row col ons"
| "revNotes (EraseAction row col ov ons) n = set_notes n row col ons"

fun fwdNotes :: "action \<Rightarrow> notes_grid \<Rightarrow> notes_grid" where
  "fwdNotes (ValueAction row col ov nv) n = n"
| "fwdNotes (HintAction row col ov nv) n = n"
| "fwdNotes (NoteAction row col ons nns) n = set_notes n row col nns"
| "fwdNotes (EraseAction row col ov ons) n = set_notes n row col {}"

fun ncoherent :: "notes_grid \<Rightarrow> action list \<Rightarrow> bool" where
  "ncoherent n [] = True"
| "ncoherent n (a # as) = (revNotes a (fwdNotes a n) = n \<and> ncoherent (fwdNotes a n) as)"

definition nreplay :: "notes_grid \<Rightarrow> action list \<Rightarrow> notes_grid" where
  "nreplay n as = foldl (\<lambda>n a. fwdNotes a n) n as"

definition nlogs :: "game \<Rightarrow> action list \<Rightarrow> game \<Rightarrow> bool" where
  "nlogs s new s' = (logs s new s' \<and> ncoherent (notes' s) new \<and>
     nreplay (notes' s) new = notes' s')"

definition nsynced :: "notes_grid \<Rightarrow> game \<Rightarrow> bool" where
  "nsynced n0 s = (ledger_ok s \<and> ncoherent n0 (history s) \<and> notes' s = nreplay n0 (applied s))"

definition notes_kept :: "game \<Rightarrow> event \<Rightarrow> bool" where
  "notes_kept s e = (case e of
       InputNumber num \<Rightarrow>
         (case selected s of
            None \<Rightarrow> True
          | Some (row, col) \<Rightarrow>
              if isNotesMode s
              then \<not> setsEqual (notes' s ! row ! col) (toggleNote num (notes' s ! row ! col))
              else board s ! row ! col = num \<or> notes' s ! row ! col = {})
     | GiveHint u \<Rightarrow>
         (let candidates =
                filter (\<lambda>(r, c). board s ! r ! c \<noteq> solution s ! r ! c) allPositions
          in candidates = [] \<or>
             (case candidates ! (u mod length candidates) of
                (row, col) \<Rightarrow> notes' s ! row ! col = {}))
     | _ \<Rightarrow> True)"

fun notes_kept_run :: "event list \<Rightarrow> game \<Rightarrow> bool" where
  "notes_kept_run [] s = True"
| "notes_kept_run (e # es) s = (notes_kept s e \<and> notes_kept_run es (handle e s))"

definition pwa_revNotes :: "move \<Rightarrow> notes_grid \<Rightarrow> notes_grid" where
  "pwa_revNotes m n = set_notes n (moveRow m) (moveCol m) (oldNotes m)"

definition pwa_fwdNotes :: "move \<Rightarrow> notes_grid \<Rightarrow> notes_grid" where
  "pwa_fwdNotes m n =
     set_notes n (moveRow m) (moveCol m) (case newNotes m of None \<Rightarrow> {} | Some ns \<Rightarrow> ns)"

fun pwa_ncoherent :: "notes_grid \<Rightarrow> move list \<Rightarrow> bool" where
  "pwa_ncoherent n [] = True"
| "pwa_ncoherent n (m # ms) =
     (pwa_revNotes m (pwa_fwdNotes m n) = n \<and> pwa_ncoherent (pwa_fwdNotes m n) ms)"

definition pwa_nreplay :: "notes_grid \<Rightarrow> move list \<Rightarrow> notes_grid" where
  "pwa_nreplay n ms = foldl (\<lambda>n m. pwa_fwdNotes m n) n ms"

definition pwa_nlogs :: "pwa_game \<Rightarrow> move list \<Rightarrow> pwa_game \<Rightarrow> bool" where
  "pwa_nlogs s new s' = (pwa_logs s new s' \<and> pwa_ncoherent (pwa_notes s) new \<and>
     pwa_nreplay (pwa_notes s) new = pwa_notes s')"

definition pwa_nsynced :: "notes_grid \<Rightarrow> pwa_game \<Rightarrow> bool" where
  "pwa_nsynced n0 s = (pwa_ncoherent n0 (moveHistory s @ rev (redoStack s)) \<and>
     pwa_notes s = pwa_nreplay n0 (moveHistory s))"

definition pwa_notes_kept :: "pwa_game \<Rightarrow> pwa_event \<Rightarrow> bool" where
  "pwa_notes_kept s e = (case e of
       PwaInputNumber num \<Rightarrow>
         (case pwa_selected s of
            None \<Rightarrow> True
          | Some (row, col) \<Rightarrow>
              if pwa_isNotesMode s then True
              else if pwa_board s ! row ! col = num then pwa_notes s ! row ! col = {}
              else \<not> autoRemoveNotes s \<or>
                   removeRelatedNotes (set_notes (pwa_notes s) row col {}) row col num
                     = set_notes (pwa_notes s) row col {})
     | _ \<Rightarrow> True)"

fun pwa_notes_kept_run :: "pwa_event list \<Rightarrow> pwa_game \<Rightarrow> bool" where
  "pwa_notes_kept_run [] s = True"
| "pwa_notes_kept_run (e # es) s =
     (pwa_notes_kept s e \<and> pwa_notes_kept_run es (pwa_handle e s))"

definition demoEdits :: "event list" where
  "demoEdits = [ToggleNotesMode, InputNumber 5, ToggleNotesMode, SelectCell 0 1, InputNumber 4]"

definition pwa_demoEdits :: "pwa_event list" where
  "pwa_demoEdits = [PwaToggleNotes, PwaInputNumber 5, PwaToggleNotes, PwaSelectCell 0 1,
     PwaInputNumber 4]"

section \<open>The solver on a store of array objects\<close>

text \<open>
  To say that \<open>solveSudoku\<close> / \<open>SudokuSolver.solve\<close> leaves its argument alone, arrays are
  objects in a store. \<open>rowObjs\<close> holds the row arrays and \<open>gridObjs\<close> the outer arrays, each
  the list of the addresses of its rows; an address is an index into the list, and a new
  object is appended. Two grids, or two rows of one grid, may share a row object.
  \<open>view st g\<close> is the grid of numbers that the outer array \<open>g\<close> shows. \<open>copyGrid\<close> is
  \<open>grid.map(row => [...row])\<close>: one new row object per row and one new outer array.
  \<open>writeCell\<close> is the assignment \<open>copy[row][col] = v\<close>. \<open>store_backtrack\<close> and
  \<open>store_tryNums\<close> are the local function of the solver and its loop, statement for
  statement as \<open>backtrack\<close> and \<open>tryNums\<close> above, reading and writing through the store.
  \<open>store_solve\<close> returns the address of the solved copy or \<open>null\<close>, and the store as the call
  leaves it; \<open>None\<close> is a call that throws. (As for \<open>cell\<close> above, on a grid with fewer than
  nine rows the code throws where the model reads \<open>undefined\<close> and goes on; what is proved
  about the store after a call that returns covers these runs of the model as well.)

  \<open>store_ok\<close>: every row address held by an outer array is the address of a row object.
  \<open>owned st s\<close>: the rows of \<open>s\<close> are distinct objects of the store. \<open>frame st st' s\<close>: from
  \<open>st\<close> to \<open>st'\<close> only rows of \<open>s\<close> changed. \<open>sim_res\<close> relates a result of \<open>backtrack\<close> on a
  grid to a result of \<open>store_backtrack\<close> on a store that shows that grid. \<open>demoStore\<close> is a
  store that holds the grid \<open>rowZeroed\<close>.
\<close>

record store =
  rowObjs :: "nat list list"
  gridObjs :: "nat list list"

definition view :: "store \<Rightarrow> nat \<Rightarrow> grid" where
  "view st g = map (\<lambda>a. rowObjs st ! a) (gridObjs st ! g)"

definition writeCell :: "store \<Rightarrow> nat \<Rightarrow> nat \<Rightarrow> nat \<Rightarrow> nat \<Rightarrow> store" where
  "writeCell st g row col v =
     (let a = gridObjs st ! g ! row
      in st\<lparr>rowObjs := (rowObjs st)[a := (rowObjs st ! a)[col := v]]\<rparr>)"

definition copyGrid :: "store \<Rightarrow> nat \<Rightarrow> store \<times> nat" where
  "copyGrid st g =
     (let n = length (rowObjs st);
          rs = gridObjs st ! g
      in (st\<lparr>rowObjs := rowObjs st @ map (\<lambda>a. rowObjs st ! a) rs,
             gridObjs := gridObjs st @ [[n..<n + length rs]]\<rparr>,
          length (gridObjs st)))"

function store_backtrack :: "store \<Rightarrow> nat \<Rightarrow> nat \<Rightarrow> nat \<Rightarrow> (bool \<times> store) option"
  and store_tryNums :: "store \<Rightarrow> nat \<Rightarrow> nat \<Rightarrow> nat \<Rightarrow> nat list \<Rightarrow> (bool \<times> store) option" where
  "store_backtrack st copy row col =
     (let row' = (if col = 9 then row + 1 else row);
          col' = (if col = 9 then 0 else col)
      in if row' = 9 then Some (True, st)
         else if 9 < row' \<or> 9 < col' then None
         else if cell (view st copy) row' col' \<noteq> Some 0
              then store_backtrack st copy row' (col' + 1)
         else store_tryNums st copy row' col' [1..<10])"
| "store_tryNums st copy row col [] = Some (False, st)"
| "store_tryNums st copy row col (num # nums) =
     (if isValid (view st copy) row col num then
        (case store_backtrack (writeCell st copy row col num) copy row (col + 1) of
           None \<Rightarrow> None
         | Some (True, st') \<Rightarrow> Some (True, st')
         | Some (False, st') \<Rightarrow> store_tryNums (writeCell st' copy row col 0) copy row col nums)
      else store_tryNums st copy row col nums)"
  by pat_completeness auto

termination
  apply (relation "inv_image (less_than <*lex*> less_than)
     (\<lambda>x. case x of
        Inl (st, g, row, col) \<Rightarrow>
          (2 * rank (if col = 9 then row + 1 else row) (if col = 9 then 0 else col) + 1, 0)
      | Inr (st, g, row, col, nums) \<Rightarrow>
          (2 * rank row col + (if row < 9 \<and> col < 9 then 0 else 1), length nums))")
  apply (auto simp: rank_def split: if_splits)
  done

declare store_backtrack.simps [simp del]

definition store_solve :: "store \<Rightarrow> nat \<Rightarrow> (nat option \<times> store) option" where
  "store_solve st grid =
     (case copyGrid st grid of
        (st1, copy) \<Rightarrow>
          (case store_backtrack st1 copy 0 0 of
             None \<Rightarrow> None
           | Some (True, st2) \<Rightarrow> Some (Some copy, st2)
           | Some (False, st2) \<Rightarrow> Some (None, st2)))"

definition store_ok :: "store \<Rightarrow> bool" where
  "store_ok st = (\<forall>rs\<in>set (gridObjs st). \<forall>a\<in>set rs. a < length (rowObjs st))"

definition owned :: "store \<Rightarrow> nat \<Rightarrow> bool" where
  "owned st s = (s < length (gridObjs st) \<and> distinct (gridObjs st ! s) \<and>
     (\<forall>a\<in>set (gridObjs st ! s). a < length (rowObjs st)))"

definition frame :: "store \<Rightarrow> store \<Rightarrow> nat \<Rightarrow> bool" where
  "frame st st' s = (gridObjs st' = gridObjs st \<and> length (rowObjs st') = length (rowObjs st) \<and>
     (\<forall>a. a \<notin> set (gridObjs st ! s) \<longrightarrow> rowObjs st' ! a = rowObjs st ! a))"

definition sim_res :: "nat \<Rightarrow> store \<Rightarrow> (bool \<times> grid) option \<Rightarrow> (bool \<times> store) option \<Rightarrow> bool" where
  "sim_res s st pure stored =
     (case pure of
        None \<Rightarrow> stored = None
      | Some (ok, G') \<Rightarrow> (\<exists>st'. stored = Some (ok, st') \<and> view st' s = G' \<and> frame st st' s))"

definition demoStore :: store where
  "demoStore = \<lparr>rowObjs = rowZeroed, gridObjs = [[0, 1, 2, 3, 4, 5, 6, 7, 8]]\<rparr>"

section \<open>Basic facts about grids\<close>


lemma allPositions_iff: "(r, c) \<in> set allPositions \<longleftrightarrow> r < 9 \<and> c < 9"
  by (auto simp: allPositions_def image_iff)

lemma ball_allPositions: "(\<forall>p\<in>set allPositions. P p) \<longleftrightarrow> (\<forall>r<9. \<forall>c<9. P (r, c))"
proof
  assume l: "\<forall>p\<in>set allPositions. P p"
  show "\<forall>r<9. \<forall>c<9. P (r, c)"
    using l by (simp add: allPositions_iff)
next
  assume r: "\<forall>r<9. \<forall>c<9. P (r, c)"
  show "\<forall>p\<in>set allPositions. P p"
  proof
    fix p assume "p \<in> set allPositions"
    then have "fst p < 9 \<and> snd p < 9"
      using allPositions_iff[of "fst p" "snd p"] by simp
    with r have "P (fst p, snd p)" by blast
    then show "P p" by simp
  qed
qed

lemma distinct_allPositions: "distinct allPositions"
  unfolding allPositions_def
  by (rule distinct_concat) (auto simp: distinct_map inj_on_def)

lemma length_allPositions: "length allPositions = 81"
  by (simp add: allPositions_def length_concat comp_def sum_list_triv)

lemma wf_gridD:
  assumes "wf_grid g"
  shows "length g = 9" and "r < 9 \<Longrightarrow> length (g ! r) = 9"
    and "r < 9 \<Longrightarrow> c < 9 \<Longrightarrow> g ! r ! c \<le> 9"
  using assms by (auto simp: wf_grid_def list_all_length)

lemma cell_wf: "wf_grid g \<Longrightarrow> r < 9 \<Longrightarrow> c < 9 \<Longrightarrow> cell g r c = Some (g ! r ! c)"
  by (simp add: cell_def wf_gridD)

lemma nth_set_cell:
  assumes "r' < length g" "c' < length (g ! r')"
  shows "set_cell g r c v ! r' ! c' = (if r' = r \<and> c' = c then v else g ! r' ! c')"
proof (cases "r' = r")
  case True
  with assms show ?thesis by (simp add: set_cell_def nth_list_update)
next
  case False
  with assms show ?thesis by (simp add: set_cell_def)
qed

lemma length_set_cell [simp]: "length (set_cell g r c v) = length g"
  by (simp add: set_cell_def)

lemma length_row_set_cell [simp]: "length (set_cell g r c v ! r') = length (g ! r')"
  by (cases "r < length g") (auto simp: set_cell_def nth_list_update list_update_beyond)

lemma wf_set_cell: "wf_grid g \<Longrightarrow> v \<le> 9 \<Longrightarrow> wf_grid (set_cell g r c v)"
  unfolding wf_grid_def list_all_length
  by (auto simp: nth_set_cell) 

lemma set_cell_restore: "set_cell (set_cell g r c a) r c (g ! r ! c) = g"
  by (simp add: set_cell_twice) (simp add: set_cell_def)

lemma complete_iff: "complete g \<longleftrightarrow> (\<forall>r<9. \<forall>c<9. g ! r ! c \<noteq> 0)"
  by (simp add: complete_def list_all_iff ball_allPositions)

lemma clues_of_iff:
  "clues_of p s \<longleftrightarrow> (\<forall>r<9. \<forall>c<9. p ! r ! c \<noteq> 0 \<longrightarrow> p ! r ! c = s ! r ! c)"
  by (simp add: clues_of_def list_all_iff ball_allPositions)

lemma consistent_iff:
  "consistent g \<longleftrightarrow> (\<forall>r<9. \<forall>c<9. \<forall>r'<9. \<forall>c'<9.
      related (r, c) (r', c') \<longrightarrow> g ! r ! c \<noteq> 0 \<longrightarrow> g ! r ! c \<noteq> g ! r' ! c')"
  unfolding consistent_def list_all_iff ball_allPositions fst_conv snd_conv
  by (intro all_cong1 imp_cong refl) blast

lemma findEmpty_None_iff:
  "wf_grid g \<Longrightarrow> findEmpty g = None \<longleftrightarrow> complete g"
proof -
  assume wf: "wf_grid g"
  have "findEmpty g = None \<longleftrightarrow> (\<forall>p\<in>set allPositions. \<not> (case p of (r, c) \<Rightarrow> cell g r c = Some 0))"
    by (auto simp: findEmpty_def find_None_iff)
  also have "\<dots> \<longleftrightarrow> (\<forall>r<9. \<forall>c<9. cell g r c \<noteq> Some 0)"
    unfolding ball_allPositions by simp
  also have "\<dots> \<longleftrightarrow> complete g"
    unfolding complete_iff using wf by (simp add: cell_wf)
  finally show ?thesis .
qed

lemma countSolutions_complete: "wf_grid g \<Longrightarrow> complete g \<Longrightarrow> countSolutions g n = (g, n + 1)"
proof -
  assume "wf_grid g" "complete g"
  then have "findEmpty g = None" by (simp add: findEmpty_None_iff)
  then show ?thesis by (simp add: countSolutions.simps)
qed

lemma removeCells_count:
  "snd (countSolutions p 0) = 1 \<Longrightarrow> snd (countSolutions (removeCells p k n ps) 0) = 1"
proof (induction ps arbitrary: p n)
  case Nil
  then show ?case by simp
next
  case (Cons q ps)
  obtain row col where q: "q = (row, col)" by (cases q)
  show ?case
    using Cons unfolding q
    by (simp add: set_cell_restore Let_def)
qed

lemma removeCells_wf:
  "wf_grid p \<Longrightarrow> wf_grid (removeCells p k n ps)"
proof (induction ps arbitrary: p n)
  case Nil
  then show ?case by simp
next
  case (Cons q ps)
  obtain row col where q: "q = (row, col)" by (cases q)
  show ?case
    using Cons unfolding q
    by (simp add: set_cell_restore Let_def wf_set_cell)
qed

lemma clues_of_set_cell:
  "wf_grid p \<Longrightarrow> clues_of p s \<Longrightarrow> clues_of (set_cell p r c 0) s"
  unfolding clues_of_iff
  by (simp add: nth_set_cell wf_gridD)

lemma removeCells_clues:
  "wf_grid p \<Longrightarrow> clues_of p s \<Longrightarrow> clues_of (removeCells p k n ps) s"
proof (induction ps arbitrary: p n)
  case Nil
  then show ?case by simp
next
  case (Cons q ps)
  obtain row col where q: "q = (row, col)" by (cases q)
  show ?case
    using Cons unfolding q
    by (simp add: set_cell_restore Let_def wf_set_cell clues_of_set_cell)
qed

section \<open>Facts about puzzle creation\<close>


lemma floorRandom_range:
  "0 < n \<Longrightarrow> 0 \<le> fst (floorRandom rng n) \<and> fst (floorRandom rng n) < n"
proof -
  assume n: "0 < n"
  then have "rng 0 mod nat n < nat n" by simp
  then have "int (rng 0 mod nat n) < n" using n by linarith
  then show ?thesis using n by (simp add: floorRandom_def)
qed

lemma createPuzzle_Some:
  "tiers d = Some t \<Longrightarrow> \<exists>P rng'. createPuzzle tiers rng S d = Some (P, rng')"
  by (cases t) (simp add: createPuzzle_def Let_def split: prod.splits)

lemma pwa_createPuzzle_Some:
  "tiers d = Some t \<Longrightarrow> \<exists>P rng'. pwa_createPuzzle tiers rng S d = Some (P, rng')"
  by (cases t) (simp add: pwa_createPuzzle_def Let_def split: prod.splits)

lemma filter_length_change_one:
  "distinct xs \<Longrightarrow> (\<forall>x\<in>set xs. x \<noteq> a \<longrightarrow> (P x \<longleftrightarrow> Q x)) \<Longrightarrow>
   length (filter P xs) \<le> length (filter Q xs) + 1"
proof (induction xs)
  case Nil
  then show ?case by simp
next
  case (Cons x xs)
  show ?case
  proof (cases "x = a")
    case True
    with Cons.prems have "filter P xs = filter Q xs"
      by (intro filter_cong) auto
    then show ?thesis by simp
  next
    case False
    with Cons show ?thesis by auto
  qed
qed

lemma clueCount_set_cell:
  assumes "wf_grid g"
  shows "clueCount g \<le> clueCount (set_cell g r c 0) + 1"
  unfolding clueCount_def
proof (rule filter_length_change_one[where a = "(r, c)"])
  show "distinct allPositions" by (rule distinct_allPositions)
  show "\<forall>x\<in>set allPositions. x \<noteq> (r, c) \<longrightarrow>
          (g ! fst x ! snd x \<noteq> 0) = (set_cell g r c 0 ! fst x ! snd x \<noteq> 0)"
    unfolding ball_allPositions using assms
    by (simp add: nth_set_cell wf_gridD)
qed

lemma removeCells_clueCount:
  "wf_grid p \<Longrightarrow> n \<le> k \<Longrightarrow>
   int (clueCount p) - (k - n) \<le> int (clueCount (removeCells p k n ps))"
proof (induction ps arbitrary: p n)
  case Nil
  then show ?case by simp
next
  case (Cons q ps)
  obtain row col where q: "q = (row, col)" by (cases q)
  show ?case
  proof (cases "k \<le> n")
    case True
    with Cons.prems show ?thesis by (simp add: q)
  next
    case False
    let ?p1 = "set_cell p row col 0"
    show ?thesis
    proof (cases "snd (countSolutions ?p1 0) \<noteq> 1")
      case True
      with False Cons.IH[OF Cons.prems] show ?thesis
        by (simp add: q set_cell_restore Let_def)
    next
      case keep: False
      have wf1: "wf_grid ?p1" using Cons.prems(1) by (simp add: wf_set_cell)
      have le: "n + 1 \<le> k" using False by simp
      from Cons.IH[OF wf1 le] clueCount_set_cell[OF Cons.prems(1), of row col]
      show ?thesis using False keep
        by (simp add: q Let_def)
    qed
  qed
qed

lemma clueCount_complete: "complete g \<Longrightarrow> clueCount g = 81"
  by (simp add: clueCount_def complete_def list_all_iff length_allPositions)

lemma emptyCount_clueCount: "emptyCount g + clueCount g = 81"
  unfolding emptyCount_def clueCount_def
  using sum_length_filter_compl[of "\<lambda>p. g ! fst p ! snd p = 0" allPositions]
  by (simp add: length_allPositions)

lemma canonical_wf: "wf_grid canonical"
  by code_simp

lemma canonical_complete: "complete canonical"
  by code_simp

lemma canonical_consistent: "consistent canonical"
  by code_simp

section \<open>The constraint checker and the Sudoku rules\<close>


lemma related_sees: "related (r, c) (r', c') \<longleftrightarrow> (r, c) \<noteq> (r', c') \<and> sees r c r' c'"
  by (auto simp: related_def sees_def)

lemma sees_sym: "sees r c r' c' \<longleftrightarrow> sees r' c' r c"
  by (auto simp: sees_def)

lemma box_range: "r' \<in> {(r::nat) div 3 * 3..<r div 3 * 3 + 3} \<longleftrightarrow> r' div 3 = r div 3"
  unfolding atLeastLessThan_iff by presburger

lemma isValid_iff:
  assumes "wf_grid g" "r < 9" "c < 9"
  shows "isValid g r c n \<longleftrightarrow> (\<forall>r'<9. \<forall>c'<9. sees r c r' c' \<longrightarrow> g ! r' ! c' \<noteq> n)"
proof -
  have row: "list_ex (\<lambda>c'. cell g r c' = Some n) [0..<9] \<longleftrightarrow> (\<exists>c'<9. g ! r ! c' = n)"
    using assms by (auto simp: list_ex_iff cell_wf)
  have col: "list_ex (\<lambda>r'. cell g r' c = Some n) [0..<9] \<longleftrightarrow> (\<exists>r'<9. g ! r' ! c = n)"
    using assms by (auto simp: list_ex_iff cell_wf)
  have rb: "r' div 3 = r div 3 \<Longrightarrow> r' < 9" for r' using assms(2) by presburger
  have cb: "c' div 3 = c div 3 \<Longrightarrow> c' < 9" for c' using assms(3) by presburger
  have box: "list_ex (\<lambda>r'. list_ex (\<lambda>c'. cell g r' c' = Some n) [c div 3 * 3..<c div 3 * 3 + 3])
               [r div 3 * 3..<r div 3 * 3 + 3]
             \<longleftrightarrow> (\<exists>r'<9. \<exists>c'<9. r' div 3 = r div 3 \<and> c' div 3 = c div 3 \<and> g ! r' ! c' = n)"
    (is "?L \<longleftrightarrow> ?R")
  proof
    assume ?L
    then obtain r' c' where "r' div 3 = r div 3" "c' div 3 = c div 3" "cell g r' c' = Some n"
      unfolding list_ex_iff set_upt Bex_def box_range by blast
    moreover from this have "r' < 9" "c' < 9" using rb cb by auto
    ultimately show ?R using assms(1) by (auto simp: cell_wf)
  next
    assume ?R
    then obtain r' c' where "r' < 9" "c' < 9" "r' div 3 = r div 3" "c' div 3 = c div 3" "g ! r' ! c' = n"
      by blast
    then have "cell g r' c' = Some n" using assms(1) by (simp add: cell_wf)
    with \<open>r' div 3 = r div 3\<close> \<open>c' div 3 = c div 3\<close> show ?L
      unfolding list_ex_iff set_upt Bex_def box_range by blast
  qed
  have "(\<forall>r'<9. \<forall>c'<9. sees r c r' c' \<longrightarrow> g ! r' ! c' \<noteq> n) \<longleftrightarrow>
        \<not> (\<exists>c'<9. g ! r ! c' = n) \<and> \<not> (\<exists>r'<9. g ! r' ! c = n) \<and>
        \<not> (\<exists>r'<9. \<exists>c'<9. r' div 3 = r div 3 \<and> c' div 3 = c div 3 \<and> g ! r' ! c' = n)"
    unfolding sees_def using assms(2,3) by blast
  moreover have "isValid g r c n \<longleftrightarrow>
        \<not> (\<exists>c'<9. g ! r ! c' = n) \<and> \<not> (\<exists>r'<9. g ! r' ! c = n) \<and>
        \<not> (\<exists>r'<9. \<exists>c'<9. r' div 3 = r div 3 \<and> c' div 3 = c div 3 \<and> g ! r' ! c' = n)"
    unfolding isValid_def Let_def row col box by (simp only: if_True if_False split: if_splits) blast
  ultimately show ?thesis by (rule ssubst)
qed


lemma consistent_set_cell:
  assumes wf: "wf_grid g" and con: "consistent g" and r: "r < 9" and c: "c < 9"
    and valid: "isValid g r c n"
  shows "consistent (set_cell g r c n)"
  unfolding consistent_iff
proof (intro allI impI)
  fix r1 c1 r2 c2
  assume b: "r1 < 9" "c1 < 9" "r2 < 9" "c2 < 9"
    and rel: "related (r1, c1) (r2, c2)"
    and nz: "set_cell g r c n ! r1 ! c1 \<noteq> 0"
  have v: "\<And>r' c'. r' < 9 \<Longrightarrow> c' < 9 \<Longrightarrow> sees r c r' c' \<Longrightarrow> g ! r' ! c' \<noteq> n"
    using valid isValid_iff[OF wf r c] by blast
  have g1: "set_cell g r c n ! r1 ! c1 = (if r1 = r \<and> c1 = c then n else g ! r1 ! c1)"
    using b wf by (simp add: nth_set_cell wf_gridD)
  have g2: "set_cell g r c n ! r2 ! c2 = (if r2 = r \<and> c2 = c then n else g ! r2 ! c2)"
    using b wf by (simp add: nth_set_cell wf_gridD)
  from rel have ne: "(r1, c1) \<noteq> (r2, c2)" and s12: "sees r1 c1 r2 c2"
    by (simp_all add: related_sees)
  show "set_cell g r c n ! r1 ! c1 \<noteq> set_cell g r c n ! r2 ! c2"
  proof (cases "r1 = r \<and> c1 = c")
    case True
    with ne have "\<not> (r2 = r \<and> c2 = c)" by auto
    moreover have "g ! r2 ! c2 \<noteq> n" using v[OF b(3,4)] s12 True by simp
    ultimately show ?thesis using True g1 g2 by simp
  next
    case False
    show ?thesis
    proof (cases "r2 = r \<and> c2 = c")
      case True
      have "sees r c r1 c1" using s12 True sees_sym by simp
      then have "g ! r1 ! c1 \<noteq> n" using v[OF b(1,2)] by simp
      then show ?thesis using True False g1 g2 by simp
    next
      case F2: False
      from con[unfolded consistent_iff] b rel nz g1 False
      have "g ! r1 ! c1 \<noteq> g ! r2 ! c2" by simp
      then show ?thesis using False F2 g1 g2 by auto
    qed
  qed
qed

lemma clues_of_extend:
  assumes "wf_grid g" "r < 9" "c < 9" "g ! r ! c = 0"
  shows "clues_of g (set_cell g r c n)"
  unfolding clues_of_iff using assms by (auto simp: nth_set_cell wf_gridD)

lemma clues_of_trans: "clues_of a b \<Longrightarrow> clues_of b c \<Longrightarrow> clues_of a c"
  unfolding clues_of_iff by metis

lemma clues_of_refl: "clues_of a a"
  unfolding clues_of_iff by simp

lemma completion_digit:
  assumes "completion g s" "r < 9" "c < 9"
  shows "1 \<le> s ! r ! c \<and> s ! r ! c \<le> 9"
  using assms wf_gridD(3)[of s r c]
  by (auto simp: completion_def complete_iff Suc_le_eq)

lemma completion_isValid:
  assumes wf: "wf_grid g" and comp: "completion g s" and r: "r < 9" and c: "c < 9"
    and z: "g ! r ! c = 0"
  shows "isValid g r c (s ! r ! c)"
  unfolding isValid_iff[OF wf r c]
proof (intro allI impI)
  fix r' c' assume b: "r' < 9" "c' < 9" and s: "sees r c r' c'"
  have nz: "s ! r ! c \<noteq> 0" using comp r c by (simp add: completion_def complete_iff)
  show "g ! r' ! c' \<noteq> s ! r ! c"
  proof (cases "(r', c') = (r, c)")
    case True
    with z nz show ?thesis by auto
  next
    case False
    then have rel: "related (r, c) (r', c')" using s by (auto simp: related_sees)
    have cons: "consistent s" using comp by (simp add: completion_def)
    from cons[unfolded consistent_iff] r c b rel nz
    have ne: "s ! r ! c \<noteq> s ! r' ! c'" by blast
    have cl: "clues_of g s" using comp by (simp add: completion_def)
    show ?thesis
    proof (cases "g ! r' ! c' = 0")
      case True
      with nz show ?thesis by simp
    next
      case F: False
      with cl[unfolded clues_of_iff] b have "g ! r' ! c' = s ! r' ! c'" by blast
      with ne show ?thesis by simp
    qed
  qed
qed

lemma completion_set_cell_iff:
  assumes wf: "wf_grid g" and r: "r < 9" and c: "c < 9" and z: "g ! r ! c = 0" and n: "n \<noteq> 0"
  shows "completion (set_cell g r c n) s \<longleftrightarrow> completion g s \<and> s ! r ! c = n"
proof -
  let ?g' = "set_cell g r c n"
  have nth: "?g' ! r' ! c' = (if r' = r \<and> c' = c then n else g ! r' ! c')"
    if "r' < 9" "c' < 9" for r' c'
    using that wf by (simp add: nth_set_cell wf_gridD)
  have "clues_of ?g' s \<longleftrightarrow> clues_of g s \<and> s ! r ! c = n"
  proof
    assume a: "clues_of ?g' s"
    have "s ! r ! c = n"
      using a[unfolded clues_of_iff] r c n nth[OF r c] by auto
    moreover have "clues_of g s"
      unfolding clues_of_iff
    proof (intro allI impI)
      fix r' c' assume b: "r' < 9" "c' < 9" and nz: "g ! r' ! c' \<noteq> 0"
      from nz z have "\<not> (r' = r \<and> c' = c)" by auto
      then have "?g' ! r' ! c' = g ! r' ! c'" using nth[OF b] by auto
      with a[unfolded clues_of_iff] b nz show "g ! r' ! c' = s ! r' ! c'" by auto
    qed
    ultimately show "clues_of g s \<and> s ! r ! c = n" by simp
  next
    assume a: "clues_of g s \<and> s ! r ! c = n"
    show "clues_of ?g' s"
      unfolding clues_of_iff
    proof (intro allI impI)
      fix r' c' assume b: "r' < 9" "c' < 9" and nz: "?g' ! r' ! c' \<noteq> 0"
      show "?g' ! r' ! c' = s ! r' ! c'"
      proof (cases "r' = r \<and> c' = c")
        case True
        then show ?thesis using a nth[OF b] by simp
      next
        case False
        then have e: "?g' ! r' ! c' = g ! r' ! c'" using nth[OF b] by auto
        with nz a b show ?thesis unfolding clues_of_iff by auto
      qed
    qed
  qed
  then show ?thesis by (auto simp: completion_def)
qed

section \<open>Correctness of the solver's search\<close>


lemma filled_from_step:
  assumes "filled_from g (Suc (9 * r + c))" "c < 9" "g ! r ! c \<noteq> 0"
  shows "filled_from g (9 * r + c)"
  unfolding filled_from_def
proof (intro allI impI)
  fix r' c' assume b: "r' < 9" "c' < 9" "9 * r + c \<le> 9 * r' + c'"
  show "g ! r' ! c' \<noteq> 0"
  proof (cases "9 * r + c = 9 * r' + c'")
    case True
    with assms(2) b(2) have "r' = r \<and> c' = c" by arith
    with assms(3) show ?thesis by simp
  next
    case False
    with b have "Suc (9 * r + c) \<le> 9 * r' + c'" by simp
    with assms(1) b show ?thesis unfolding filled_from_def by blast
  qed
qed

lemma filled_from_complete: "filled_from g 0 \<longleftrightarrow> complete g"
  by (simp add: filled_from_def complete_iff)

lemma filled_from_81: "filled_from g 81"
  unfolding filled_from_def by auto

lemma search_ok_done: "wf_grid g \<Longrightarrow> search_ok g 8 9 g"
  using filled_from_81 by (simp add: search_ok_def clues_of_refl)

lemma search_ok_wrap: "search_ok g row 9 g' = search_ok g (row + 1) 0 g'"
  by (simp add: search_ok_def add.commute)

lemma search_ok_skip:
  assumes "r < 9" "c < 9" "g ! r ! c \<noteq> 0" "search_ok g r (c + 1) g'"
  shows "search_ok g r c g'"
proof -
  from assms(4) have cl: "clues_of g g'" and f: "filled_from g' (Suc (9 * r + c))"
    by (simp_all add: search_ok_def)
  from cl assms(1-3) have "g' ! r ! c \<noteq> 0" unfolding clues_of_iff by metis
  with f assms(2) have "filled_from g' (9 * r + c)" by (intro filled_from_step)
  with assms(4) show ?thesis by (simp add: search_ok_def)
qed

lemma search_ok_place:
  assumes wf: "wf_grid g" and r: "r < 9" and c: "c < 9" and z: "g ! r ! c = 0"
    and n: "1 \<le> n" "n \<le> 9" and v: "isValid g r c n"
    and ok: "search_ok (set_cell g r c n) r (c + 1) g'"
  shows "search_ok g r c g'"
proof -
  let ?g1 = "set_cell g r c n"
  have wf1: "wf_grid ?g1" using wf n by (simp add: wf_set_cell)
  have g1: "?g1 ! r ! c = n" using wf r c by (simp add: nth_set_cell wf_gridD)
  from ok have cl: "clues_of ?g1 g'" and f: "filled_from g' (Suc (9 * r + c))"
    and wf': "wf_grid g'" and co: "consistent ?g1 \<longrightarrow> consistent g'"
    by (simp_all add: search_ok_def)
  from cl r c g1 n have "g' ! r ! c \<noteq> 0" unfolding clues_of_iff by (metis not_one_le_zero)
  with f c have "filled_from g' (9 * r + c)" by (intro filled_from_step)
  moreover have "clues_of g g'"
    using clues_of_trans[OF clues_of_extend[OF wf r c z] cl] .
  moreover have "consistent g \<longrightarrow> consistent g'"
    using co consistent_set_cell[OF wf _ r c v] by blast
  ultimately show ?thesis using wf' by (simp add: search_ok_def)
qed

lemma set_cell_reset:
  assumes "wf_grid g" "r < 9" "c < 9" "g ! r ! c = 0"
  shows "set_cell (set_cell g r c n) r c 0 = g"
  using assms by (simp add: set_cell_twice set_cell_same cell_wf)

lemma bt_spec_skip:
  assumes "r < 9" "c < 9" "g ! r ! c \<noteq> 0" "bt_spec g r (c + 1) res"
  shows "bt_spec g r c res"
  using assms search_ok_skip[OF assms(1-3)] unfolding bt_spec_def by (auto split: if_splits)

lemma try_spec_all:
  assumes "r < 9" "c < 9" "\<forall>n. 1 \<le> n \<and> n \<le> 9 \<longrightarrow> n \<in> set nums" "try_spec g r c nums res"
  shows "bt_spec g r c res"
proof -
  have "s ! r ! c \<in> set nums" if "completion g s" for s
    using completion_digit[OF that assms(1,2)] assms(3) by auto
  with assms(4) show ?thesis unfolding bt_spec_def try_spec_def by (auto split: if_splits)
qed

lemma all_digits_upt: "\<forall>n. 1 \<le> n \<and> n \<le> 9 \<longrightarrow> n \<in> set [1..<10]"
  by auto

lemma try_spec_invalid:
  assumes wf: "wf_grid g" and r: "r < 9" and c: "c < 9" and z: "g ! r ! c = 0"
    and v: "\<not> isValid g r c n" and t: "try_spec g r c nums res"
  shows "try_spec g r c (n # nums) res"
proof -
  have "s ! r ! c \<noteq> n" if "completion g s" for s
    using completion_isValid[OF wf that r c z] v by auto
  with t show ?thesis unfolding try_spec_def by (auto split: if_splits)
qed

lemma try_spec_found:
  assumes wf: "wf_grid g" and r: "r < 9" and c: "c < 9" and z: "g ! r ! c = 0"
    and n: "1 \<le> n" "n \<le> 9" and v: "isValid g r c n"
    and ok: "search_ok (set_cell g r c n) r (c + 1) g'"
  shows "try_spec g r c (n # nums) (Some (True, g'))"
  using search_ok_place[OF wf r c z n v ok] by (auto simp: try_spec_def)

lemma try_spec_next:
  assumes wf: "wf_grid g" and r: "r < 9" and c: "c < 9" and z: "g ! r ! c = 0"
    and n: "1 \<le> n" and none: "\<forall>s. \<not> completion (set_cell g r c n) s"
    and t: "try_spec g r c nums res"
  shows "try_spec g r c (n # nums) res"
proof -
  have "s ! r ! c \<noteq> n" if "completion g s" for s
    using completion_set_cell_iff[OF wf r c z, of n s] n none that by auto
  with t show ?thesis unfolding try_spec_def by (auto split: if_splits)
qed


lemma backtrack_tryNums_spec:
  "wf_grid copy \<longrightarrow> row < 9 \<longrightarrow> col \<le> 9 \<longrightarrow> bt_spec copy row col (backtrack copy row col)"
  "wf_grid copy \<longrightarrow> row < 9 \<longrightarrow> col < 9 \<longrightarrow> copy ! row ! col = 0 \<longrightarrow> digits nums \<longrightarrow>
     try_spec copy row col nums (tryNums copy row col nums)"
proof (induction copy row col and copy row col nums rule: backtrack_tryNums.induct)
  case (1 copy row col)
  show ?case
  proof (intro impI)
    assume wf: "wf_grid copy" and row: "row < 9" and col: "col \<le> 9"
    let ?x = "if col = 9 then row + 1 else row"
    let ?xa = "if col = 9 then 0 else col"
    have xa: "?xa < 9" using col by auto
    have idx: "bt_spec copy ?x ?xa res = bt_spec copy row col res" for res
      by (simp add: bt_spec_def search_ok_wrap)
    show "bt_spec copy row col (backtrack copy row col)"
    proof (cases "?x = 9")
      case True
      then have "col = 9" "row = 8" using row by (auto split: if_splits)
      then show ?thesis
        using search_ok_done[OF wf] by (auto simp: backtrack.simps bt_spec_def)
    next
      case False
      then have x: "?x < 9" using row by (auto split: if_splits)
      have n9: "\<not> (9 < ?x \<or> 9 < ?xa)" using x xa by simp
      show ?thesis
      proof (cases "cell copy ?x ?xa \<noteq> Some 0")
        case True
        then have nz: "copy ! ?x ! ?xa \<noteq> 0" using wf x xa by (simp add: cell_wf)
        have eq: "backtrack copy row col = backtrack copy ?x (?xa + 1)"
          using False n9 True by (subst backtrack.simps) (simp add: Let_def)
        from "1.IH"(1)[OF refl refl False n9 True] wf x xa
        have "bt_spec copy ?x (?xa + 1) (backtrack copy ?x (?xa + 1))" by simp
        from bt_spec_skip[OF x xa nz this] show ?thesis
          unfolding eq idx .
      next
        case F: False
        have eq: "backtrack copy row col = tryNums copy ?x ?xa [1..<10]"
          using False n9 F by (subst backtrack.simps) (simp add: Let_def)
        have z: "copy ! ?x ! ?xa = 0" using F wf x xa by (simp add: cell_wf)
        have d: "digits [1..<10]" by (simp add: digits_def list_all_iff)
        from "1.IH"(2)[OF refl refl False n9 F] wf x xa z d
        have "try_spec copy ?x ?xa [1..<10] (tryNums copy ?x ?xa [1..<10])" by simp
        from try_spec_all[OF x xa all_digits_upt this] show ?thesis
          unfolding eq idx .
      qed
    qed
  qed
next
  case (2 copy row col)
  show ?case by (auto simp: try_spec_def)
next
  case (3 copy row col num nums)
  show ?case
  proof (intro impI)
    assume wf: "wf_grid copy" and row: "row < 9" and col: "col < 9"
      and z: "copy ! row ! col = 0" and d: "digits (num # nums)"
    from d have n: "1 \<le> num" "num \<le> 9" and d': "digits nums" by (simp_all add: digits_def)
    let ?g1 = "set_cell copy row col num"
    have wf1: "wf_grid ?g1" using wf n by (simp add: wf_set_cell)
    show "try_spec copy row col (num # nums) (tryNums copy row col (num # nums))"
    proof (cases "isValid copy row col num")
      case False
      from "3.IH"(3)[OF False] wf row col z d'
      have "try_spec copy row col nums (tryNums copy row col nums)" by simp
      from try_spec_invalid[OF wf row col z False this] False show ?thesis by simp
    next
      case True
      from "3.IH"(1)[OF True] wf1 row col
      have "bt_spec ?g1 row (col + 1) (backtrack ?g1 row (col + 1))" by simp
      then obtain ok g' where res: "backtrack ?g1 row (col + 1) = Some (ok, g')"
        and sp: "if ok then search_ok ?g1 row (col + 1) g' else g' = ?g1 \<and> (\<forall>s. \<not> completion ?g1 s)"
        unfolding bt_spec_def by blast
      show ?thesis
      proof (cases ok)
        case True
        with sp have "search_ok ?g1 row (col + 1) g'" by simp
        from try_spec_found[OF wf row col z n \<open>isValid copy row col num\<close> this]
        show ?thesis using res True \<open>isValid copy row col num\<close> by simp
      next
        case False
        with sp have g': "g' = ?g1" and none: "\<forall>s. \<not> completion ?g1 s" by simp_all
        have restored: "set_cell g' row col 0 = copy"
          unfolding g' using set_cell_reset[OF wf row col z] .
        from "3.IH"(2)[OF True res refl] False wf row col z d' restored
        have "try_spec copy row col nums (tryNums copy row col nums)" by simp
        from try_spec_next[OF wf row col z n(1) none this]
        show ?thesis using res False True restored by simp
      qed
    qed
  qed
qed



lemma solve_spec:
  assumes "wf_grid g"
  shows "bt_spec g 0 0 (backtrack g 0 0)"
  using backtrack_tryNums_spec(1)[of g 0 0] assms by simp

section \<open>Correctness of the generator's search\<close>


lemma shuffleFrom_set:
  "k < length xs \<Longrightarrow> set (fst (shuffleFrom rng xs k)) = set xs"
proof (induction k arbitrary: rng xs)
  case 0
  then show ?case by simp
next
  case (Suc k)
  obtain j rng' where fr: "floorRandom rng (int (Suc k) + 1) = (j, rng')"
    by (cases "floorRandom rng (int (Suc k) + 1)")
  have "0 \<le> j \<and> j < int (Suc k) + 1"
    using floorRandom_range[of "int (Suc k) + 1" rng] fr by simp
  then have j: "nat j < length xs" using Suc.prems by linarith
  let ?ys = "xs[Suc k := xs ! nat j, nat j := xs ! Suc k]"
  have "set ?ys = set xs" using Suc.prems j by (simp add: set_swap)
  moreover have "k < length ?ys" using Suc.prems by simp
  ultimately show ?case using Suc.IH[of ?ys rng'] fr by (simp add: Let_def)
qed

lemma shuffleArray_set: "set (fst (shuffleArray rng xs)) = set xs"
proof (cases xs)
  case Nil
  then show ?thesis by (simp add: shuffleArray_def)
next
  case (Cons x ys)
  then show ?thesis unfolding shuffleArray_def by (intro shuffleFrom_set) simp
qed

lemma generate_spec:
  "wf_grid grid \<longrightarrow> row < 9 \<longrightarrow> col \<le> 9 \<longrightarrow>
     bt_spec grid row col (map_option drop_rng (generateSolution rng grid row col))"
  "wf_grid grid \<longrightarrow> row < 9 \<longrightarrow> col < 9 \<longrightarrow> grid ! row ! col = 0 \<longrightarrow> digits nums \<longrightarrow>
     try_spec grid row col nums (map_option drop_rng (generateLoop rng grid row col nums))"
proof (induction rng grid row col and rng grid row col nums rule: generateSolution_generateLoop.induct)
  case (1 rng grid row col)
  show ?case
  proof (intro impI)
    assume wf: "wf_grid grid" and row: "row < 9" and col: "col \<le> 9"
    let ?x = "if col = 9 then row + 1 else row"
    let ?xa = "if col = 9 then 0 else col"
    have xa: "?xa < 9" using col by auto
    have idx: "bt_spec grid ?x ?xa res = bt_spec grid row col res" for res
      by (simp add: bt_spec_def search_ok_wrap)
    show "bt_spec grid row col (map_option drop_rng (generateSolution rng grid row col))"
    proof (cases "?x = 9")
      case True
      then have "col = 9" "row = 8" using row by (auto split: if_splits)
      then show ?thesis
        using search_ok_done[OF wf]
        by (auto simp: generateSolution.simps bt_spec_def drop_rng_def)
    next
      case False
      then have x: "?x < 9" using row by (auto split: if_splits)
      have n9: "\<not> (9 < ?x \<or> 9 < ?xa)" using x xa by simp
      show ?thesis
      proof (cases "cell grid ?x ?xa \<noteq> Some 0")
        case True
        then have nz: "grid ! ?x ! ?xa \<noteq> 0" using wf x xa by (simp add: cell_wf)
        have eq: "generateSolution rng grid row col = generateSolution rng grid ?x (?xa + 1)"
          using False n9 True by (subst generateSolution.simps) (simp add: Let_def)
        from "1.IH"(1)[OF refl refl False n9 True] wf x xa
        have "bt_spec grid ?x (?xa + 1)
                (map_option drop_rng (generateSolution rng grid ?x (?xa + 1)))" by simp
        from bt_spec_skip[OF x xa nz this] show ?thesis
          unfolding eq idx .
      next
        case F: False
        obtain numbers rng' where sh: "shuffleArray rng [1::nat, 2, 3, 4, 5, 6, 7, 8, 9] = (numbers, rng')"
          by (cases "shuffleArray rng [1::nat, 2, 3, 4, 5, 6, 7, 8, 9]")
        have eq: "generateSolution rng grid row col = generateLoop rng' grid ?x ?xa numbers"
          using False n9 F sh by (subst generateSolution.simps) (simp add: Let_def)
        have z: "grid ! ?x ! ?xa = 0" using F wf x xa by (simp add: cell_wf)
        have st: "set numbers = {1, 2, 3, 4, 5, 6, 7, 8, 9}"
          using shuffleArray_set[of rng "[1::nat, 2, 3, 4, 5, 6, 7, 8, 9]"] sh by simp
        have d: "digits numbers" unfolding digits_def list_all_iff st by simp
        have al: "\<forall>n. 1 \<le> n \<and> n \<le> 9 \<longrightarrow> n \<in> set numbers" unfolding st by auto
        from "1.IH"(2)[OF refl refl False n9 F sh[symmetric]] wf x xa z d
        have "try_spec grid ?x ?xa numbers
                (map_option drop_rng (generateLoop rng' grid ?x ?xa numbers))" by simp
        from try_spec_all[OF x xa al this] show ?thesis
          unfolding eq idx .
      qed
    qed
  qed
next
  case (2 rng grid row col)
  show ?case by (auto simp: try_spec_def drop_rng_def)
next
  case (3 rng grid row col num nums)
  show ?case
  proof (intro impI)
    assume wf: "wf_grid grid" and row: "row < 9" and col: "col < 9"
      and z: "grid ! row ! col = 0" and d: "digits (num # nums)"
    from d have n: "1 \<le> num" "num \<le> 9" and d': "digits nums" by (simp_all add: digits_def)
    let ?g1 = "set_cell grid row col num"
    have wf1: "wf_grid ?g1" using wf n by (simp add: wf_set_cell)
    show "try_spec grid row col (num # nums)
            (map_option drop_rng (generateLoop rng grid row col (num # nums)))"
    proof (cases "isValid grid row col num")
      case False
      from "3.IH"(3)[OF False] wf row col z d'
      have "try_spec grid row col nums (map_option drop_rng (generateLoop rng grid row col nums))"
        by simp
      from try_spec_invalid[OF wf row col z False this] False show ?thesis by simp
    next
      case True
      from "3.IH"(1)[OF True] wf1 row col
      have "bt_spec ?g1 row (col + 1)
              (map_option drop_rng (generateSolution rng ?g1 row (col + 1)))" by simp
      then obtain ok g' rng' where res: "generateSolution rng ?g1 row (col + 1) = Some (ok, g', rng')"
        and sp: "if ok then search_ok ?g1 row (col + 1) g' else g' = ?g1 \<and> (\<forall>s. \<not> completion ?g1 s)"
        unfolding bt_spec_def drop_rng_def by (cases "generateSolution rng ?g1 row (col + 1)") auto
      show ?thesis
      proof (cases ok)
        case True
        with sp have "search_ok ?g1 row (col + 1) g'" by simp
        from try_spec_found[OF wf row col z n \<open>isValid grid row col num\<close> this]
        show ?thesis using res True \<open>isValid grid row col num\<close> by (simp add: drop_rng_def)
      next
        case False
        with sp have g': "g' = ?g1" and none: "\<forall>s. \<not> completion ?g1 s" by simp_all
        have restored: "set_cell g' row col 0 = grid"
          unfolding g' using set_cell_reset[OF wf row col z] .
        from "3.IH"(2)[OF True res refl _ refl] False wf row col z d' restored
        have "try_spec grid row col nums (map_option drop_rng (generateLoop rng' grid row col nums))"
          by simp
        from try_spec_next[OF wf row col z n(1) none this]
        show ?thesis using res False True restored by simp
      qed
    qed
  qed
qed


lemma createEmptyGrid_wf: "wf_grid createEmptyGrid"
  by code_simp

lemma createEmptyGrid_consistent: "consistent createEmptyGrid"
  by code_simp

lemma createEmptyGrid_completion: "completion createEmptyGrid canonical"
  by code_simp

section \<open>Rows, columns and boxes of a complete consistent grid\<close>


lemma permutation19_unit:
  assumes wf: "wf_grid s" and comp: "complete s" and con: "consistent s"
    and rng: "\<And>k. k < 9 \<Longrightarrow> fst (f k) < 9 \<and> snd (f k) < 9"
    and rel: "\<And>k k'. k < 9 \<Longrightarrow> k' < 9 \<Longrightarrow> k \<noteq> k' \<Longrightarrow> related (f k) (f k')"
  shows "permutation19 (map (\<lambda>k. s ! fst (f k) ! snd (f k)) [0..<9])"
proof -
  let ?xs = "map (\<lambda>k. s ! fst (f k) ! snd (f k)) [0..<9]"
  have len: "length ?xs = 9" by simp
  have nth: "?xs ! k = s ! fst (f k) ! snd (f k)" if "k < 9" for k
    using that by (simp del: upt_Suc)
  have d: "distinct ?xs"
    unfolding distinct_conv_nth
  proof (intro allI impI)
    fix i j assume i: "i < length ?xs" and j: "j < length ?xs" and ne: "i \<noteq> j"
    then have i9: "i < 9" and j9: "j < 9" by simp_all
    have nz: "s ! fst (f i) ! snd (f i) \<noteq> 0"
      using comp rng[OF i9] by (simp add: complete_iff)
    have "related (fst (f i), snd (f i)) (fst (f j), snd (f j))"
      using rel[OF i9 j9 ne] by simp
    with con[unfolded consistent_iff] rng[OF i9] rng[OF j9] nz
    have "s ! fst (f i) ! snd (f i) \<noteq> s ! fst (f j) ! snd (f j)" by blast
    then show "?xs ! i \<noteq> ?xs ! j" using nth[OF i9] nth[OF j9] by simp
  qed
  have sub: "set ?xs \<subseteq> set [1..<10]"
  proof
    fix v assume "v \<in> set ?xs"
    then obtain k where k: "k < 9" and v: "v = s ! fst (f k) ! snd (f k)" by auto
    have "v \<noteq> 0" using comp rng[OF k] v by (simp add: complete_iff)
    moreover have "v \<le> 9" using wf_gridD(3)[OF wf] rng[OF k] v by simp
    ultimately show "v \<in> set [1..<10]" by auto
  qed
  have "card (set ?xs) = 9" using d len by (simp add: distinct_card del: set_map)
  moreover have "card (set [1..<10::nat]) = 9" by simp
  ultimately have "set ?xs = set [1..<10]"
    using sub by (intro card_subset_eq) (simp_all del: set_map set_upt)
  with d len show ?thesis unfolding permutation19_def by blast
qed

lemma box_cell_bound: "i < 9 \<Longrightarrow> k < 9 \<Longrightarrow> 3 * (i div 3) + k div 3 < (9::nat)"
  by arith

lemma box_cell_bound': "i < 9 \<Longrightarrow> k < 9 \<Longrightarrow> 3 * (i mod 3) + k mod 3 < (9::nat)"
  by arith

lemma box_cell_div: "k < 9 \<Longrightarrow> (3 * a + k div 3) div 3 = (a::nat)"
  by simp

lemma box_cell_div': "(3 * a + k mod 3) div 3 = (a::nat)"
  by simp

lemma box_cell_inj:
  "k \<noteq> k' \<Longrightarrow> (3 * a + k div 3, 3 * b + k mod 3) \<noteq> (3 * a + k' div 3, 3 * b + k' mod (3::nat))"
proof
  assume ne: "k \<noteq> k'"
    and eq: "(3 * a + k div 3, 3 * b + k mod 3) = (3 * a + k' div 3, 3 * b + k' mod 3)"
  then have "k div 3 = k' div 3" "k mod 3 = k' mod 3" by simp_all
  then have "k = k'" by (metis div_mult_mod_eq)
  with ne show False by simp
qed

lemma solved_completion:
  assumes wf: "wf_grid s" and comp: "complete s" and con: "consistent s"
  shows "solved s"
  unfolding solved_def list_all_iff
proof (intro ballI conjI)
  fix i assume "i \<in> set [0..<9]"
  then have i: "i < 9" by simp
  have "permutation19 (map (\<lambda>k. s ! fst (i, k) ! snd (i, k)) [0..<9])"
  proof (rule permutation19_unit[OF wf comp con])
    fix k :: nat assume "k < 9"
    then show "fst (i, k) < 9 \<and> snd (i, k) < 9" using i by simp
  next
    fix k k' :: nat assume "k \<noteq> k'"
    then show "related (i, k) (i, k')" by (simp add: related_def)
  qed
  then have "permutation19 (map (\<lambda>k. s ! i ! k) [0..<9])" by (simp only: fst_conv snd_conv)
  moreover have "map (\<lambda>k. s ! i ! k) [0..<9] = s ! i"
    using wf_gridD(2)[OF wf i] by (metis map_nth)
  ultimately show "permutation19 (s ! i)" by simp
  have "permutation19 (map (\<lambda>k. s ! fst (k, i) ! snd (k, i)) [0..<9])"
  proof (rule permutation19_unit[OF wf comp con])
    fix k :: nat assume "k < 9"
    then show "fst (k, i) < 9 \<and> snd (k, i) < 9" using i by simp
  next
    fix k k' :: nat assume "k \<noteq> k'"
    then show "related (k, i) (k', i)" by (simp add: related_def)
  qed
  then show "permutation19 (colValues s i)" by (simp only: fst_conv snd_conv colValues_def)
  let ?f = "\<lambda>k. (3 * (i div 3) + k div 3, 3 * (i mod 3) + k mod 3)"
  have "permutation19 (map (\<lambda>k. s ! fst (?f k) ! snd (?f k)) [0..<9])"
  proof (rule permutation19_unit[OF wf comp con])
    fix k :: nat assume "k < 9"
    then show "fst (?f k) < 9 \<and> snd (?f k) < 9"
      using box_cell_bound[OF i] box_cell_bound'[OF i] by simp
  next
    fix k k' :: nat assume k: "k < 9" "k' < 9" "k \<noteq> k'"
    have "?f k \<noteq> ?f k'" using k(3) by (rule box_cell_inj)
    moreover have "fst (?f k) div 3 = fst (?f k') div 3"
      using box_cell_div[OF k(1)] box_cell_div[OF k(2)] by simp
    moreover have "snd (?f k) div 3 = snd (?f k') div 3"
      using box_cell_div' by simp
    ultimately show "related (?f k) (?f k')" unfolding related_def by blast
  qed
  then show "permutation19 (boxValues s i)" by (simp only: fst_conv snd_conv boxValues_def)
qed

section \<open>Correctness of the solution counter\<close>


lemma finite_wf_grids: "finite {s. wf_grid s}"
proof -
  let ?R = "{row. set row \<subseteq> {..9::nat} \<and> length row = 9}"
  have fR: "finite ?R" by (rule finite_lists_length_eq) simp
  have "{s. wf_grid s} \<subseteq> {s. set s \<subseteq> ?R \<and> length s = 9}"
    by (auto simp: wf_grid_def list_all_iff)
  moreover have "finite {s. set s \<subseteq> ?R \<and> length s = 9}"
    using fR by (rule finite_lists_length_eq)
  ultimately show ?thesis by (rule finite_subset)
qed

lemma finite_completions: "finite {s. completion g s \<and> P s}"
  by (rule finite_subset[OF _ finite_wf_grids]) (auto simp: completion_def)

lemma finite_completions': "finite {s. completion g s}"
  using finite_completions[of g "\<lambda>s. True"] by simp

lemma wf_grid_eqI:
  assumes "wf_grid a" "wf_grid b" "\<And>r c. r < 9 \<Longrightarrow> c < 9 \<Longrightarrow> a ! r ! c = b ! r ! c"
  shows "a = b"
proof (rule nth_equalityI)
  show "length a = length b" using assms(1,2) by (simp add: wf_gridD)
next
  fix r assume "r < length a"
  then have r: "r < 9" using assms(1) by (simp add: wf_gridD)
  show "a ! r = b ! r"
  proof (rule nth_equalityI)
    show "length (a ! r) = length (b ! r)" using assms(1,2) r by (simp add: wf_gridD)
  next
    fix c assume "c < length (a ! r)"
    then have "c < 9" using assms(1) r by (simp add: wf_gridD)
    then show "a ! r ! c = b ! r ! c" using assms(3) r by simp
  qed
qed

lemma completion_of_complete:
  assumes "wf_grid g" "complete g" "consistent g"
  shows "{s. completion g s} = {g}"
proof -
  have "completion g g" using assms by (simp add: completion_def clues_of_refl)
  moreover have "s = g" if "completion g s" for s
  proof (rule wf_grid_eqI)
    show "wf_grid s" using that by (simp add: completion_def)
    show "wf_grid g" by fact
    fix r c :: nat assume "r < 9" "c < 9"
    moreover have "clues_of g s" using that by (simp add: completion_def)
    ultimately show "s ! r ! c = g ! r ! c"
      using assms(2) unfolding clues_of_iff complete_iff by metis
  qed
  ultimately show ?thesis by auto
qed

lemma completion_consistent:
  assumes "completion g s"
  shows "consistent g"
  unfolding consistent_iff
proof (intro allI impI)
  fix r c r' c'
  assume b: "r < 9" "c < 9" "r' < 9" "c' < 9" and rel: "related (r, c) (r', c')"
    and nz: "g ! r ! c \<noteq> 0"
  from assms have cl: "clues_of g s" and con: "consistent s" by (simp_all add: completion_def)
  from cl b nz have e: "s ! r ! c = g ! r ! c" unfolding clues_of_iff by metis
  show "g ! r ! c \<noteq> g ! r' ! c'"
  proof
    assume eq: "g ! r ! c = g ! r' ! c'"
    with nz cl b have "s ! r' ! c' = g ! r' ! c'" unfolding clues_of_iff by metis
    with e eq have "s ! r ! c = s ! r' ! c'" by simp
    moreover have "s ! r ! c \<noteq> 0" using e nz by simp
    ultimately show False using con[unfolded consistent_iff] b rel by blast
  qed
qed

lemma findEmpty_SomeD:
  assumes "wf_grid g" "findEmpty g = Some (r, c)"
  shows "r < 9 \<and> c < 9 \<and> g ! r ! c = 0"
proof -
  from assms(2) have "(r, c) \<in> set allPositions"
    unfolding findEmpty_def find_Some_iff by (metis nth_mem)
  then have b: "r < 9" "c < 9" by (simp_all add: allPositions_iff)
  with findEmpty_Some[OF assms(2)] assms(1) show ?thesis by (simp add: cell_wf)
qed

lemma count_bound:
  "count \<le> 1 \<longrightarrow> snd (countSolutions grid count) \<le> 2"
  "count \<le> 1 \<longrightarrow> snd (countLoop grid row col count nums) \<le> 2"
proof (induction grid count and grid row col count nums rule: countSolutions_countLoop.induct)
  case (1 grid count)
  show ?case
  proof (cases "findEmpty grid")
    case None
    then show ?thesis by (simp add: countSolutions.simps)
  next
    case (Some p)
    obtain row col where p: "p = (row, col)" by (cases p)
    from "1.IH"[OF Some p[symmetric]] show ?thesis
      using Some p by (simp add: countSolutions.simps)
  qed
next
  case (2 grid row col count)
  show ?case by simp
next
  case (3 grid row col count num nums)
  show ?case
  proof (intro impI)
    assume c: "count \<le> 1"
    show "snd (countLoop grid row col count (num # nums)) \<le> 2"
    proof (cases "isValid grid row col num")
      case False
      with "3.IH"(3) c show ?thesis by simp
    next
      case True
      obtain x y where r: "countSolutions (set_cell grid row col num) count = (x, y)"
        by (cases "countSolutions (set_cell grid row col num) count")
      from "3.IH"(1)[OF True] c r have y: "y \<le> 2" by simp
      show ?thesis
      proof (cases "1 < y")
        case True
        with y r \<open>isValid grid row col num\<close> show ?thesis by simp
      next
        case False
        with "3.IH"(2)[OF True r[symmetric] False] r True show ?thesis by simp
      qed
    qed
  qed
qed


lemma valuesAt_Nil: "valuesAt g row col [] = {}"
  by (simp add: valuesAt_def)

lemma valuesAt_all:
  assumes "row < 9" "col < 9"
  shows "valuesAt g row col [1..<10] = {s. completion g s}"
proof -
  have "s ! row ! col \<in> set [1..<10]" if "completion g s" for s
    using completion_digit[OF that assms] by auto
  then show ?thesis unfolding valuesAt_def by blast
qed

lemma valuesAt_invalid:
  assumes "wf_grid g" "row < 9" "col < 9" "g ! row ! col = 0" "\<not> isValid g row col num"
  shows "valuesAt g row col (num # nums) = valuesAt g row col nums"
  unfolding valuesAt_def using completion_isValid[OF assms(1) _ assms(2-4)] assms(5) by auto

lemma valuesAt_Cons:
  assumes wf: "wf_grid g" and b: "row < 9" "col < 9" and z: "g ! row ! col = 0"
    and n: "num \<noteq> 0" and d: "num \<notin> set nums"
  shows "card (valuesAt g row col (num # nums)) =
           numCompletions (set_cell g row col num) + card (valuesAt g row col nums)"
proof -
  let ?A = "{s. completion (set_cell g row col num) s}"
  have A: "?A = {s. completion g s \<and> s ! row ! col = num}"
    using completion_set_cell_iff[OF wf b z n] by simp
  have "valuesAt g row col (num # nums) = ?A \<union> valuesAt g row col nums"
    unfolding A valuesAt_def by auto
  moreover have "?A \<inter> valuesAt g row col nums = {}"
    unfolding A valuesAt_def using d by auto
  moreover have "finite ?A" by (rule finite_completions')
  moreover have "finite (valuesAt g row col nums)"
    unfolding valuesAt_def by (rule finite_completions)
  ultimately show ?thesis by (simp add: card_Un_disjoint numCompletions_def)
qed

lemma count_spec:
  "wf_grid grid \<longrightarrow> consistent grid \<longrightarrow> count \<le> 1 \<longrightarrow>
     countSolutions grid count = (grid, min 2 (count + numCompletions grid))"
  "wf_grid grid \<longrightarrow> consistent grid \<longrightarrow> row < 9 \<longrightarrow> col < 9 \<longrightarrow> grid ! row ! col = 0 \<longrightarrow>
   digits nums \<longrightarrow> distinct nums \<longrightarrow> count \<le> 1 \<longrightarrow>
     countLoop grid row col count nums = (grid, min 2 (count + card (valuesAt grid row col nums)))"
proof (induction grid count and grid row col count nums rule: countSolutions_countLoop.induct)
  case (1 grid count)
  show ?case
  proof (intro impI)
    assume wf: "wf_grid grid" and con: "consistent grid" and c: "count \<le> 1"
    show "countSolutions grid count = (grid, min 2 (count + numCompletions grid))"
    proof (cases "findEmpty grid")
      case None
      then have "complete grid" using wf by (simp add: findEmpty_None_iff)
      then have "numCompletions grid = 1"
        using completion_of_complete[OF wf _ con] by (simp add: numCompletions_def)
      with None c show ?thesis by (simp add: countSolutions.simps)
    next
      case (Some p)
      obtain row col where p: "p = (row, col)" by (cases p)
      from findEmpty_SomeD[OF wf] Some p have b: "row < 9" "col < 9" and z: "grid ! row ! col = 0"
        by simp_all
      have d: "digits [1..<10]" by (simp add: digits_def list_all_iff)
      from "1.IH"[OF Some p[symmetric]] wf con b z d c
      have "countLoop grid row col count [1..<10] =
              (grid, min 2 (count + card (valuesAt grid row col [1..<10])))" by simp
      then show ?thesis
        using Some p unfolding valuesAt_all[OF b] numCompletions_def
        by (simp add: countSolutions.simps)
    qed
  qed
next
  case (2 grid row col count)
  show ?case by (simp add: valuesAt_Nil)
next
  case (3 grid row col count num nums)
  show ?case
  proof (intro impI)
    assume wf: "wf_grid grid" and con: "consistent grid" and b: "row < 9" "col < 9"
      and z: "grid ! row ! col = 0" and dg: "digits (num # nums)" and di: "distinct (num # nums)"
      and c: "count \<le> 1"
    from dg have n: "1 \<le> num" "num \<le> 9" and dg': "digits nums" by (simp_all add: digits_def)
    from di have nin: "num \<notin> set nums" and di': "distinct nums" by simp_all
    let ?g1 = "set_cell grid row col num"
    show "countLoop grid row col count (num # nums) =
            (grid, min 2 (count + card (valuesAt grid row col (num # nums))))"
    proof (cases "isValid grid row col num")
      case False
      from "3.IH"(3)[OF False] wf con b z dg' di' c
      have "countLoop grid row col count nums =
              (grid, min 2 (count + card (valuesAt grid row col nums)))" by simp
      then show ?thesis
        using False by (simp add: valuesAt_invalid[OF wf b z False])
    next
      case True
      have wf1: "wf_grid ?g1" using wf n by (simp add: wf_set_cell)
      have con1: "consistent ?g1" using consistent_set_cell[OF wf con b True] .
      from "3.IH"(1)[OF True] wf1 con1 c
      have r: "countSolutions ?g1 count = (?g1, min 2 (count + numCompletions ?g1))" by simp
      have reset: "set_cell ?g1 row col 0 = grid" using set_cell_reset[OF wf b z] .
      have card: "card (valuesAt grid row col (num # nums)) =
                    numCompletions ?g1 + card (valuesAt grid row col nums)"
        using n(1) by (intro valuesAt_Cons[OF wf b z _ nin]) simp
      show ?thesis
      proof (cases "1 < min 2 (count + numCompletions ?g1)")
        case T: True
        then show ?thesis using True r reset card by simp
      next
        case F: False
        then have le: "min 2 (count + numCompletions ?g1) = count + numCompletions ?g1"
          and le1: "count + numCompletions ?g1 \<le> 1" by simp_all
        from "3.IH"(2)[OF True r[symmetric] F] wf con b z dg' di' le1 reset le
        have "countLoop grid row col (count + numCompletions ?g1) nums =
                (grid, min 2 (count + numCompletions ?g1 + card (valuesAt grid row col nums)))"
          by simp
        then show ?thesis using True r reset card F le by (simp add: add.assoc)
      qed
    qed
  qed
qed

section \<open>Prefilled cells in the stand-alone script\<close>


lemma wf_grid9: "wf_grid g \<Longrightarrow> grid9 g"
  by (simp add: grid9_def wf_gridD)

lemma grid9_set_cell: "grid9 g \<Longrightarrow> grid9 (set_cell g r c v)"
  by (simp add: grid9_def)

lemma nth_set_cell9:
  "grid9 g \<Longrightarrow> r' < 9 \<Longrightarrow> c' < 9 \<Longrightarrow>
   set_cell g r c v ! r' ! c' = (if r' = r \<and> c' = c then v else g ! r' ! c')"
  by (simp add: grid9_def nth_set_cell)

lemma prefilled_kept_set_cell:
  assumes "grid9 b" "prefilled_kept init b" "editable init r c"
  shows "prefilled_kept init (set_cell b r c v)"
  unfolding prefilled_kept_def
proof (intro allI impI)
  fix r' c' assume b: "r' < 9" "c' < 9" and nz: "init ! r' ! c' \<noteq> 0"
  from nz assms(3) have "\<not> (r' = r \<and> c' = c)" by (auto simp: editable_def)
  then have "set_cell b r c v ! r' ! c' = b ! r' ! c'"
    using nth_set_cell9[OF assms(1) b] by auto
  with assms(2) b nz show "set_cell b r c v ! r' ! c' = init ! r' ! c'"
    by (simp add: prefilled_kept_def)
qed

lemma slice0_take: "0 \<le> e \<Longrightarrow> slice0 xs e = take (nat e) xs"
  by (simp add: slice0_def)

lemma set_slice0: "set (slice0 xs e) \<subseteq> set xs"
  by (simp add: slice0_def set_take_subset)

lemma game_inv_addToHistory:
  assumes "game_inv s" "editable (initial s) (actionRow a) (actionCol a)"
  shows "game_inv (addToHistory a s)"
proof -
  have "set (slice0 (history s) e) \<subseteq> set (history s)" for e by (rule set_slice0)
  moreover have "slice0 (history s) (historyIndex s + 1) = take (nat (historyIndex s + 1)) (history s)"
    using assms(1) by (intro slice0_take) (simp add: game_inv_def)
  ultimately show ?thesis
    using assms unfolding game_inv_def addToHistory_def
    by (auto split: option.splits dest: in_set_takeD)
qed

lemma game_inv_checkWin: "game_inv s \<Longrightarrow> game_inv (checkWinCondition s)"
  by (simp add: game_inv_def checkWinCondition_def)

lemma game_inv_board:
  assumes "game_inv s" "editable (initial s) r c"
  shows "game_inv (s\<lparr>board := set_cell (board s) r c v\<rparr>)"
  using assms prefilled_kept_set_cell[of "board s" "initial s" r c v]
  by (simp add: game_inv_def grid9_set_cell)

lemma game_inv_notes: "game_inv s \<Longrightarrow> game_inv (s\<lparr>notes' := n\<rparr>)"
  by (simp add: game_inv_def)

lemma game_inv_hints: "game_inv s \<Longrightarrow> game_inv (s\<lparr>hintsRemaining := n\<rparr>)"
  by (simp add: game_inv_def)

lemma game_inv_index:
  "game_inv s \<Longrightarrow> - 1 \<le> i \<Longrightarrow> i < int (length (history s)) \<Longrightarrow>
   game_inv (s\<lparr>historyIndex := i\<rparr>)"
  by (simp add: game_inv_def)

lemma game_inv_applyAction:
  assumes "game_inv s" "editable (initial s) (actionRow a) (actionCol a)"
  shows "game_inv (applyAction a reverse s)"
  using assms by (cases a) (simp_all add: game_inv_board game_inv_notes)


lemma game_inv_selected:
  "game_inv s \<Longrightarrow> selected s = Some (row, col) \<Longrightarrow> row < 9 \<and> col < 9"
  by (auto simp: game_inv_def)

lemma game_inv_inputNumber:
  assumes inv: "game_inv s"
  shows "game_inv (inputNumber num s)"
proof (cases "selected s")
  case None
  with inv show ?thesis by (simp add: inputNumber_def)
next
  case (Some p)
  obtain row col where p: "p = (row, col)" by (cases p)
  have sel: "selected s = Some (row, col)" using Some p by simp
  have b: "row < 9" "col < 9" using game_inv_selected[OF inv sel] by simp_all
  show ?thesis
  proof (cases "isPaused s \<or> isComplete s \<or> initial s ! row ! col \<noteq> 0")
    case True
    with inv sel show ?thesis by (auto simp: inputNumber_def)
  next
    case False
    then have ed: "editable (initial s) row col" using b by (simp add: editable_def)
    have ed': "editable (initial t) (actionRow a) (actionCol a)"
      if "initial t = initial s" "actionRow a = row" "actionCol a = col" for t a
      using that ed by simp
    show ?thesis
    proof (cases "isNotesMode s")
      case nm: True
      let ?old = "notes' s ! row ! col"
      let ?new = "if num \<in> ?old then ?old - {num} else insert num ?old"
      let ?s1 = "s\<lparr>notes' := set_notes (notes' s) row col ?new\<rparr>"
      let ?s2 = "if \<not> setsEqual ?old ?new then addToHistory (NoteAction row col ?old ?new) ?s1 else ?s1"
      have i1: "game_inv ?s1" using inv by (rule game_inv_notes)
      have i2: "game_inv ?s2"
        using i1 game_inv_addToHistory[OF i1, of "NoteAction row col ?old ?new"] ed
        by simp
      have init2: "initial ?s2 = initial s" by (simp add: addToHistory_def)
      let ?s3 = "if board ?s2 ! row ! col \<noteq> 0
                 then addToHistory (ValueAction row col (board ?s2 ! row ! col) 0)
                        (?s2\<lparr>board := set_cell (board ?s2) row col 0\<rparr>)
                 else ?s2"
      have ed2: "editable (initial ?s2) row col" using ed init2 by simp
      have i3: "game_inv ?s3"
      proof (cases "board ?s2 ! row ! col \<noteq> 0")
        case True
        have "game_inv (?s2\<lparr>board := set_cell (board ?s2) row col 0\<rparr>)"
          using i2 ed2 by (rule game_inv_board)
        from game_inv_addToHistory[OF this, of "ValueAction row col (board ?s2 ! row ! col) 0"] ed2
        show ?thesis using True by simp
      next
        case False
        with i2 show ?thesis by simp
      qed
      have "inputNumber num s = checkWinCondition ?s3"
        using sel False nm by (simp add: inputNumber_def Let_def)
      with game_inv_checkWin[OF i3] show ?thesis by simp
    next
      case vm: False
      let ?ov = "board s ! row ! col"
      show ?thesis
      proof (cases "?ov = num")
        case True
        have "game_inv (s\<lparr>board := set_cell (board s) row col 0\<rparr>)"
          using inv ed by (rule game_inv_board)
        from game_inv_addToHistory[OF this, of "ValueAction row col ?ov 0"] ed
        have "game_inv (addToHistory (ValueAction row col ?ov 0)
                 (s\<lparr>board := set_cell (board s) row col 0\<rparr>))" by simp
        moreover have "inputNumber num s = checkWinCondition
            (addToHistory (ValueAction row col ?ov 0) (s\<lparr>board := set_cell (board s) row col 0\<rparr>))"
          using sel False vm True by (simp add: inputNumber_def Let_def)
        ultimately show ?thesis using game_inv_checkWin by simp
      next
        case ne: False
        let ?t = "s\<lparr>board := set_cell (board s) row col num,
                    notes' := set_notes (notes' s) row col {}\<rparr>"
        have "game_inv (s\<lparr>board := set_cell (board s) row col num\<rparr>)"
          using inv ed by (rule game_inv_board)
        then have "game_inv ?t" by (simp add: game_inv_def)
        from game_inv_addToHistory[OF this, of "ValueAction row col ?ov num"] ed
        have "game_inv (addToHistory (ValueAction row col ?ov num) ?t)" by simp
        moreover have "inputNumber num s =
            checkWinCondition (addToHistory (ValueAction row col ?ov num) ?t)"
          using sel False vm ne by (simp add: inputNumber_def Let_def)
        ultimately show ?thesis using game_inv_checkWin by simp
      qed
    qed
  qed
qed

lemma game_inv_eraseCell:
  assumes inv: "game_inv s"
  shows "game_inv (eraseCell s)"
proof (cases "selected s")
  case None
  with inv show ?thesis by (simp add: eraseCell_def)
next
  case (Some p)
  obtain row col where p: "p = (row, col)" by (cases p)
  have sel: "selected s = Some (row, col)" using Some p by simp
  have b: "row < 9" "col < 9" using game_inv_selected[OF inv sel] by simp_all
  show ?thesis
  proof (cases "isPaused s \<or> isComplete s \<or> initial s ! row ! col \<noteq> 0")
    case True
    with inv sel show ?thesis by (auto simp: eraseCell_def)
  next
    case False
    then have ed: "editable (initial s) row col" using b by (simp add: editable_def)
    let ?t = "s\<lparr>board := set_cell (board s) row col 0,
                notes' := set_notes (notes' s) row col {}\<rparr>"
    have "game_inv (s\<lparr>board := set_cell (board s) row col 0\<rparr>)"
      using inv ed by (rule game_inv_board)
    then have "game_inv ?t" by (simp add: game_inv_def)
    from game_inv_addToHistory[OF this,
        of "EraseAction row col (board s ! row ! col) (notes' s ! row ! col)"] ed
    show ?thesis using inv sel False by (simp add: eraseCell_def Let_def)
  qed
qed

lemma candidate_editable:
  assumes inv: "game_inv s"
    and cand: "(row, col) \<in> set (filter (\<lambda>(r, c). board s ! r ! c \<noteq> solution s ! r ! c) allPositions)"
  shows "editable (initial s) row col"
proof -
  from cand have b: "row < 9" "col < 9" and ne: "board s ! row ! col \<noteq> solution s ! row ! col"
    by (simp_all add: allPositions_iff)
  have "initial s ! row ! col = 0"
  proof (rule ccontr)
    assume nz: "initial s ! row ! col \<noteq> 0"
    from inv have "prefilled_kept (initial s) (board s)" "clues_of (initial s) (solution s)"
      by (simp_all add: game_inv_def)
    with nz b have "board s ! row ! col = solution s ! row ! col"
      unfolding prefilled_kept_def clues_of_iff by metis
    with ne show False by simp
  qed
  with b show ?thesis by (simp add: editable_def)
qed

lemma game_inv_giveHint:
  assumes inv: "game_inv s"
  shows "game_inv (giveHint u s)"
proof (cases "hintsRemaining s \<le> 0 \<or> isPaused s \<or> isComplete s")
  case True
  with inv show ?thesis by (auto simp: giveHint_def)
next
  case False
  let ?cs = "filter (\<lambda>(r, c). board s ! r ! c \<noteq> solution s ! r ! c) allPositions"
  show ?thesis
  proof (cases "?cs = []")
    case True
    with inv False show ?thesis by (simp add: giveHint_def)
  next
    case ne: False
    obtain row col where rc: "?cs ! (u mod length ?cs) = (row, col)"
      by (cases "?cs ! (u mod length ?cs)")
    have "0 < length ?cs" using ne by (rule length_greater_0_conv[THEN iffD2])
    then have "u mod length ?cs < length ?cs" by (rule mod_less_divisor)
    then have "?cs ! (u mod length ?cs) \<in> set ?cs" by (rule nth_mem)
    then have "(row, col) \<in> set ?cs" unfolding rc .
    then have ed: "editable (initial s) row col" by (rule candidate_editable[OF inv])
    let ?t = "s\<lparr>board := set_cell (board s) row col (solution s ! row ! col),
                notes' := set_notes (notes' s) row col {},
                hintsRemaining := hintsRemaining s - 1\<rparr>"
    have "game_inv (s\<lparr>board := set_cell (board s) row col (solution s ! row ! col)\<rparr>)"
      using inv ed by (rule game_inv_board)
    then have "game_inv ?t" by (simp add: game_inv_def)
    from game_inv_addToHistory[OF this,
        of "HintAction row col (board s ! row ! col) (solution s ! row ! col)"] ed
    have "game_inv (addToHistory
        (HintAction row col (board s ! row ! col) (solution s ! row ! col)) ?t)" by simp
    then have "game_inv (checkWinCondition (addToHistory
        (HintAction row col (board s ! row ! col) (solution s ! row ! col)) ?t))"
      by (rule game_inv_checkWin)
    moreover have "giveHint u s = checkWinCondition (addToHistory
        (HintAction row col (board s ! row ! col) (solution s ! row ! col)) ?t)"
      unfolding giveHint_def Let_def using False ne by (simp only: if_False rc prod.case)
    ultimately show ?thesis by simp
  qed
qed

lemma game_inv_undo:
  assumes inv: "game_inv s"
  shows "game_inv (undo s)"
proof (cases "historyIndex s < 0 \<or> isPaused s \<or> isComplete s")
  case True
  with inv show ?thesis by (auto simp: undo_def)
next
  case False
  let ?a = "history s ! nat (historyIndex s)"
  from inv False have "0 \<le> historyIndex s" "historyIndex s < int (length (history s))"
    by (simp_all add: game_inv_def)
  then have "nat (historyIndex s) < length (history s)" by linarith
  then have "?a \<in> set (history s)" by (rule nth_mem)
  with inv have ed: "editable (initial s) (actionRow ?a) (actionCol ?a)"
    by (simp add: game_inv_def)
  have "game_inv (s\<lparr>historyIndex := historyIndex s - 1\<rparr>)"
    using inv False by (intro game_inv_index) (simp_all add: game_inv_def)
  from game_inv_applyAction[OF this, of ?a True] ed show ?thesis
    using False by (simp add: undo_def Let_def)
qed

lemma game_inv_redo:
  assumes inv: "game_inv s"
  shows "game_inv (redo s)"
proof (cases "int (length (history s)) - 1 \<le> historyIndex s \<or> isPaused s \<or> isComplete s")
  case True
  with inv show ?thesis by (auto simp: redo_def)
next
  case False
  let ?a = "history s ! nat (historyIndex s + 1)"
  from inv False have "- 1 \<le> historyIndex s" "historyIndex s + 1 < int (length (history s))"
    by (simp_all add: game_inv_def)
  then have "nat (historyIndex s + 1) < length (history s)" by linarith
  then have "?a \<in> set (history s)" by (rule nth_mem)
  with inv have ed: "editable (initial s) (actionRow ?a) (actionCol ?a)"
    by (simp add: game_inv_def)
  have "game_inv (s\<lparr>historyIndex := historyIndex s + 1\<rparr>)"
    using inv False by (intro game_inv_index) (simp_all add: game_inv_def)
  from game_inv_applyAction[OF this, of ?a False] ed show ?thesis
    using False by (simp add: redo_def Let_def)
qed


lemma foldl_set_cell:
  assumes "grid9 b"
  shows "grid9 (foldl (\<lambda>b (r, c). set_cell b r c (f r c)) b ps) \<and>
    (\<forall>r<9. \<forall>c<9. foldl (\<lambda>b (r, c). set_cell b r c (f r c)) b ps ! r ! c =
       (if (r, c) \<in> set ps then f r c else b ! r ! c))"
proof (induction ps rule: rev_induct)
  case Nil
  with assms show ?case by simp
next
  case (snoc p ps)
  obtain r0 c0 where p: "p = (r0, c0)" by (cases p)
  let ?b = "foldl (\<lambda>b (r, c). set_cell b r c (f r c)) b ps"
  from snoc have g: "grid9 ?b" by simp
  show ?case
  proof (intro conjI allI impI)
    show "grid9 (foldl (\<lambda>b (r, c). set_cell b r c (f r c)) b (ps @ [p]))"
      using g by (simp add: p grid9_set_cell)
  next
    fix r c :: nat assume b: "r < 9" "c < 9"
    have "set_cell ?b r0 c0 (f r0 c0) ! r ! c = (if r = r0 \<and> c = c0 then f r0 c0 else ?b ! r ! c)"
      using nth_set_cell9[OF g b] .
    moreover have "?b ! r ! c = (if (r, c) \<in> set ps then f r c else b ! r ! c)"
      using snoc b by simp
    ultimately show "foldl (\<lambda>b (r, c). set_cell b r c (f r c)) b (ps @ [p]) ! r ! c =
       (if (r, c) \<in> set (ps @ [p]) then f r c else b ! r ! c)"
      by (auto simp: p)
  qed
qed

lemma game_inv_autoSolve:
  assumes inv: "game_inv s"
  shows "game_inv (autoSolve s)"
proof (cases "isPaused s \<or> isComplete s")
  case True
  with inv show ?thesis by (auto simp: autoSolve_def)
next
  case False
  let ?b = "foldl (\<lambda>b (r, c). set_cell b r c (solution s ! r ! c)) (board s) allPositions"
  from inv have g: "grid9 (board s)" and cl: "clues_of (initial s) (solution s)"
    by (simp_all add: game_inv_def)
  from foldl_set_cell[OF g, of "\<lambda>r c. solution s ! r ! c" allPositions]
  have g': "grid9 ?b" and v: "\<And>r c. r < 9 \<Longrightarrow> c < 9 \<Longrightarrow> ?b ! r ! c = solution s ! r ! c"
    by (simp_all add: allPositions_iff)
  have "prefilled_kept (initial s) ?b"
    unfolding prefilled_kept_def using v cl[unfolded clues_of_iff] by simp
  with inv g' show ?thesis using False by (simp add: autoSolve_def game_inv_def)
qed

lemma game_inv_handle:
  assumes "game_inv s" "ui_event e"
  shows "game_inv (handle e s)"
proof (cases e)
  case (SelectCell row col)
  with assms show ?thesis by (auto simp: selectCell_def game_inv_def ui_event_def)
next
  case (InputNumber num)
  with assms show ?thesis by (simp add: game_inv_inputNumber)
next
  case EraseCell
  with assms show ?thesis by (simp add: game_inv_eraseCell)
next
  case ToggleNotesMode
  with assms show ?thesis by (simp add: toggleNotesMode_def game_inv_def)
next
  case (GiveHint u)
  with assms show ?thesis by (simp add: game_inv_giveHint)
next
  case Undo
  with assms show ?thesis by (simp add: game_inv_undo)
next
  case Redo
  with assms show ?thesis by (simp add: game_inv_redo)
next
  case TogglePause
  with assms show ?thesis by (simp add: togglePause_def game_inv_def)
next
  case AutoSolve
  with assms show ?thesis by (simp add: game_inv_autoSolve)
qed

lemma initial_applyAction [simp]: "initial (applyAction a reverse s) = initial s"
  by (cases a) simp_all

lemma initial_handle: "initial (handle e s) = initial s"
  by (cases e)
    (auto simp: selectCell_def inputNumber_def eraseCell_def toggleNotesMode_def giveHint_def
      undo_def redo_def togglePause_def autoSolve_def checkWinCondition_def addToHistory_def
      Let_def split: option.splits prod.splits)

lemma generateSolution_wf:
  assumes "generateSolution rng createEmptyGrid 0 0 = Some (ok, s, rng')"
  shows "wf_grid s"
proof -
  have "bt_spec createEmptyGrid 0 0
          (map_option drop_rng (generateSolution rng createEmptyGrid 0 0))"
    using generate_spec(1)[of createEmptyGrid 0 0 rng] createEmptyGrid_wf by simp
  with assms have "if ok then search_ok createEmptyGrid 0 0 s else s = createEmptyGrid"
    by (auto simp: bt_spec_def drop_rng_def)
  then show ?thesis using createEmptyGrid_wf by (cases ok) (simp_all add: search_ok_def)
qed

lemma createPuzzle_clues:
  assumes "wf_grid S"
    and "createPuzzle tiers rng S d = Some (P, rng') \<or>
         pwa_createPuzzle tiers rng S d = Some (P, rng')"
  shows "wf_grid P \<and> clues_of P S"
proof -
  obtain k ps where P: "P = removeCells S k 0 ps"
    using assms(2)
    by (auto simp: createPuzzle_def pwa_createPuzzle_def Let_def split: option.splits prod.splits)
  show ?thesis
    unfolding P using removeCells_wf[OF assms(1)] removeCells_clues[OF assms(1) clues_of_refl]
    by simp
qed

lemma game_inv_start:
  assumes "startNewGame tiers rng d = Some (s, rng')"
  shows "game_inv s"
proof -
  from assms obtain puzzle sol where g: "generatePuzzle tiers rng d = Some ((puzzle, sol), rng')"
    and s: "s = newGameState puzzle sol d"
    by (auto simp: startNewGame_def split: option.splits)
  from g obtain ok rng1 where gs: "generateSolution rng createEmptyGrid 0 0 = Some (ok, sol, rng1)"
    and cp: "createPuzzle tiers rng1 sol d = Some (puzzle, rng')"
    by (auto simp: generatePuzzle_def split: option.splits)
  from createPuzzle_clues[OF generateSolution_wf[OF gs] disjI1[OF cp]]
  have "wf_grid puzzle" "clues_of puzzle sol" by simp_all
  then show ?thesis
    unfolding s newGameState_def game_inv_def
    by (simp add: wf_grid9 prefilled_kept_def)
qed

lemma reachable_inv: "reachable tiers rng d s \<Longrightarrow> game_inv s"
  by (induction rule: reachable.induct) (simp_all add: game_inv_start game_inv_handle)

lemma reachable_initial:
  "reachable tiers rng d s \<Longrightarrow>
   \<exists>puzzle sol rng'. generatePuzzle tiers rng d = Some ((puzzle, sol), rng') \<and> initial s = puzzle"
proof (induction rule: reachable.induct)
  case (start s rng')
  then show ?case
    by (auto simp: startNewGame_def newGameState_def split: option.splits)
next
  case (step s e)
  then show ?case by (simp add: initial_handle)
qed

section \<open>Prefilled cells in \<open>sudoku-pwa/script.js\<close>\<close>


lemma pwa_inv_selected:
  "pwa_inv s \<Longrightarrow> pwa_selected s = Some (row, col) \<Longrightarrow> row < 9 \<and> col < 9"
  by (auto simp: pwa_inv_def)

lemma pwa_inv_checkWin: "pwa_inv s \<Longrightarrow> pwa_inv (pwa_checkWin s)"
  by (simp add: pwa_inv_def pwa_checkWin_def)

lemma pwa_inv_write:
  assumes "pwa_inv s" "editable (pwa_initial s) r c"
  shows "pwa_inv (s\<lparr>pwa_board := set_cell (pwa_board s) r c v\<rparr>)"
  using assms prefilled_kept_set_cell[of "pwa_board s" "pwa_initial s" r c v]
  by (simp add: pwa_inv_def grid9_set_cell)

lemma pwa_inv_push:
  assumes "pwa_inv s" "editable (pwa_initial s) (moveRow m) (moveCol m)"
  shows "pwa_inv (s\<lparr>moveHistory := moveHistory s @ [m], redoStack := []\<rparr>)"
  using assms by (auto simp: pwa_inv_def)

lemma pwa_inv_other:
  "pwa_inv s \<Longrightarrow> pwa_inv (s\<lparr>pwa_notes := n\<rparr>)"
  "pwa_inv s \<Longrightarrow> pwa_inv (s\<lparr>pwa_hintsRemaining := h\<rparr>)"
  "pwa_inv s \<Longrightarrow> pwa_inv (s\<lparr>pwa_hintsUsed := h\<rparr>)"
  "pwa_inv s \<Longrightarrow> pwa_inv (s\<lparr>autoRemoveNotes := a\<rparr>)"
  "pwa_inv s \<Longrightarrow> pwa_inv (s\<lparr>pwa_isNotesMode := a\<rparr>)"
  "pwa_inv s \<Longrightarrow> pwa_inv (s\<lparr>pwa_isPaused := a\<rparr>)"
  by (simp_all add: pwa_inv_def)

lemma set_cell_zero_same: "g ! r ! c = 0 \<Longrightarrow> set_cell g r c 0 = g"
  by (simp add: set_cell_def) (metis list_update_id)

lemma pwa_swap:
  "s\<lparr>pwa_notes := a, pwa_board := b\<rparr> = (s\<lparr>pwa_board := b, pwa_notes := a\<rparr> :: pwa_game)"
  by (cases s) simp

lemma pwa_inputNumber_note:
  assumes "pwa_selected s = Some (row, col)" "\<not> pwa_isPaused s" "\<not> pwa_isComplete s"
    "pwa_initial s ! row ! col = 0" "pwa_isNotesMode s"
  shows "pwa_inputNumber num s = pwa_checkWin
       (s\<lparr>pwa_board := set_cell (pwa_board s) row col 0,
          pwa_notes := set_notes (pwa_notes s) row col (toggleNote num (pwa_notes s ! row ! col)),
          moveHistory := moveHistory s @ [pwa_noteEntry num s row col], redoStack := []\<rparr>)"
proof (cases "pwa_board s ! row ! col = 0")
  case True
  then show ?thesis
    using assms set_cell_zero_same[OF True]
    by (simp add: pwa_inputNumber_def Let_def toggleNote_def pwa_noteEntry_def pwa_swap)
next
  case False
  then show ?thesis
    using assms
    by (simp add: pwa_inputNumber_def Let_def toggleNote_def pwa_noteEntry_def pwa_swap)
qed

lemma pwa_inputNumber_off:
  assumes "pwa_selected s = Some (row, col)" "\<not> pwa_isPaused s" "\<not> pwa_isComplete s"
    "pwa_initial s ! row ! col = 0" "\<not> pwa_isNotesMode s" "pwa_board s ! row ! col = num"
  shows "pwa_inputNumber num s = pwa_checkWin
       (s\<lparr>pwa_board := set_cell (pwa_board s) row col 0,
          moveHistory := moveHistory s @ [pwa_valueEntry num s row col], redoStack := []\<rparr>)"
  using assms by (simp add: pwa_inputNumber_def Let_def pwa_valueEntry_def)

lemma pwa_inputNumber_set:
  assumes "pwa_selected s = Some (row, col)" "\<not> pwa_isPaused s" "\<not> pwa_isComplete s"
    "pwa_initial s ! row ! col = 0" "\<not> pwa_isNotesMode s" "pwa_board s ! row ! col \<noteq> num"
  shows "pwa_inputNumber num s = pwa_checkWin
       (s\<lparr>pwa_board := set_cell (pwa_board s) row col num,
          pwa_notes := (if autoRemoveNotes s
                        then removeRelatedNotes (set_notes (pwa_notes s) row col {}) row col num
                        else set_notes (pwa_notes s) row col {}),
          moveHistory := moveHistory s @ [pwa_valueEntry num s row col], redoStack := []\<rparr>)"
  using assms by (simp add: pwa_inputNumber_def Let_def pwa_valueEntry_def)

lemma pwa_inputNumber_idle:
  assumes "pwa_selected s = None \<or> pwa_isPaused s \<or> pwa_isComplete s \<or>
     (\<exists>row col. pwa_selected s = Some (row, col) \<and> pwa_initial s ! row ! col \<noteq> 0)"
  shows "pwa_inputNumber num s = s"
  using assms by (auto simp: pwa_inputNumber_def split: option.splits)


lemma pwa_inv_edit:
  assumes "pwa_inv s" "editable (pwa_initial s) row col" "moveRow m = row" "moveCol m = col"
  shows "pwa_inv (pwa_checkWin
       (s\<lparr>pwa_board := set_cell (pwa_board s) row col v, pwa_notes := n,
          moveHistory := moveHistory s @ [m], redoStack := []\<rparr>))"
proof -
  have "pwa_inv (s\<lparr>pwa_board := set_cell (pwa_board s) row col v\<rparr>)"
    using assms(1,2) by (rule pwa_inv_write)
  then have "pwa_inv (s\<lparr>pwa_board := set_cell (pwa_board s) row col v, pwa_notes := n\<rparr>)"
    by (simp add: pwa_inv_def)
  from pwa_inv_push[OF this, of m] assms(2-4)
  have "pwa_inv (s\<lparr>pwa_board := set_cell (pwa_board s) row col v, pwa_notes := n,
          moveHistory := moveHistory s @ [m], redoStack := []\<rparr>)" by simp
  then show ?thesis by (rule pwa_inv_checkWin)
qed

lemma pwa_inv_inputNumber:
  assumes inv: "pwa_inv s"
  shows "pwa_inv (pwa_inputNumber num s)"
proof (cases "pwa_selected s")
  case None
  with inv show ?thesis by (simp add: pwa_inputNumber_idle)
next
  case (Some p)
  obtain row col where p: "p = (row, col)" by (cases p)
  have sel: "pwa_selected s = Some (row, col)" using Some p by simp
  have b: "row < 9" "col < 9" using pwa_inv_selected[OF inv sel] by simp_all
  show ?thesis
  proof (cases "pwa_isPaused s \<or> pwa_isComplete s \<or> pwa_initial s ! row ! col \<noteq> 0")
    case True
    then have "pwa_inputNumber num s = s" using sel by (intro pwa_inputNumber_idle) auto
    with inv show ?thesis by simp
  next
    case False
    then have a: "\<not> pwa_isPaused s" "\<not> pwa_isComplete s" "pwa_initial s ! row ! col = 0"
      by simp_all
    have ed: "editable (pwa_initial s) row col" using a b by (simp add: editable_def)
    show ?thesis
    proof (cases "pwa_isNotesMode s")
      case True
      show ?thesis
        unfolding pwa_inputNumber_note[OF sel a True]
        using inv ed by (rule pwa_inv_edit) (simp_all add: pwa_noteEntry_def)
    next
      case nm: False
      show ?thesis
      proof (cases "pwa_board s ! row ! col = num")
        case True
        have "pwa_inv (pwa_checkWin
           (s\<lparr>pwa_board := set_cell (pwa_board s) row col 0, pwa_notes := pwa_notes s,
              moveHistory := moveHistory s @ [pwa_valueEntry num s row col], redoStack := []\<rparr>))"
          using inv ed by (rule pwa_inv_edit) (simp_all add: pwa_valueEntry_def)
        then show ?thesis unfolding pwa_inputNumber_off[OF sel a nm True] by simp
      next
        case False
        show ?thesis
          unfolding pwa_inputNumber_set[OF sel a nm False]
          using inv ed by (rule pwa_inv_edit) (simp_all add: pwa_valueEntry_def)
      qed
    qed
  qed
qed


lemma pwa_inv_erase:
  assumes inv: "pwa_inv s"
  shows "pwa_inv (pwa_erase s)"
proof (cases "pwa_selected s")
  case None
  with inv show ?thesis by (simp add: pwa_erase_def)
next
  case (Some p)
  obtain row col where p: "p = (row, col)" by (cases p)
  have sel: "pwa_selected s = Some (row, col)" using Some p by simp
  have b: "row < 9" "col < 9" using pwa_inv_selected[OF inv sel] by simp_all
  show ?thesis
  proof (cases "pwa_isPaused s \<or> pwa_isComplete s \<or> pwa_initial s ! row ! col \<noteq> 0 \<or>
      (pwa_board s ! row ! col = 0 \<and> pwa_notes s ! row ! col = {})")
    case True
    with inv sel show ?thesis by (auto simp: pwa_erase_def Let_def)
  next
    case False
    then have ed: "editable (pwa_initial s) row col" using b by (simp add: editable_def)
    let ?m = "\<lparr>moveType = EraseMove, moveRow = row, moveCol = col,
               oldValue = pwa_board s ! row ! col, oldNotes = pwa_notes s ! row ! col,
               newValue = 0, newNotes = Some {}\<rparr>"
    have "pwa_inv (s\<lparr>pwa_board := set_cell (pwa_board s) row col 0\<rparr>)"
      using inv ed by (rule pwa_inv_write)
    then have "pwa_inv (s\<lparr>pwa_board := set_cell (pwa_board s) row col 0,
                          pwa_notes := set_notes (pwa_notes s) row col {}\<rparr>)"
      by (simp add: pwa_inv_def)
    from pwa_inv_push[OF this, of ?m] ed
    have "pwa_inv (s\<lparr>pwa_board := set_cell (pwa_board s) row col 0,
                      pwa_notes := set_notes (pwa_notes s) row col {},
                      moveHistory := moveHistory s @ [?m], redoStack := []\<rparr>)" by simp
    moreover have "pwa_erase s = s\<lparr>pwa_board := set_cell (pwa_board s) row col 0,
                      pwa_notes := set_notes (pwa_notes s) row col {},
                      moveHistory := moveHistory s @ [?m], redoStack := []\<rparr>"
      using sel False by (cases s) (auto simp: pwa_erase_def Let_def)
    ultimately show ?thesis by simp
  qed
qed

lemma pwa_candidate_editable:
  assumes inv: "pwa_inv s"
    and cand: "(row, col) \<in> set (filter (\<lambda>(r, c). pwa_board s ! r ! c \<noteq> pwa_solution s ! r ! c) allPositions)"
  shows "editable (pwa_initial s) row col"
proof -
  from cand have b: "row < 9" "col < 9"
    and ne: "pwa_board s ! row ! col \<noteq> pwa_solution s ! row ! col"
    by (simp_all add: allPositions_iff)
  have "pwa_initial s ! row ! col = 0"
  proof (rule ccontr)
    assume nz: "pwa_initial s ! row ! col \<noteq> 0"
    from inv have "prefilled_kept (pwa_initial s) (pwa_board s)"
      "clues_of (pwa_initial s) (pwa_solution s)"
      by (simp_all add: pwa_inv_def)
    with nz b have "pwa_board s ! row ! col = pwa_solution s ! row ! col"
      unfolding prefilled_kept_def clues_of_iff by metis
    with ne show False by simp
  qed
  with b show ?thesis by (simp add: editable_def)
qed

lemma pwa_inv_hint:
  assumes inv: "pwa_inv s"
  shows "pwa_inv (pwa_hint u s)"
proof (cases "pwa_hintsRemaining s \<le> 0 \<or> pwa_isPaused s \<or> pwa_isComplete s")
  case True
  with inv show ?thesis by (auto simp: pwa_hint_def)
next
  case False
  let ?cs = "filter (\<lambda>(r, c). pwa_board s ! r ! c \<noteq> pwa_solution s ! r ! c) allPositions"
  show ?thesis
  proof (cases "?cs = []")
    case True
    with inv False show ?thesis by (simp add: pwa_hint_def)
  next
    case ne: False
    obtain row col where rc: "?cs ! (u mod length ?cs) = (row, col)"
      by (cases "?cs ! (u mod length ?cs)")
    have "0 < length ?cs" using ne by (rule length_greater_0_conv[THEN iffD2])
    then have "u mod length ?cs < length ?cs" by (rule mod_less_divisor)
    then have "?cs ! (u mod length ?cs) \<in> set ?cs" by (rule nth_mem)
    then have "(row, col) \<in> set ?cs" unfolding rc .
    then have ed: "editable (pwa_initial s) row col" by (rule pwa_candidate_editable[OF inv])
    let ?m = "\<lparr>moveType = HintMove, moveRow = row, moveCol = col,
               oldValue = pwa_board s ! row ! col, oldNotes = pwa_notes s ! row ! col,
               newValue = pwa_solution s ! row ! col, newNotes = Some {}\<rparr>"
    let ?t = "s\<lparr>moveHistory := moveHistory s @ [?m], redoStack := [],
                pwa_board := set_cell (pwa_board s) row col (pwa_solution s ! row ! col),
                pwa_notes := set_notes (pwa_notes s) row col {},
                pwa_hintsRemaining := pwa_hintsRemaining s - 1,
                pwa_hintsUsed := pwa_hintsUsed s + 1\<rparr>"
    have "pwa_inv (s\<lparr>pwa_board := set_cell (pwa_board s) row col (pwa_solution s ! row ! col)\<rparr>)"
      using inv ed by (rule pwa_inv_write)
    then have "pwa_inv ?t" using ed by (auto simp: pwa_inv_def)
    then have "pwa_inv (pwa_checkWin ?t)" by (rule pwa_inv_checkWin)
    moreover have "pwa_hint u s = pwa_checkWin ?t"
      unfolding pwa_hint_def Let_def using False ne by (simp only: if_False rc prod.case)
    ultimately show ?thesis by simp
  qed
qed

lemma pwa_inv_undo:
  assumes inv: "pwa_inv s"
  shows "pwa_inv (pwa_undo s)"
proof (cases "moveHistory s = [] \<or> pwa_isPaused s \<or> pwa_isComplete s")
  case True
  with inv show ?thesis by (auto simp: pwa_undo_def)
next
  case False
  let ?m = "last (moveHistory s)"
  have mem: "?m \<in> set (moveHistory s)" using False by simp
  with inv have ed: "editable (pwa_initial s) (moveRow ?m) (moveCol ?m)"
    by (simp add: pwa_inv_def)
  have "pwa_inv (s\<lparr>pwa_board := set_cell (pwa_board s) (moveRow ?m) (moveCol ?m) (oldValue ?m)\<rparr>)"
    using inv ed by (rule pwa_inv_write)
  then show ?thesis
    using False mem ed
    by (auto simp: pwa_undo_def Let_def pwa_inv_def dest: in_set_butlastD)
qed

lemma pwa_inv_redo:
  assumes inv: "pwa_inv s"
  shows "pwa_inv (pwa_redo s)"
proof (cases "redoStack s = [] \<or> pwa_isPaused s \<or> pwa_isComplete s")
  case True
  with inv show ?thesis by (auto simp: pwa_redo_def)
next
  case False
  let ?m = "last (redoStack s)"
  have mem: "?m \<in> set (redoStack s)" using False by simp
  with inv have ed: "editable (pwa_initial s) (moveRow ?m) (moveCol ?m)"
    by (simp add: pwa_inv_def)
  have "pwa_inv (s\<lparr>pwa_board := set_cell (pwa_board s) (moveRow ?m) (moveCol ?m) (newValue ?m)\<rparr>)"
    using inv ed by (rule pwa_inv_write)
  then show ?thesis
    using False mem ed
    by (auto simp: pwa_redo_def Let_def pwa_inv_def dest: in_set_butlastD)
qed

lemma pwa_inv_autoSolve:
  assumes inv: "pwa_inv s"
  shows "pwa_inv (pwa_autoSolve s)"
proof (cases "pwa_isPaused s \<or> pwa_isComplete s")
  case True
  with inv show ?thesis by (auto simp: pwa_autoSolve_def)
next
  case False
  let ?b = "foldl (\<lambda>b (r, c). set_cell b r c (pwa_solution s ! r ! c)) (pwa_board s) allPositions"
  from inv have g: "grid9 (pwa_board s)" and cl: "clues_of (pwa_initial s) (pwa_solution s)"
    by (simp_all add: pwa_inv_def)
  from foldl_set_cell[OF g, of "\<lambda>r c. pwa_solution s ! r ! c" allPositions]
  have g': "grid9 ?b" and v: "\<And>r c. r < 9 \<Longrightarrow> c < 9 \<Longrightarrow> ?b ! r ! c = pwa_solution s ! r ! c"
    by (simp_all add: allPositions_iff)
  have "prefilled_kept (pwa_initial s) ?b"
    unfolding prefilled_kept_def using v cl[unfolded clues_of_iff] by simp
  with inv g' show ?thesis using False by (simp add: pwa_autoSolve_def pwa_inv_def)
qed

lemma pwa_inv_handle:
  assumes "pwa_inv s" "pwa_ui_event e"
  shows "pwa_inv (pwa_handle e s)"
proof (cases e)
  case (PwaSelectCell row col)
  with assms show ?thesis by (auto simp: pwa_selectCell_def pwa_inv_def pwa_ui_event_def)
next
  case (PwaInputNumber num)
  with assms show ?thesis by (simp add: pwa_inv_inputNumber)
next
  case PwaErase
  with assms show ?thesis by (simp add: pwa_inv_erase)
next
  case PwaToggleNotes
  with assms show ?thesis by (simp add: pwa_toggleNotes_def pwa_inv_def)
next
  case (PwaHint u)
  with assms show ?thesis by (simp add: pwa_inv_hint)
next
  case PwaUndo
  with assms show ?thesis by (simp add: pwa_inv_undo)
next
  case PwaRedo
  with assms show ?thesis by (simp add: pwa_inv_redo)
next
  case PwaTogglePause
  with assms show ?thesis by (simp add: pwa_togglePause_def pwa_inv_def)
next
  case PwaAutoSolve
  with assms show ?thesis by (simp add: pwa_inv_autoSolve)
next
  case (PwaSetAutoRemoveNotes b)
  with assms show ?thesis by (simp add: pwa_inv_def)
qed

lemma pwa_initial_handle: "pwa_initial (pwa_handle e s) = pwa_initial s"
  by (cases e)
    (auto simp: pwa_selectCell_def pwa_inputNumber_def pwa_erase_def pwa_toggleNotes_def
      pwa_hint_def pwa_undo_def pwa_redo_def pwa_togglePause_def pwa_autoSolve_def
      pwa_checkWin_def Let_def split: option.splits prod.splits)

lemma pwa_inv_start:
  assumes "pwa_newGame tiers rng d ar = Some (s, rng')"
  shows "pwa_inv s"
proof -
  from assms obtain puzzle sol where g: "pwa_generate tiers rng d = Some ((puzzle, sol), rng')"
    and s: "s = pwa_newGameState puzzle sol d ar"
    by (auto simp: pwa_newGame_def split: option.splits)
  from g obtain ok rng1 where gs: "generateSolution rng createEmptyGrid 0 0 = Some (ok, sol, rng1)"
    and cp: "pwa_createPuzzle tiers rng1 sol d = Some (puzzle, rng')"
    by (auto simp: pwa_generate_def split: option.splits)
  from createPuzzle_clues[OF generateSolution_wf[OF gs] disjI2[OF cp]]
  have "wf_grid puzzle" "clues_of puzzle sol" by simp_all
  then show ?thesis
    unfolding s pwa_newGameState_def pwa_inv_def
    by (simp add: wf_grid9 prefilled_kept_def)
qed

lemma pwa_reachable_inv: "pwa_reachable tiers rng d ar s \<Longrightarrow> pwa_inv s"
  by (induction rule: pwa_reachable.induct) (simp_all add: pwa_inv_start pwa_inv_handle)

lemma pwa_reachable_initial:
  "pwa_reachable tiers rng d ar s \<Longrightarrow>
   \<exists>puzzle sol rng'. pwa_generate tiers rng d = Some ((puzzle, sol), rng') \<and>
      pwa_initial s = puzzle"
proof (induction rule: pwa_reachable.induct)
  case (pwa_start s rng')
  then show ?case
    by (auto simp: pwa_newGame_def pwa_newGameState_def split: option.splits)
next
  case (pwa_step s e)
  then show ?case by (simp add: pwa_initial_handle)
qed

section \<open>The undo/redo log of the stand-alone script\<close>

lemma replay_simps [simp]:
  "replay b [] = b"
  "replay b (a # as) = replay (fwdBoard a b) as"
  "replay b (as @ bs) = replay (replay b as) bs"
  by (simp_all add: replay_def)

lemma coherent_append [simp]:
  "coherent b (as @ bs) = (coherent b as \<and> coherent (replay b as) bs)"
  by (induction as arbitrary: b) auto

lemma coherent_foldr: "coherent b as \<Longrightarrow> foldr revBoard as (replay b as) = b"
  by (induction as arbitrary: b) auto

lemma applyAction_fields [simp]:
  "board (applyAction a True s) = revBoard a (board s)"
  "board (applyAction a False s) = fwdBoard a (board s)"
  "history (applyAction a reverse s) = history s"
  "historyIndex (applyAction a reverse s) = historyIndex s"
  "isPaused (applyAction a reverse s) = isPaused s"
  "isComplete (applyAction a reverse s) = isComplete s"
  by (cases a; simp)+

lemma logs_refl: "ledger_ok s \<Longrightarrow> logs s [] s"
  by (simp add: logs_def)

lemma history_addToHistory:
  assumes "ledger_ok s"
  shows "history (addToHistory a s) = applied s @ [a]"
proof -
  have "slice0 (history s) (historyIndex s + 1) = take (nat (historyIndex s + 1)) (history s)"
    using assms by (intro slice0_take) (simp add: ledger_ok_def)
  then show ?thesis by (simp add: addToHistory_def applied_def)
qed

lemma logs_cong:
  assumes "logs s new t" "board u = board t" "history u = history t"
    "historyIndex u = historyIndex t"
  shows "logs s new u"
proof -
  have "applied u = applied t" "ledger_ok u = ledger_ok t"
    using assms(3,4) by (simp_all add: applied_def ledger_ok_def)
  then show ?thesis using assms(1) unfolding logs_def assms(2,3) by simp
qed

lemma logs_same:
  "ledger_ok s \<Longrightarrow> history s' = history s \<Longrightarrow> historyIndex s' = historyIndex s \<Longrightarrow>
   board s' = board s \<Longrightarrow> logs s [] s'"
  using logs_cong[OF logs_refl] by blast

lemma applied_addToHistory:
  assumes "ledger_ok s"
  shows "applied (addToHistory a s) = applied s @ [a]" and "ledger_ok (addToHistory a s)"
proof -
  have e: "slice0 (history s) (historyIndex s + 1) = take (nat (historyIndex s + 1)) (history s)"
    using assms by (intro slice0_take) (simp add: ledger_ok_def)
  have l: "length (take (nat (historyIndex s + 1)) (history s)) = nat (historyIndex s + 1)"
    using assms by (simp add: ledger_ok_def; linarith)
  have n: "nat (historyIndex s + 1 + 1) = Suc (nat (historyIndex s + 1))"
    using assms by (simp add: ledger_ok_def; linarith)
  show "applied (addToHistory a s) = applied s @ [a]"
    unfolding applied_def addToHistory_def using e l n by simp
  show "ledger_ok (addToHistory a s)"
    unfolding ledger_ok_def addToHistory_def using assms e l
    by (simp add: ledger_ok_def; linarith)
qed

lemma logs_record:
  assumes "logs s new t" "board u = board t" "history u = history t"
    "historyIndex u = historyIndex t"
    and r: "revBoard a b' = board t" and f: "fwdBoard a (board t) = b'"
  shows "logs s (new @ [a]) (addToHistory a (u\<lparr>board := b'\<rparr>))"
proof -
  let ?u = "u\<lparr>board := b'\<rparr>"
  have "ledger_ok t" using assms(1) by (simp add: logs_def)
  then have ok: "ledger_ok ?u" using assms(3,4) by (simp add: ledger_ok_def)
  have ap: "applied ?u = applied t" using assms(3,4) by (simp add: applied_def)
  have b: "board (addToHistory a ?u) = b'" by (simp add: addToHistory_def)
  have h: "history (addToHistory a ?u) = applied s @ new @ [a]"
    using history_addToHistory[OF ok, of a] ap assms(1) by (simp add: logs_def)
  show ?thesis
    unfolding logs_def applied_addToHistory(1)[OF ok] ap b h
    using assms(1) applied_addToHistory(2)[OF ok] r f
    by (simp add: logs_def)
qed

lemma logs_checkWin: "logs s new t \<Longrightarrow> logs s new (checkWinCondition t)"
  by (erule logs_cong) (simp_all add: checkWinCondition_def)

lemma logs_notes: "logs s new t \<Longrightarrow> logs s new (t\<lparr>notes' := n\<rparr>)"
  by (erule logs_cong) simp_all

lemma logs_hints: "logs s new t \<Longrightarrow> logs s new (t\<lparr>hintsRemaining := n\<rparr>)"
  by (erule logs_cong) simp_all

lemma logs_value:
  assumes "logs s new t"
  shows "logs s (new @ [ValueAction row col (board t ! row ! col) v])
           (addToHistory (ValueAction row col (board t ! row ! col) v)
              (t\<lparr>board := set_cell (board t) row col v\<rparr>))"
  using assms by (rule logs_record) (simp_all add: set_cell_restore)

lemma logs_inputNumber:
  assumes ok: "ledger_ok s"
  shows "\<exists>new. logs s new (inputNumber num s)"
proof (cases "selected s")
  case None
  then show ?thesis using logs_refl[OF ok] by (auto simp: inputNumber_def)
next
  case (Some p)
  obtain row col where p: "p = (row, col)" by (cases p)
  have sel: "selected s = Some (row, col)" using Some p by simp
  show ?thesis
  proof (cases "isPaused s \<or> isComplete s \<or> initial s ! row ! col \<noteq> 0")
    case True
    then have "inputNumber num s = s" using sel by (auto simp: inputNumber_def)
    then show ?thesis using logs_refl[OF ok] by auto
  next
    case False
    show ?thesis
    proof (cases "isNotesMode s")
      case nm: True
      let ?old = "notes' s ! row ! col"
      let ?new = "if num \<in> ?old then ?old - {num} else insert num ?old"
      let ?s1 = "s\<lparr>notes' := set_notes (notes' s) row col ?new\<rparr>"
      let ?s2 = "if \<not> setsEqual ?old ?new then addToHistory (NoteAction row col ?old ?new) ?s1 else ?s1"
      have l1: "logs s [] ?s1" using logs_refl[OF ok] by (rule logs_notes)
      have "logs s ([] @ [NoteAction row col ?old ?new])
              (addToHistory (NoteAction row col ?old ?new) (?s1\<lparr>board := board ?s1\<rparr>))"
        using l1 by (rule logs_record) simp_all
      then have "logs s [NoteAction row col ?old ?new] (addToHistory (NoteAction row col ?old ?new) ?s1)"
        by simp
      with l1 obtain n2 where l2: "logs s n2 ?s2" by (cases "setsEqual ?old ?new") auto
      let ?s3 = "if board ?s2 ! row ! col \<noteq> 0
                 then addToHistory (ValueAction row col (board ?s2 ! row ! col) 0)
                        (?s2\<lparr>board := set_cell (board ?s2) row col 0\<rparr>)
                 else ?s2"
      obtain n3 where l3: "logs s n3 ?s3"
        using l2 logs_value[OF l2, of row col 0] by (cases "board ?s2 ! row ! col \<noteq> 0") auto
      have "inputNumber num s = checkWinCondition ?s3"
        using sel False nm by (simp add: inputNumber_def Let_def)
      with logs_checkWin[OF l3] show ?thesis by auto
    next
      case vm: False
      let ?ov = "board s ! row ! col"
      have "inputNumber num s = checkWinCondition
          (addToHistory (ValueAction row col ?ov 0) (s\<lparr>board := set_cell (board s) row col 0\<rparr>))"
        if "?ov = num"
        using sel False vm that by (simp add: inputNumber_def Let_def)
      moreover have "inputNumber num s = checkWinCondition
          (addToHistory (ValueAction row col ?ov num)
             (s\<lparr>board := set_cell (board s) row col num,
                notes' := set_notes (notes' s) row col {}\<rparr>))"
        if "?ov \<noteq> num"
        using sel False vm that by (simp add: inputNumber_def Let_def)
      moreover have "logs s ([] @ [ValueAction row col ?ov v])
           (addToHistory (ValueAction row col ?ov v) (s\<lparr>board := set_cell (board s) row col v\<rparr>))"
        for v using logs_value[OF logs_refl[OF ok], of row col v] by simp
      moreover have "logs s ([] @ [ValueAction row col ?ov v])
           (addToHistory (ValueAction row col ?ov v)
              (s\<lparr>board := set_cell (board s) row col v, notes' := n\<rparr>))"
        for v n
      proof -
        have "logs s ([] @ [ValueAction row col ?ov v])
           (addToHistory (ValueAction row col ?ov v)
              ((s\<lparr>notes' := n\<rparr>)\<lparr>board := set_cell (board s) row col v\<rparr>))"
          using logs_refl[OF ok] by (rule logs_record) (simp_all add: set_cell_restore)
        moreover have "(s\<lparr>notes' := n\<rparr>)\<lparr>board := set_cell (board s) row col v\<rparr>
            = s\<lparr>board := set_cell (board s) row col v, notes' := n\<rparr>"
          by (cases s) simp
        ultimately show ?thesis by simp
      qed
      ultimately show ?thesis
        using logs_checkWin by (cases "?ov = num") (metis, metis)
    qed
  qed
qed

lemma logs_eraseCell:
  assumes ok: "ledger_ok s"
  shows "\<exists>new. logs s new (eraseCell s)"
proof (cases "selected s")
  case None
  then show ?thesis using logs_refl[OF ok] by (auto simp: eraseCell_def)
next
  case (Some p)
  obtain row col where p: "p = (row, col)" by (cases p)
  have sel: "selected s = Some (row, col)" using Some p by simp
  let ?a = "EraseAction row col (board s ! row ! col) (notes' s ! row ! col)"
  show ?thesis
  proof (cases "eraseCell s = s")
    case True
    then show ?thesis using logs_refl[OF ok] by auto
  next
    case False
    then have e: "eraseCell s = addToHistory ?a
        (s\<lparr>board := set_cell (board s) row col 0, notes' := set_notes (notes' s) row col {}\<rparr>)"
      using sel by (auto simp: eraseCell_def Let_def split: if_splits)
    have "logs s ([] @ [?a])
       (addToHistory ?a ((s\<lparr>notes' := set_notes (notes' s) row col {}\<rparr>)
          \<lparr>board := set_cell (board s) row col 0\<rparr>))"
      using logs_refl[OF ok] by (rule logs_record) (simp_all add: set_cell_restore)
    moreover have "(s\<lparr>notes' := set_notes (notes' s) row col {}\<rparr>)\<lparr>board := set_cell (board s) row col 0\<rparr>
       = s\<lparr>board := set_cell (board s) row col 0, notes' := set_notes (notes' s) row col {}\<rparr>"
      by (cases s) simp
    ultimately show ?thesis unfolding e by auto
  qed
qed

lemma logs_giveHint:
  assumes ok: "ledger_ok s"
  shows "\<exists>new. logs s new (giveHint u s)"
proof (cases "giveHint u s = s")
  case True
  then show ?thesis using logs_refl[OF ok] by auto
next
  case False
  let ?cs = "filter (\<lambda>(r, c). board s ! r ! c \<noteq> solution s ! r ! c) allPositions"
  obtain row col where rc: "?cs ! (u mod length ?cs) = (row, col)"
    by (cases "?cs ! (u mod length ?cs)")
  let ?a = "HintAction row col (board s ! row ! col) (solution s ! row ! col)"
  let ?t = "s\<lparr>board := set_cell (board s) row col (solution s ! row ! col),
              notes' := set_notes (notes' s) row col {},
              hintsRemaining := hintsRemaining s - 1\<rparr>"
  from False have g: "\<not> (hintsRemaining s \<le> 0 \<or> isPaused s \<or> isComplete s)" "?cs \<noteq> []"
    by (auto simp: giveHint_def Let_def split: if_splits)
  have e: "giveHint u s = checkWinCondition (addToHistory ?a ?t)"
    unfolding giveHint_def Let_def using g by (simp only: if_False rc prod.case)
  have "logs s ([] @ [?a])
     (addToHistory ?a ((s\<lparr>notes' := set_notes (notes' s) row col {},
         hintsRemaining := hintsRemaining s - 1\<rparr>)
          \<lparr>board := set_cell (board s) row col (solution s ! row ! col)\<rparr>))"
    using logs_refl[OF ok] by (rule logs_record) (simp_all add: set_cell_restore)
  moreover have "(s\<lparr>notes' := set_notes (notes' s) row col {},
         hintsRemaining := hintsRemaining s - 1\<rparr>)
          \<lparr>board := set_cell (board s) row col (solution s ! row ! col)\<rparr> = ?t"
    by (cases s) simp
  ultimately have "logs s [?a] (addToHistory ?a ?t)" by simp
  then show ?thesis unfolding e using logs_checkWin by blast
qed

lemma logs_handle:
  assumes "ledger_ok s" "edit_event e"
  shows "\<exists>new. logs s new (handle e s)"
proof (cases e)
  case (SelectCell row col)
  have "logs s [] (selectCell row col s)"
    using assms(1) by (intro logs_same) (simp_all add: selectCell_def)
  then show ?thesis using SelectCell by auto
next
  case (InputNumber num)
  then show ?thesis using logs_inputNumber[OF assms(1)] by simp
next
  case EraseCell
  then show ?thesis using logs_eraseCell[OF assms(1)] by simp
next
  case ToggleNotesMode
  have "logs s [] (toggleNotesMode s)"
    using assms(1) by (intro logs_same) (simp_all add: toggleNotesMode_def)
  then show ?thesis using ToggleNotesMode by auto
next
  case (GiveHint u)
  then show ?thesis using logs_giveHint[OF assms(1)] by simp
next
  case Undo
  with assms(2) show ?thesis by (simp add: edit_event_def)
next
  case Redo
  with assms(2) show ?thesis by (simp add: edit_event_def)
next
  case TogglePause
  have "logs s [] (togglePause s)"
    using assms(1) by (intro logs_same) (simp_all add: togglePause_def)
  then show ?thesis using TogglePause by auto
next
  case AutoSolve
  with assms(2) show ?thesis by (simp add: edit_event_def)
qed

lemma logs_trans:
  assumes "logs s n1 t" "logs t n2 u"
  shows "logs s (n1 @ n2) u"
  using assms by (auto simp: logs_def)

lemma logs_run:
  assumes "ledger_ok s" "list_all edit_event es"
  shows "\<exists>new. logs s new (run es s)"
  using assms(2)
proof (induction es rule: rev_induct)
  case Nil
  then show ?case using logs_refl[OF assms(1)] by (auto simp: run_def)
next
  case (snoc e es)
  then obtain n1 where l1: "logs s n1 (run es s)" by auto
  then have "ledger_ok (run es s)" by (simp add: logs_def)
  moreover have "edit_event e" using snoc.prems by simp
  ultimately obtain n2 where "logs (run es s) n2 (handle e (run es s))"
    using logs_handle by blast
  with l1 have "logs s (n1 @ n2) (run (es @ [e]) s)"
    by (simp add: run_def logs_trans)
  then show ?case by blast
qed

lemma length_applied: "ledger_ok s \<Longrightarrow> length (applied s) = nat (historyIndex s + 1)"
  by (simp add: applied_def ledger_ok_def; linarith)

lemma undo_iter:
  assumes "active s" "ledger_ok s" "applied s = H @ N"
  shows "board ((undo ^^ length N) s) = foldr revBoard N (board s) \<and>
         applied ((undo ^^ length N) s) = H \<and>
         history ((undo ^^ length N) s) = history s \<and>
         ledger_ok ((undo ^^ length N) s) \<and> active ((undo ^^ length N) s)"
  using assms
proof (induction N arbitrary: s rule: rev_induct)
  case Nil
  then show ?case by simp
next
  case (snoc a N)
  let ?p = "nat (historyIndex s + 1)"
  have len: "?p = length H + length N + 1"
    using length_applied[OF snoc.prems(2)] snoc.prems(3) by simp
  then have i0: "0 \<le> historyIndex s" by linarith
  have ni: "nat (historyIndex s) = length H + length N" using len i0 by linarith
  have lt: "nat (historyIndex s) < ?p" using len ni by simp
  have "history s ! nat (historyIndex s) = applied s ! nat (historyIndex s)"
    unfolding applied_def using lt by simp
  also have "\<dots> = a" unfolding snoc.prems(3) ni by (simp add: nth_append)
  finally have a: "history s ! nat (historyIndex s) = a" .
  let ?s1 = "applyAction a True (s\<lparr>historyIndex := historyIndex s - 1\<rparr>)"
  have u: "undo s = ?s1"
    using snoc.prems(1) i0 a by (simp add: undo_def active_def Let_def)
  have "applied ?s1 = take (length H + length N) (applied s)"
    unfolding applied_def using ni i0 len by (simp add: min_def)
  then have ap1: "applied ?s1 = H @ N" unfolding snoc.prems(3) by simp
  have ok1: "ledger_ok ?s1" using snoc.prems(2) i0 by (simp add: ledger_ok_def)
  have act1: "active ?s1" using snoc.prems(1) by (simp add: active_def)
  from snoc.IH[OF act1 ok1 ap1]
  have "board ((undo ^^ length N) ?s1) = foldr revBoard N (revBoard a (board s)) \<and>
        applied ((undo ^^ length N) ?s1) = H \<and>
        history ((undo ^^ length N) ?s1) = history s \<and>
        ledger_ok ((undo ^^ length N) ?s1) \<and> active ((undo ^^ length N) ?s1)"
    by simp
  moreover have "(undo ^^ length (N @ [a])) s = (undo ^^ length N) ?s1"
    using u by (simp add: funpow_swap1)
  ultimately show ?case by simp
qed

lemma redo_iter:
  assumes "active s" "ledger_ok s" "history s = applied s @ N @ T"
  shows "board ((redo ^^ length N) s) = replay (board s) N \<and>
         applied ((redo ^^ length N) s) = applied s @ N \<and>
         history ((redo ^^ length N) s) = history s \<and>
         ledger_ok ((redo ^^ length N) s)"
  using assms
proof (induction N arbitrary: s)
  case Nil
  then show ?case by simp
next
  case (Cons a N)
  let ?p = "nat (historyIndex s + 1)"
  have lp: "length (applied s) = ?p" using length_applied[OF Cons.prems(2)] .
  have len: "length (history s) = ?p + Suc (length N) + length T"
    using arg_cong[OF Cons.prems(3), of length] lp by simp
  have i1: "- 1 \<le> historyIndex s" using Cons.prems(2) by (simp add: ledger_ok_def)
  have g: "\<not> int (length (history s)) - 1 \<le> historyIndex s" using len i1 by linarith
  have "history s ! ?p = (applied s @ a # N @ T) ! length (applied s)"
    using Cons.prems(3) lp by simp
  then have a: "history s ! ?p = a" by (simp add: nth_append)
  let ?s1 = "applyAction a False (s\<lparr>historyIndex := historyIndex s + 1\<rparr>)"
  have r: "redo s = ?s1"
    using Cons.prems(1) g a by (simp add: redo_def active_def Let_def)
  have n1: "nat (historyIndex s + 1 + 1) = Suc ?p" using i1 by linarith
  have "applied ?s1 = take (nat (historyIndex s + 1 + 1)) (history s)"
    by (simp add: applied_def add.commute add.left_commute)
  then have "applied ?s1 = take (Suc ?p) (history s)" unfolding n1 .
  also have "\<dots> = take (Suc (length (applied s))) (applied s @ a # N @ T)"
    using Cons.prems(3) lp by simp
  also have "\<dots> = applied s @ [a]" by simp
  finally have ap1: "applied ?s1 = applied s @ [a]" .
  have h1: "history ?s1 = applied ?s1 @ N @ T" using Cons.prems(3) ap1 by simp
  have ok1: "ledger_ok ?s1" using i1 len by (simp add: ledger_ok_def; linarith)
  have act1: "active ?s1" using Cons.prems(1) by (simp add: active_def)
  from Cons.IH[OF act1 ok1 h1] ap1
  have "board ((redo ^^ length N) ?s1) = replay (fwdBoard a (board s)) N \<and>
        applied ((redo ^^ length N) ?s1) = applied s @ a # N \<and>
        history ((redo ^^ length N) ?s1) = history s \<and>
        ledger_ok ((redo ^^ length N) ?s1)"
    by simp
  moreover have "(redo ^^ length (a # N)) s = (redo ^^ length N) ?s1"
    using r by (simp add: funpow_swap1)
  ultimately show ?case by simp
qed

lemma applied_index:
  assumes "ledger_ok s" "ledger_ok t" "applied s = applied t"
  shows "historyIndex s = historyIndex t"
proof -
  have "nat (historyIndex s + 1) = nat (historyIndex t + 1)"
    using length_applied[OF assms(1)] length_applied[OF assms(2)] assms(3) by simp
  with assms(1,2) show ?thesis by (simp add: ledger_ok_def; linarith)
qed

lemma undo_redo_board:
  assumes ok: "ledger_ok s0" and es: "list_all edit_event es" and act: "active (run es s0)"
  defines "sk \<equiv> run es s0"
  defines "M \<equiv> nat (historyIndex sk - historyIndex s0)"
  shows "board ((undo ^^ M) sk) = board s0 \<and>
         historyIndex ((undo ^^ M) sk) = historyIndex s0 \<and>
         board ((redo ^^ M) ((undo ^^ M) sk)) = board sk \<and>
         historyIndex ((redo ^^ M) ((undo ^^ M) sk)) = historyIndex sk"
proof -
  obtain N where l: "logs s0 N sk" using logs_run[OF ok es] unfolding sk_def by blast
  then have ap: "applied sk = applied s0 @ N" and okk: "ledger_ok sk"
    and co: "coherent (board s0) N"
    and fw: "replay (board s0) N = board sk"
    by (simp_all add: logs_def)
  have rv: "foldr revBoard N (board sk) = board s0"
    using coherent_foldr[OF co] fw by simp
  have "nat (historyIndex sk + 1) = nat (historyIndex s0 + 1) + length N"
    using length_applied[OF okk] length_applied[OF ok] ap by simp
  then have M: "M = length N"
    unfolding M_def using ok okk by (simp add: ledger_ok_def; linarith)
  let ?u = "(undo ^^ length N) sk"
  from undo_iter[OF act[folded sk_def] okk ap]
  have u: "board ?u = board s0" "applied ?u = applied s0" "history ?u = history sk"
    "ledger_ok ?u" "active ?u"
    using rv by simp_all
  have iu: "historyIndex ?u = historyIndex s0"
    using applied_index[OF u(4) ok u(2)] .
  have "history sk = applied sk @ drop (nat (historyIndex sk + 1)) (history sk)"
    by (simp add: applied_def)
  then have hu: "history ?u = applied ?u @ N @ drop (nat (historyIndex sk + 1)) (history sk)"
    using u(2,3) ap by simp
  from redo_iter[OF u(5,4) hu]
  have r: "board ((redo ^^ length N) ?u) = board sk"
    "applied ((redo ^^ length N) ?u) = applied sk" "ledger_ok ((redo ^^ length N) ?u)"
    using u(1,2) fw ap by simp_all
  have ir: "historyIndex ((redo ^^ length N) ?u) = historyIndex sk"
    using applied_index[OF r(3) okk r(2)] .
  show ?thesis unfolding M using u(1) iu r(1) ir by simp
qed

lemma coherent_applied: "coherent b0 (history s) \<Longrightarrow> coherent b0 (applied s)"
proof -
  assume c: "coherent b0 (history s)"
  have "history s = applied s @ drop (nat (historyIndex s + 1)) (history s)"
    by (simp add: applied_def)
  with c have "coherent b0 (applied s @ drop (nat (historyIndex s + 1)) (history s))" by simp
  then show ?thesis unfolding coherent_append by simp
qed

lemma synced_logs:
  assumes "synced b0 s" "logs s new s'"
  shows "synced b0 s'"
proof -
  from assms(2) have ap: "applied s' = applied s @ new" and ok: "ledger_ok s'"
    and co: "coherent (board s) new" and rp: "replay (board s) new = board s'"
    and h: "new = [] \<Longrightarrow> history s' = history s" "new \<noteq> [] \<Longrightarrow> history s' = applied s'"
    by (simp_all add: logs_def)
  from assms(1) have b: "board s = replay b0 (applied s)" and c0: "coherent b0 (history s)"
    by (simp_all add: synced_def)
  have "board s' = replay b0 (applied s')" using rp b ap by simp
  moreover have "coherent b0 (history s')"
  proof (cases "new = []")
    case True
    then show ?thesis using h(1) c0 by simp
  next
    case False
    then show ?thesis using h(2) ap coherent_applied[OF c0] co b by simp
  qed
  ultimately show ?thesis using ok by (simp add: synced_def)
qed

lemma synced_undo:
  assumes "synced b0 s"
  shows "synced b0 (undo s)"
proof (cases "historyIndex s < 0 \<or> isPaused s \<or> isComplete s")
  case True
  then show ?thesis using assms by (simp add: undo_def)
next
  case False
  let ?n = "nat (historyIndex s)"
  let ?a = "history s ! ?n"
  let ?s1 = "applyAction ?a True (s\<lparr>historyIndex := historyIndex s - 1\<rparr>)"
  from assms have ok: "ledger_ok s" and c0: "coherent b0 (history s)"
    and b: "board s = replay b0 (applied s)" by (simp_all add: synced_def)
  have n: "?n < length (history s)" using ok False by (simp add: ledger_ok_def; linarith)
  have u: "undo s = ?s1" using False by (simp add: undo_def Let_def)
  have n1: "nat (historyIndex s + 1) = Suc ?n" using False by linarith
  have ap: "applied s = take ?n (history s) @ [?a]"
    unfolding applied_def n1 using n by (simp add: take_Suc_conv_app_nth)
  have ap1: "applied ?s1 = take ?n (history s)" by (simp add: applied_def)
  have "history s = take ?n (history s) @ ?a # drop (Suc ?n) (history s)"
    using n by (rule id_take_nth_drop)
  then have "coherent b0 (take ?n (history s) @ ?a # drop (Suc ?n) (history s))"
    using c0 by simp
  then have r: "revBoard ?a (fwdBoard ?a (replay b0 (take ?n (history s)))) = replay b0 (take ?n (history s))"
    unfolding coherent_append by simp
  have "board ?s1 = replay b0 (applied ?s1)"
    unfolding ap1 using b ap r by simp
  moreover have "ledger_ok ?s1" using ok False by (simp add: ledger_ok_def)
  ultimately show ?thesis unfolding u using c0 by (simp add: synced_def)
qed

lemma synced_redo:
  assumes "synced b0 s"
  shows "synced b0 (redo s)"
proof (cases "int (length (history s)) - 1 \<le> historyIndex s \<or> isPaused s \<or> isComplete s")
  case True
  then show ?thesis using assms by (simp add: redo_def)
next
  case False
  let ?n = "nat (historyIndex s + 1)"
  let ?a = "history s ! ?n"
  let ?s1 = "applyAction ?a False (s\<lparr>historyIndex := historyIndex s + 1\<rparr>)"
  from assms have ok: "ledger_ok s" and c0: "coherent b0 (history s)"
    and b: "board s = replay b0 (applied s)" by (simp_all add: synced_def)
  have n: "?n < length (history s)" using ok False by (simp add: ledger_ok_def; linarith)
  have u: "redo s = ?s1" using False by (simp add: redo_def Let_def)
  have n1: "nat (historyIndex s + 1 + 1) = Suc ?n" using ok by (simp add: ledger_ok_def; linarith)
  have "applied ?s1 = take (nat (historyIndex s + 1 + 1)) (history s)"
    by (simp add: applied_def add.commute add.left_commute)
  then have ap1: "applied ?s1 = applied s @ [?a]"
    unfolding n1 applied_def using n by (simp add: take_Suc_conv_app_nth)
  have "board ?s1 = replay b0 (applied ?s1)"
    unfolding ap1 using b by simp
  moreover have "ledger_ok ?s1" using ok False by (simp add: ledger_ok_def; linarith)
  ultimately show ?thesis unfolding u using c0 by (simp add: synced_def)
qed

lemma synced_handle:
  assumes "synced b0 s" "plain_event e"
  shows "synced b0 (handle e s)"
proof (cases "edit_event e")
  case True
  from assms(1) have "ledger_ok s" by (simp add: synced_def)
  then obtain new where "logs s new (handle e s)" using logs_handle True by blast
  with assms(1) show ?thesis by (rule synced_logs)
next
  case False
  then have "e = Undo \<or> e = Redo"
    using assms(2) by (cases e) (simp_all add: edit_event_def plain_event_def)
  then show ?thesis using synced_undo[OF assms(1)] synced_redo[OF assms(1)] by auto
qed

lemma synced_run:
  assumes "synced b0 s" "list_all plain_event es"
  shows "synced b0 (run es s)"
  using assms(2)
proof (induction es rule: rev_induct)
  case Nil
  then show ?case using assms(1) by (simp add: run_def)
next
  case (snoc e es)
  then have "synced b0 (run es s)" "plain_event e" by simp_all
  then have "synced b0 (handle e (run es s))" by (rule synced_handle)
  then show ?case by (simp add: run_def)
qed

lemma synced_newGameState: "synced puzzle (newGameState puzzle sol d)"
  by (simp add: synced_def newGameState_def ledger_ok_def applied_def)

lemma history_undo_redo:
  "history (undo s) = history s" "history (redo s) = history s"
  by (simp_all add: undo_def redo_def Let_def)

lemma history_run_undo_redo:
  assumes "list_all undo_redo_event ur"
  shows "history (run ur s) = history s"
  using assms
proof (induction ur rule: rev_induct)
  case Nil
  then show ?case by (simp add: run_def)
next
  case (snoc e ur)
  then have "e = Undo \<or> e = Redo" by (simp add: undo_redo_event_def)
  then have "history (handle e (run ur s)) = history (run ur s)"
    using history_undo_redo by auto
  with snoc show ?case by (simp add: run_def)
qed

lemma undo_redo_plain: "undo_redo_event e \<Longrightarrow> plain_event e"
  by (auto simp: undo_redo_event_def plain_event_def)

lemma edit_plain: "edit_event e \<Longrightarrow> plain_event e"
  by (cases e) (simp_all add: edit_event_def plain_event_def)

lemma board_by_index:
  assumes sy: "synced b0 s0" and es: "list_all edit_event es"
    and ur: "list_all undo_redo_event ur"
  defines "sk \<equiv> run es s0"
  defines "s \<equiv> run ur (run es s0)"
  shows "history s = history sk"
    and "historyIndex s = historyIndex s0 \<Longrightarrow> board s = board s0"
    and "historyIndex s = historyIndex sk \<Longrightarrow> board s = board sk"
proof -
  have ok0: "ledger_ok s0" using sy by (simp add: synced_def)
  obtain N where l: "logs s0 N sk" using logs_run[OF ok0 es] unfolding sk_def by blast
  then have ap: "applied sk = applied s0 @ N" by (simp add: logs_def)
  have syk: "synced b0 sk" using sy l by (rule synced_logs)
  have sys: "synced b0 s"
    unfolding s_def using syk[unfolded sk_def]
    by (rule synced_run) (use ur undo_redo_plain in \<open>auto simp: list_all_iff\<close>)
  show h: "history s = history sk" unfolding s_def sk_def using ur by (rule history_run_undo_redo)
  have bs: "board s = replay b0 (applied s)" using sys by (simp add: synced_def)
  have bk: "board sk = replay b0 (applied sk)" using syk by (simp add: synced_def)
  have b0: "board s0 = replay b0 (applied s0)" using sy by (simp add: synced_def)
  {
    assume "historyIndex s = historyIndex sk"
    then have "applied s = applied sk" using h by (simp add: applied_def)
    then show "board s = board sk" using bs bk by simp
  }
  {
    assume i: "historyIndex s = historyIndex s0"
    have "applied s = take (nat (historyIndex s0 + 1)) (history sk)"
      using i h by (simp add: applied_def)
    also have "\<dots> = take (nat (historyIndex s0 + 1)) (take (nat (historyIndex sk + 1)) (history sk))"
    proof -
      have "length (applied sk) = length (applied s0) + length N" using ap by simp
      then have "nat (historyIndex s0 + 1) \<le> nat (historyIndex sk + 1)"
        using length_applied[OF ok0] length_applied[of sk] syk by (simp add: synced_def)
      then show ?thesis by (simp add: min_def)
    qed
    also have "\<dots> = take (length (applied s0)) (applied s0 @ N)"
      using ap length_applied[OF ok0] by (simp add: applied_def)
    also have "\<dots> = applied s0" by simp
    finally show "board s = board s0" using bs b0 by simp
  }
qed

section \<open>The notes under undo and redo, stand-alone script\<close>

lemma nreplay_simps [simp]:
  "nreplay n [] = n"
  "nreplay n (a # as) = nreplay (fwdNotes a n) as"
  "nreplay n (as @ bs) = nreplay (nreplay n as) bs"
  by (simp_all add: nreplay_def)

lemma ncoherent_append [simp]:
  "ncoherent n (as @ bs) = (ncoherent n as \<and> ncoherent (nreplay n as) bs)"
  by (induction as arbitrary: n) auto

lemma ncoherent_foldr: "ncoherent n as \<Longrightarrow> foldr revNotes as (nreplay n as) = n"
  by (induction as arbitrary: n) auto

lemma applyAction_notes [simp]:
  "notes' (applyAction a True s) = revNotes a (notes' s)"
  "notes' (applyAction a False s) = fwdNotes a (notes' s)"
  by (cases a; simp)+

lemma set_notes_twice: "set_notes (set_notes n r c a) r c b = set_notes n r c b"
  by (cases "r < length n") (simp_all add: set_notes_def list_update_beyond)

lemma set_notes_restore: "set_notes (set_notes n r c a) r c (n ! r ! c) = n"
  by (simp add: set_notes_twice) (simp add: set_notes_def)

lemma set_notes_same: "n ! r ! c = v \<Longrightarrow> set_notes n r c v = n"
  by (auto simp: set_notes_def)

lemma nlogs_refl: "ledger_ok s \<Longrightarrow> nlogs s [] s"
  by (simp add: nlogs_def logs_refl)

lemma nlogs_cong:
  assumes "nlogs s new t" "board u = board t" "notes' u = notes' t" "history u = history t"
    "historyIndex u = historyIndex t"
  shows "nlogs s new u"
  using assms logs_cong[of s new t u] by (simp add: nlogs_def)

lemma nlogs_same:
  "ledger_ok s \<Longrightarrow> history s' = history s \<Longrightarrow> historyIndex s' = historyIndex s \<Longrightarrow>
   board s' = board s \<Longrightarrow> notes' s' = notes' s \<Longrightarrow> nlogs s [] s'"
  using nlogs_cong[OF nlogs_refl] by blast

lemma nlogs_record:
  assumes "nlogs s new t" "history u = history t" "historyIndex u = historyIndex t"
    and "revBoard a b' = board t" "fwdBoard a (board t) = b'"
    and "revNotes a n' = notes' t" "fwdNotes a (notes' t) = n'"
  shows "nlogs s (new @ [a]) (addToHistory a (u\<lparr>board := b', notes' := n'\<rparr>))"
proof -
  have l: "logs s new t" using assms(1) by (simp add: nlogs_def)
  have "logs s (new @ [a]) (addToHistory a ((u\<lparr>notes' := n', board := board t\<rparr>)\<lparr>board := b'\<rparr>))"
    using l by (rule logs_record) (simp_all add: assms)
  moreover have "(u\<lparr>notes' := n', board := board t\<rparr>)\<lparr>board := b'\<rparr> = u\<lparr>board := b', notes' := n'\<rparr>"
    by (cases u) simp
  ultimately have "logs s (new @ [a]) (addToHistory a (u\<lparr>board := b', notes' := n'\<rparr>))" by simp
  moreover have "notes' (addToHistory a (u\<lparr>board := b', notes' := n'\<rparr>)) = n'"
    by (simp add: addToHistory_def)
  ultimately show ?thesis using assms(1,6,7) by (simp add: nlogs_def)
qed

lemma nlogs_checkWin: "nlogs s new t \<Longrightarrow> nlogs s new (checkWinCondition t)"
  by (erule nlogs_cong) (simp_all add: checkWinCondition_def)

lemma nlogs_trans:
  assumes "nlogs s n1 t" "nlogs t n2 u"
  shows "nlogs s (n1 @ n2) u"
  using assms logs_trans[of s n1 t n2 u] by (auto simp: nlogs_def)

lemma toggle_not_equal:
  assumes "finite ns"
  shows "\<not> setsEqual ns (toggleNote num ns)"
  using assms by (auto simp: setsEqual_def toggleNote_def)

lemma nlogs_inputNumber:
  assumes ok: "ledger_ok s" and k: "notes_kept s (InputNumber num)"
  shows "\<exists>new. nlogs s new (inputNumber num s)"
proof (cases "selected s")
  case None
  then show ?thesis using nlogs_refl[OF ok] by (auto simp: inputNumber_def)
next
  case (Some p)
  obtain row col where p: "p = (row, col)" by (cases p)
  have sel: "selected s = Some (row, col)" using Some p by simp
  show ?thesis
  proof (cases "isPaused s \<or> isComplete s \<or> initial s ! row ! col \<noteq> 0")
    case True
    then have "inputNumber num s = s" using sel by (auto simp: inputNumber_def)
    then show ?thesis using nlogs_refl[OF ok] by auto
  next
    case False
    show ?thesis
    proof (cases "isNotesMode s")
      case nm: True
      let ?old = "notes' s ! row ! col"
      let ?new = "if num \<in> ?old then ?old - {num} else insert num ?old"
      let ?a = "NoteAction row col ?old ?new"
      let ?s1 = "s\<lparr>notes' := set_notes (notes' s) row col ?new\<rparr>"
      let ?s2 = "addToHistory ?a ?s1"
      have ne: "\<not> setsEqual ?old ?new"
        using k sel nm by (simp add: notes_kept_def toggleNote_def)
      have "nlogs s ([] @ [?a])
              (addToHistory ?a (s\<lparr>board := board s, notes' := set_notes (notes' s) row col ?new\<rparr>))"
        using nlogs_refl[OF ok]
        by (rule nlogs_record) (simp_all add: set_notes_restore)
      then have l2: "nlogs s [?a] ?s2" by simp
      let ?v = "ValueAction row col (board ?s2 ! row ! col) 0"
      let ?s3 = "if board ?s2 ! row ! col \<noteq> 0
                 then addToHistory ?v (?s2\<lparr>board := set_cell (board ?s2) row col 0\<rparr>)
                 else ?s2"
      have "nlogs s ([?a] @ [?v])
          (addToHistory ?v (?s2\<lparr>board := set_cell (board ?s2) row col 0, notes' := notes' ?s2\<rparr>))"
        using l2 by (rule nlogs_record) (simp_all add: set_cell_restore)
      then have "nlogs s [?a, ?v] (addToHistory ?v (?s2\<lparr>board := set_cell (board ?s2) row col 0\<rparr>))"
        by simp
      with l2 obtain n3 where l3: "nlogs s n3 ?s3"
        by (cases "board ?s2 ! row ! col \<noteq> 0") auto
      have "inputNumber num s = checkWinCondition ?s3"
        using sel False nm ne by (simp add: inputNumber_def Let_def)
      with nlogs_checkWin[OF l3] show ?thesis by auto
    next
      case vm: False
      let ?ov = "board s ! row ! col"
      show ?thesis
      proof (cases "?ov = num")
        case True
        let ?a = "ValueAction row col ?ov 0"
        have e: "inputNumber num s = checkWinCondition
            (addToHistory ?a (s\<lparr>board := set_cell (board s) row col 0\<rparr>))"
          using sel False vm True by (simp add: inputNumber_def Let_def)
        have "nlogs s ([] @ [?a])
            (addToHistory ?a (s\<lparr>board := set_cell (board s) row col 0, notes' := notes' s\<rparr>))"
          using nlogs_refl[OF ok] by (rule nlogs_record) (simp_all add: set_cell_restore)
        then have "nlogs s [?a] (addToHistory ?a (s\<lparr>board := set_cell (board s) row col 0\<rparr>))"
          by simp
        then show ?thesis unfolding e using nlogs_checkWin by blast
      next
        case ne: False
        let ?a = "ValueAction row col ?ov num"
        have emp: "notes' s ! row ! col = {}" using k sel vm ne by (simp add: notes_kept_def)
        have e: "inputNumber num s = checkWinCondition
            (addToHistory ?a (s\<lparr>board := set_cell (board s) row col num,
                notes' := set_notes (notes' s) row col {}\<rparr>))"
          using sel False vm ne by (simp add: inputNumber_def Let_def)
        have "nlogs s ([] @ [?a])
            (addToHistory ?a (s\<lparr>board := set_cell (board s) row col num,
                notes' := set_notes (notes' s) row col {}\<rparr>))"
          using nlogs_refl[OF ok]
          by (rule nlogs_record) (simp_all add: set_cell_restore set_notes_same[OF emp])
        then show ?thesis unfolding e using nlogs_checkWin by auto
      qed
    qed
  qed
qed

lemma nlogs_eraseCell:
  assumes ok: "ledger_ok s"
  shows "\<exists>new. nlogs s new (eraseCell s)"
proof (cases "eraseCell s = s")
  case True
  then show ?thesis using nlogs_refl[OF ok] by auto
next
  case False
  then obtain row col where sel: "selected s = Some (row, col)"
    by (cases "selected s") (auto simp: eraseCell_def)
  let ?a = "EraseAction row col (board s ! row ! col) (notes' s ! row ! col)"
  from False have e: "eraseCell s = addToHistory ?a
      (s\<lparr>board := set_cell (board s) row col 0, notes' := set_notes (notes' s) row col {}\<rparr>)"
    using sel by (auto simp: eraseCell_def Let_def split: if_splits)
  have "nlogs s ([] @ [?a])
     (addToHistory ?a (s\<lparr>board := set_cell (board s) row col 0,
        notes' := set_notes (notes' s) row col {}\<rparr>))"
    using nlogs_refl[OF ok]
    by (rule nlogs_record) (simp_all add: set_cell_restore set_notes_restore)
  then show ?thesis unfolding e by auto
qed

lemma nlogs_giveHint:
  assumes ok: "ledger_ok s" and k: "notes_kept s (GiveHint u)"
  shows "\<exists>new. nlogs s new (giveHint u s)"
proof (cases "giveHint u s = s")
  case True
  then show ?thesis using nlogs_refl[OF ok] by auto
next
  case False
  let ?cs = "filter (\<lambda>(r, c). board s ! r ! c \<noteq> solution s ! r ! c) allPositions"
  obtain row col where rc: "?cs ! (u mod length ?cs) = (row, col)"
    by (cases "?cs ! (u mod length ?cs)")
  let ?a = "HintAction row col (board s ! row ! col) (solution s ! row ! col)"
  let ?t = "s\<lparr>board := set_cell (board s) row col (solution s ! row ! col),
              notes' := set_notes (notes' s) row col {},
              hintsRemaining := hintsRemaining s - 1\<rparr>"
  from False have g: "\<not> (hintsRemaining s \<le> 0 \<or> isPaused s \<or> isComplete s)" "?cs \<noteq> []"
    by (auto simp: giveHint_def Let_def split: if_splits)
  have emp: "notes' s ! row ! col = {}"
    using k g(2) rc unfolding notes_kept_def Let_def by (simp only: event.case) simp
  have e: "giveHint u s = checkWinCondition (addToHistory ?a ?t)"
    unfolding giveHint_def Let_def using g by (simp only: if_False rc prod.case)
  have "nlogs s ([] @ [?a])
     (addToHistory ?a ((s\<lparr>hintsRemaining := hintsRemaining s - 1\<rparr>)
        \<lparr>board := set_cell (board s) row col (solution s ! row ! col),
         notes' := set_notes (notes' s) row col {}\<rparr>))"
    using nlogs_refl[OF ok]
    by (rule nlogs_record) (simp_all add: set_cell_restore set_notes_same[OF emp])
  moreover have "(s\<lparr>hintsRemaining := hintsRemaining s - 1\<rparr>)
        \<lparr>board := set_cell (board s) row col (solution s ! row ! col),
         notes' := set_notes (notes' s) row col {}\<rparr> = ?t"
    by (cases s) simp
  ultimately have "nlogs s [?a] (addToHistory ?a ?t)" by simp
  then show ?thesis unfolding e using nlogs_checkWin by blast
qed

lemma nlogs_handle:
  assumes "ledger_ok s" "edit_event e" "notes_kept s e"
  shows "\<exists>new. nlogs s new (handle e s)"
proof (cases e)
  case (SelectCell row col)
  have "nlogs s [] (selectCell row col s)"
    using assms(1) by (intro nlogs_same) (simp_all add: selectCell_def)
  then show ?thesis using SelectCell by auto
next
  case (InputNumber num)
  then show ?thesis using nlogs_inputNumber[OF assms(1)] assms(3) by simp
next
  case EraseCell
  then show ?thesis using nlogs_eraseCell[OF assms(1)] by simp
next
  case ToggleNotesMode
  have "nlogs s [] (toggleNotesMode s)"
    using assms(1) by (intro nlogs_same) (simp_all add: toggleNotesMode_def)
  then show ?thesis using ToggleNotesMode by auto
next
  case (GiveHint u)
  then show ?thesis using nlogs_giveHint[OF assms(1)] assms(3) by simp
next
  case Undo
  with assms(2) show ?thesis by (simp add: edit_event_def)
next
  case Redo
  with assms(2) show ?thesis by (simp add: edit_event_def)
next
  case TogglePause
  have "nlogs s [] (togglePause s)"
    using assms(1) by (intro nlogs_same) (simp_all add: togglePause_def)
  then show ?thesis using TogglePause by auto
next
  case AutoSolve
  with assms(2) show ?thesis by (simp add: edit_event_def)
qed

lemma run_Cons: "run (e # es) s = run es (handle e s)"
  by (simp add: run_def)

lemma nlogs_run:
  assumes "ledger_ok s" "list_all edit_event es" "notes_kept_run es s"
  shows "\<exists>new. nlogs s new (run es s)"
  using assms
proof (induction es arbitrary: s)
  case Nil
  then show ?case using nlogs_refl by (auto simp: run_def)
next
  case (Cons e es)
  then obtain n1 where l1: "nlogs s n1 (handle e s)"
    using nlogs_handle[of s e] by auto
  then have "ledger_ok (handle e s)" by (simp add: nlogs_def logs_def)
  with Cons obtain n2 where "nlogs (handle e s) n2 (run es (handle e s))" by auto
  with l1 have "nlogs s (n1 @ n2) (run (e # es) s)"
    unfolding run_Cons by (rule nlogs_trans)
  then show ?case by blast
qed

lemma undo_step:
  assumes "active s" "ledger_ok s" "applied s = H @ [a]"
  shows "undo s = applyAction a True (s\<lparr>historyIndex := historyIndex s - 1\<rparr>)"
proof -
  let ?p = "nat (historyIndex s + 1)"
  have len: "?p = length H + 1" using length_applied[OF assms(2)] assms(3) by simp
  then have i0: "0 \<le> historyIndex s" by linarith
  have ni: "nat (historyIndex s) = length H" using len i0 by linarith
  have "history s ! nat (historyIndex s) = applied s ! nat (historyIndex s)"
    unfolding applied_def using len ni by simp
  also have "\<dots> = a" unfolding assms(3) ni by simp
  finally have "history s ! nat (historyIndex s) = a" .
  then show ?thesis using assms(1) i0 by (simp add: undo_def active_def Let_def)
qed

lemma undo_iter_notes:
  assumes "active s" "ledger_ok s" "applied s = H @ N"
  shows "notes' ((undo ^^ length N) s) = foldr revNotes N (notes' s)"
  using assms
proof (induction N arbitrary: s rule: rev_induct)
  case Nil
  then show ?case by simp
next
  case (snoc a N)
  let ?s1 = "undo s"
  have ap: "applied s = (H @ N) @ [a]" using snoc.prems(3) by simp
  have u: "?s1 = applyAction a True (s\<lparr>historyIndex := historyIndex s - 1\<rparr>)"
    using snoc.prems(1,2) ap by (rule undo_step)
  from undo_iter[OF snoc.prems(1,2) ap]
  have f: "active ?s1" "ledger_ok ?s1" "applied ?s1 = H @ N" by simp_all
  from snoc.IH[OF f]
  have "notes' ((undo ^^ length N) ?s1) = foldr revNotes N (revNotes a (notes' s))"
    unfolding u by simp
  moreover have "(undo ^^ length (N @ [a])) s = (undo ^^ length N) ?s1"
    by (simp add: funpow_swap1)
  ultimately show ?case by simp
qed

lemma redo_step:
  assumes "active s" "ledger_ok s" "history s = applied s @ a # T"
  shows "redo s = applyAction a False (s\<lparr>historyIndex := historyIndex s + 1\<rparr>)"
proof -
  let ?p = "nat (historyIndex s + 1)"
  have lp: "length (applied s) = ?p" using length_applied[OF assms(2)] .
  have len: "length (history s) = ?p + Suc (length T)"
    using arg_cong[OF assms(3), of length] lp by simp
  have i1: "- 1 \<le> historyIndex s" using assms(2) by (simp add: ledger_ok_def)
  have g: "\<not> int (length (history s)) - 1 \<le> historyIndex s" using len i1 by linarith
  have "history s ! ?p = (applied s @ a # T) ! length (applied s)" using assms(3) lp by simp
  then have "history s ! ?p = a" by simp
  then show ?thesis using assms(1) g by (simp add: redo_def active_def Let_def)
qed

lemma redo_iter_notes:
  assumes "active s" "ledger_ok s" "history s = applied s @ N @ T"
  shows "notes' ((redo ^^ length N) s) = nreplay (notes' s) N"
  using assms
proof (induction N arbitrary: s)
  case Nil
  then show ?case by simp
next
  case (Cons a N)
  let ?s1 = "redo s"
  have h: "history s = applied s @ a # (N @ T)" using Cons.prems(3) by simp
  have u: "?s1 = applyAction a False (s\<lparr>historyIndex := historyIndex s + 1\<rparr>)"
    using Cons.prems(1,2) h by (rule redo_step)
  have h1: "history s = applied s @ [a] @ (N @ T)" using h by simp
  from redo_iter[OF Cons.prems(1,2) h1]
  have r: "applied ?s1 = applied s @ [a]" "history ?s1 = history s" "ledger_ok ?s1" by simp_all
  have act1: "active ?s1" using Cons.prems(1) unfolding u by (simp add: active_def)
  have h2: "history ?s1 = applied ?s1 @ N @ T" using r h by simp
  from Cons.IH[OF act1 r(3) h2]
  have "notes' ((redo ^^ length N) ?s1) = nreplay (fwdNotes a (notes' s)) N"
    unfolding u by simp
  moreover have "(redo ^^ length (a # N)) s = (redo ^^ length N) ?s1"
    by (simp add: funpow_swap1)
  ultimately show ?case by simp
qed

lemma undo_redo_notes:
  assumes ok: "ledger_ok s0" and es: "list_all edit_event es" and act: "active (run es s0)"
    and kept: "notes_kept_run es s0"
  defines "sk \<equiv> run es s0"
  defines "M \<equiv> nat (historyIndex sk - historyIndex s0)"
  shows "notes' ((undo ^^ M) sk) = notes' s0 \<and>
         notes' ((redo ^^ M) ((undo ^^ M) sk)) = notes' sk"
proof -
  obtain N where nl: "nlogs s0 N sk" using nlogs_run[OF ok es kept] unfolding sk_def by blast
  then have l: "logs s0 N sk" and co: "ncoherent (notes' s0) N"
    and fw: "nreplay (notes' s0) N = notes' sk"
    by (simp_all add: nlogs_def)
  from l have ap: "applied sk = applied s0 @ N" and okk: "ledger_ok sk"
    by (simp_all add: logs_def)
  have rv: "foldr revNotes N (notes' sk) = notes' s0"
    using ncoherent_foldr[OF co] fw by simp
  have "nat (historyIndex sk + 1) = nat (historyIndex s0 + 1) + length N"
    using length_applied[OF okk] length_applied[OF ok] ap by simp
  then have M: "M = length N"
    unfolding M_def using ok okk by (simp add: ledger_ok_def; linarith)
  let ?u = "(undo ^^ length N) sk"
  have un: "notes' ?u = notes' s0"
    using undo_iter_notes[OF act[folded sk_def] okk ap] rv by simp
  from undo_iter[OF act[folded sk_def] okk ap]
  have u: "applied ?u = applied s0" "history ?u = history sk" "ledger_ok ?u" "active ?u"
    by simp_all
  have "history sk = applied sk @ drop (nat (historyIndex sk + 1)) (history sk)"
    by (simp add: applied_def)
  then have hu: "history ?u = applied ?u @ N @ drop (nat (historyIndex sk + 1)) (history sk)"
    using u(1,2) ap by simp
  have "notes' ((redo ^^ length N) ?u) = notes' sk"
    using redo_iter_notes[OF u(4,3) hu] un fw by simp
  then show ?thesis unfolding M using un by simp
qed

lemma ncoherent_applied: "ncoherent n0 (history s) \<Longrightarrow> ncoherent n0 (applied s)"
proof -
  assume c: "ncoherent n0 (history s)"
  have "history s = applied s @ drop (nat (historyIndex s + 1)) (history s)"
    by (simp add: applied_def)
  with c have "ncoherent n0 (applied s @ drop (nat (historyIndex s + 1)) (history s))" by simp
  then show ?thesis unfolding ncoherent_append by simp
qed

lemma nsynced_logs:
  assumes "nsynced n0 s" "nlogs s new s'"
  shows "nsynced n0 s'"
proof -
  from assms(2) have l: "logs s new s'" and co: "ncoherent (notes' s) new"
    and rp: "nreplay (notes' s) new = notes' s'" by (simp_all add: nlogs_def)
  from l have ap: "applied s' = applied s @ new" and ok: "ledger_ok s'"
    and h: "new = [] \<Longrightarrow> history s' = history s" "new \<noteq> [] \<Longrightarrow> history s' = applied s'"
    by (simp_all add: logs_def)
  from assms(1) have b: "notes' s = nreplay n0 (applied s)" and c0: "ncoherent n0 (history s)"
    by (simp_all add: nsynced_def)
  have "notes' s' = nreplay n0 (applied s')" using rp b ap by simp
  moreover have "ncoherent n0 (history s')"
  proof (cases "new = []")
    case True
    then show ?thesis using h(1) c0 by simp
  next
    case False
    then show ?thesis using h(2) ap ncoherent_applied[OF c0] co b by simp
  qed
  ultimately show ?thesis using ok by (simp add: nsynced_def)
qed

lemma nsynced_undo:
  assumes "nsynced n0 s"
  shows "nsynced n0 (undo s)"
proof (cases "historyIndex s < 0 \<or> isPaused s \<or> isComplete s")
  case True
  then show ?thesis using assms by (simp add: undo_def)
next
  case False
  let ?n = "nat (historyIndex s)"
  let ?a = "history s ! ?n"
  let ?s1 = "applyAction ?a True (s\<lparr>historyIndex := historyIndex s - 1\<rparr>)"
  from assms have ok: "ledger_ok s" and c0: "ncoherent n0 (history s)"
    and b: "notes' s = nreplay n0 (applied s)" by (simp_all add: nsynced_def)
  have n: "?n < length (history s)" using ok False by (simp add: ledger_ok_def; linarith)
  have u: "undo s = ?s1" using False by (simp add: undo_def Let_def)
  have n1: "nat (historyIndex s + 1) = Suc ?n" using False by linarith
  have ap: "applied s = take ?n (history s) @ [?a]"
    unfolding applied_def n1 using n by (simp add: take_Suc_conv_app_nth)
  have ap1: "applied ?s1 = take ?n (history s)" by (simp add: applied_def)
  have "history s = take ?n (history s) @ ?a # drop (Suc ?n) (history s)"
    using n by (rule id_take_nth_drop)
  then have "ncoherent n0 (take ?n (history s) @ ?a # drop (Suc ?n) (history s))"
    using c0 by simp
  then have r: "revNotes ?a (fwdNotes ?a (nreplay n0 (take ?n (history s))))
      = nreplay n0 (take ?n (history s))"
    unfolding ncoherent_append by simp
  have "notes' ?s1 = nreplay n0 (applied ?s1)"
    unfolding ap1 using b ap r by simp
  moreover have "ledger_ok ?s1" using ok False by (simp add: ledger_ok_def)
  ultimately show ?thesis unfolding u using c0 by (simp add: nsynced_def)
qed

lemma nsynced_redo:
  assumes "nsynced n0 s"
  shows "nsynced n0 (redo s)"
proof (cases "int (length (history s)) - 1 \<le> historyIndex s \<or> isPaused s \<or> isComplete s")
  case True
  then show ?thesis using assms by (simp add: redo_def)
next
  case False
  let ?n = "nat (historyIndex s + 1)"
  let ?a = "history s ! ?n"
  let ?s1 = "applyAction ?a False (s\<lparr>historyIndex := historyIndex s + 1\<rparr>)"
  from assms have ok: "ledger_ok s" and c0: "ncoherent n0 (history s)"
    and b: "notes' s = nreplay n0 (applied s)" by (simp_all add: nsynced_def)
  have n: "?n < length (history s)" using ok False by (simp add: ledger_ok_def; linarith)
  have u: "redo s = ?s1" using False by (simp add: redo_def Let_def)
  have n1: "nat (historyIndex s + 1 + 1) = Suc ?n" using ok by (simp add: ledger_ok_def; linarith)
  have "applied ?s1 = take (nat (historyIndex s + 1 + 1)) (history s)"
    by (simp add: applied_def add.commute add.left_commute)
  then have ap1: "applied ?s1 = applied s @ [?a]"
    unfolding n1 applied_def using n by (simp add: take_Suc_conv_app_nth)
  have "notes' ?s1 = nreplay n0 (applied ?s1)"
    unfolding ap1 using b by simp
  moreover have "ledger_ok ?s1" using ok False by (simp add: ledger_ok_def; linarith)
  ultimately show ?thesis unfolding u using c0 by (simp add: nsynced_def)
qed

lemma nsynced_handle:
  assumes "nsynced n0 s" "plain_event e" "notes_kept s e"
  shows "nsynced n0 (handle e s)"
proof (cases "edit_event e")
  case True
  from assms(1) have "ledger_ok s" by (simp add: nsynced_def)
  then obtain new where "nlogs s new (handle e s)" using nlogs_handle True assms(3) by blast
  with assms(1) show ?thesis by (rule nsynced_logs)
next
  case False
  then have "e = Undo \<or> e = Redo"
    using assms(2) by (cases e) (simp_all add: edit_event_def plain_event_def)
  then show ?thesis using nsynced_undo[OF assms(1)] nsynced_redo[OF assms(1)] by auto
qed

lemma nsynced_run:
  assumes "nsynced n0 s" "list_all plain_event es" "notes_kept_run es s"
  shows "nsynced n0 (run es s)"
  using assms
proof (induction es arbitrary: s)
  case Nil
  then show ?case by (simp add: run_def)
next
  case (Cons e es)
  then have "nsynced n0 (handle e s)" using nsynced_handle[of n0 s e] by simp
  with Cons show ?case unfolding run_Cons by simp
qed

lemma nsynced_newGameState:
  "nsynced (replicate 9 (replicate 9 {})) (newGameState puzzle sol d)"
  by (simp add: nsynced_def newGameState_def ledger_ok_def applied_def)

lemma notes_kept_undo_redo: "undo_redo_event e \<Longrightarrow> notes_kept s e"
  by (auto simp: undo_redo_event_def notes_kept_def)

lemma notes_kept_run_undo_redo: "list_all undo_redo_event ur \<Longrightarrow> notes_kept_run ur s"
  by (induction ur arbitrary: s) (simp_all add: notes_kept_undo_redo)

lemma notes_kept_run_append:
  "notes_kept_run (es @ fs) s = (notes_kept_run es s \<and> notes_kept_run fs (run es s))"
  by (induction es arbitrary: s) (simp_all add: run_def)

lemma run_append: "run (es @ fs) s = run fs (run es s)"
  by (simp add: run_def)

lemma notes_by_index:
  assumes pre: "list_all plain_event pre" and es: "list_all edit_event es"
    and ur: "list_all undo_redo_event ur"
    and kept: "notes_kept_run (pre @ es) (newGameState puzzle sol d)"
  defines "s0 \<equiv> run pre (newGameState puzzle sol d)"
  defines "sk \<equiv> run es (run pre (newGameState puzzle sol d))"
  defines "s \<equiv> run ur (run es (run pre (newGameState puzzle sol d)))"
  shows "historyIndex s = historyIndex s0 \<Longrightarrow> notes' s = notes' s0"
    and "historyIndex s = historyIndex sk \<Longrightarrow> notes' s = notes' sk"
proof -
  let ?n0 = "replicate 9 (replicate 9 {}) :: notes_grid"
  have k: "notes_kept_run pre (newGameState puzzle sol d)" "notes_kept_run es s0"
    using kept unfolding s0_def notes_kept_run_append by simp_all
  have sy0: "nsynced ?n0 s0"
    unfolding s0_def using nsynced_newGameState pre k(1) by (rule nsynced_run)
  have ok0: "ledger_ok s0" using sy0 by (simp add: nsynced_def)
  have syk: "nsynced ?n0 sk"
    unfolding sk_def using sy0[unfolded s0_def] _ k(2)[unfolded s0_def]
    by (rule nsynced_run) (use es edit_plain in \<open>auto simp: list_all_iff\<close>)
  have sys: "nsynced ?n0 s"
    unfolding s_def using syk[unfolded sk_def] _ notes_kept_run_undo_redo[OF ur]
    by (rule nsynced_run) (use ur undo_redo_plain in \<open>auto simp: list_all_iff\<close>)
  obtain N where "logs s0 N sk" using logs_run[OF ok0 es] unfolding sk_def s0_def by blast
  then have ap: "applied sk = applied s0 @ N" by (simp add: logs_def)
  have h: "history s = history sk"
    unfolding s_def sk_def using ur by (rule history_run_undo_redo)
  have bs: "notes' s = nreplay ?n0 (applied s)" using sys by (simp add: nsynced_def)
  have bk: "notes' sk = nreplay ?n0 (applied sk)" using syk by (simp add: nsynced_def)
  have b0: "notes' s0 = nreplay ?n0 (applied s0)" using sy0 by (simp add: nsynced_def)
  {
    assume "historyIndex s = historyIndex sk"
    then have "applied s = applied sk" using h by (simp add: applied_def)
    then show "notes' s = notes' sk" using bs bk by simp
  }
  {
    assume i: "historyIndex s = historyIndex s0"
    have "applied s = take (nat (historyIndex s0 + 1)) (history sk)"
      using i h by (simp add: applied_def)
    also have "\<dots> = take (nat (historyIndex s0 + 1)) (take (nat (historyIndex sk + 1)) (history sk))"
    proof -
      have "length (applied sk) = length (applied s0) + length N" using ap by simp
      then have "nat (historyIndex s0 + 1) \<le> nat (historyIndex sk + 1)"
        using length_applied[OF ok0] length_applied[of sk] syk by (simp add: nsynced_def)
      then show ?thesis by (simp add: min_def)
    qed
    also have "\<dots> = take (length (applied s0)) (applied s0 @ N)"
      using ap length_applied[OF ok0] by (simp add: applied_def)
    also have "\<dots> = applied s0" by simp
    finally show "notes' s = notes' s0" using bs b0 by simp
  }
qed

section \<open>The undo and redo stacks of \<open>sudoku-pwa/script.js\<close>\<close>

lemma pwa_replay_simps [simp]:
  "pwa_replay b [] = b"
  "pwa_replay b (m # ms) = pwa_replay (pwa_fwdBoard m b) ms"
  "pwa_replay b (ms @ ns) = pwa_replay (pwa_replay b ms) ns"
  by (simp_all add: pwa_replay_def)

lemma pwa_coherent_append [simp]:
  "pwa_coherent b (ms @ ns) = (pwa_coherent b ms \<and> pwa_coherent (pwa_replay b ms) ns)"
  by (induction ms arbitrary: b) auto

lemma pwa_coherent_foldr:
  "pwa_coherent b ms \<Longrightarrow> foldr pwa_revBoard ms (pwa_replay b ms) = b"
  by (induction ms arbitrary: b) auto

lemma pwa_logs_refl: "pwa_logs s [] s"
  by (simp add: pwa_logs_def)

lemma pwa_logs_same:
  "moveHistory s' = moveHistory s \<Longrightarrow> redoStack s' = redoStack s \<Longrightarrow>
   pwa_board s' = pwa_board s \<Longrightarrow> pwa_logs s [] s'"
  by (simp add: pwa_logs_def)

lemma pwa_logs_trans:
  "pwa_logs s n1 t \<Longrightarrow> pwa_logs t n2 u \<Longrightarrow> pwa_logs s (n1 @ n2) u"
  by (auto simp: pwa_logs_def)

lemma pwa_checkWin_fields [simp]:
  "moveHistory (pwa_checkWin s) = moveHistory s"
  "pwa_board (pwa_checkWin s) = pwa_board s"
  "redoStack (pwa_checkWin s) = redoStack s"
  by (simp_all add: pwa_checkWin_def)

lemma pwa_logs_edit:
  assumes "moveRow m = row" "moveCol m = col" "oldValue m = pwa_board s ! row ! col"
    "newValue m = v"
  shows "pwa_logs s [m] (pwa_checkWin
       (s\<lparr>pwa_board := set_cell (pwa_board s) row col v, pwa_notes := n,
          moveHistory := moveHistory s @ [m], redoStack := []\<rparr>))"
  using assms by (simp add: pwa_logs_def pwa_revBoard_def pwa_fwdBoard_def set_cell_restore)

lemma pwa_logs_inputNumber: "\<exists>new. pwa_logs s new (pwa_inputNumber num s) \<and> length new \<le> 1"
proof (cases "pwa_selected s = None \<or> pwa_isPaused s \<or> pwa_isComplete s \<or>
     (\<exists>row col. pwa_selected s = Some (row, col) \<and> pwa_initial s ! row ! col \<noteq> 0)")
  case True
  then have "pwa_inputNumber num s = s" by (rule pwa_inputNumber_idle)
  then show ?thesis using pwa_logs_refl[of s] by (intro exI[of _ "[]"]) simp
next
  case False
  then obtain row col where sel: "pwa_selected s = Some (row, col)"
    and f: "\<not> pwa_isPaused s" "\<not> pwa_isComplete s" "pwa_initial s ! row ! col = 0"
    by (cases "pwa_selected s") auto
  show ?thesis
  proof (cases "pwa_isNotesMode s")
    case True
    have "pwa_logs s [pwa_noteEntry num s row col] (pwa_inputNumber num s)"
      unfolding pwa_inputNumber_note[OF sel f True]
      by (rule pwa_logs_edit) (simp_all add: pwa_noteEntry_def)
    then show ?thesis by (intro exI[of _ "[pwa_noteEntry num s row col]"]) simp
  next
    case nm: False
    show ?thesis
    proof (cases "pwa_board s ! row ! col = num")
      case True
      have e: "s\<lparr>pwa_board := set_cell (pwa_board s) row col 0,
          moveHistory := moveHistory s @ [pwa_valueEntry num s row col], redoStack := []\<rparr>
        = s\<lparr>pwa_board := set_cell (pwa_board s) row col 0, pwa_notes := pwa_notes s,
          moveHistory := moveHistory s @ [pwa_valueEntry num s row col], redoStack := []\<rparr>"
        by simp
      have "pwa_logs s [pwa_valueEntry num s row col] (pwa_inputNumber num s)"
        unfolding pwa_inputNumber_off[OF sel f nm True] e
        by (rule pwa_logs_edit) (simp_all add: pwa_valueEntry_def True)
      then show ?thesis by (intro exI[of _ "[pwa_valueEntry num s row col]"]) simp
    next
      case False
      have "pwa_logs s [pwa_valueEntry num s row col] (pwa_inputNumber num s)"
        unfolding pwa_inputNumber_set[OF sel f nm False]
        by (rule pwa_logs_edit) (simp_all add: pwa_valueEntry_def False)
      then show ?thesis by (intro exI[of _ "[pwa_valueEntry num s row col]"]) simp
    qed
  qed
qed

lemma pwa_logs_erase: "\<exists>new. pwa_logs s new (pwa_erase s) \<and> length new \<le> 1"
proof (cases "pwa_erase s = s")
  case True
  then show ?thesis using pwa_logs_refl[of s] by (intro exI[of _ "[]"]) simp
next
  case False
  then obtain row col where sel: "pwa_selected s = Some (row, col)"
    by (cases "pwa_selected s") (auto simp: pwa_erase_def)
  let ?m = "\<lparr>moveType = EraseMove, moveRow = row, moveCol = col,
     oldValue = pwa_board s ! row ! col, oldNotes = pwa_notes s ! row ! col,
     newValue = 0, newNotes = Some {}\<rparr>"
  have e: "pwa_erase s = s\<lparr>moveHistory := moveHistory s @ [?m], redoStack := [],
       pwa_board := set_cell (pwa_board s) row col 0,
       pwa_notes := set_notes (pwa_notes s) row col {}\<rparr>"
    using False sel by (auto simp: pwa_erase_def Let_def split: if_splits)
  have "pwa_logs s [?m] (pwa_erase s)"
    unfolding e by (simp add: pwa_logs_def pwa_revBoard_def pwa_fwdBoard_def set_cell_restore)
  then show ?thesis by (intro exI[of _ "[?m]"]) simp
qed

lemma pwa_logs_hint: "\<exists>new. pwa_logs s new (pwa_hint u s) \<and> length new \<le> 1"
proof (cases "pwa_hint u s = s")
  case True
  then show ?thesis using pwa_logs_refl[of s] by (intro exI[of _ "[]"]) simp
next
  case False
  define cands where
    "cands = filter (\<lambda>(r, c). pwa_board s ! r ! c \<noteq> pwa_solution s ! r ! c) allPositions"
  obtain row col where rc: "cands ! (u mod length cands) = (row, col)"
    by (cases "cands ! (u mod length cands)")
  let ?m = "\<lparr>moveType = HintMove, moveRow = row, moveCol = col,
     oldValue = pwa_board s ! row ! col, oldNotes = pwa_notes s ! row ! col,
     newValue = pwa_solution s ! row ! col, newNotes = Some {}\<rparr>"
  have e: "pwa_hint u s = pwa_checkWin (s\<lparr>moveHistory := moveHistory s @ [?m],
       redoStack := [],
       pwa_board := set_cell (pwa_board s) row col (pwa_solution s ! row ! col),
       pwa_notes := set_notes (pwa_notes s) row col {},
       pwa_hintsRemaining := pwa_hintsRemaining s - 1,
       pwa_hintsUsed := pwa_hintsUsed s + 1\<rparr>)"
    using False rc unfolding pwa_hint_def Let_def cands_def
    by (simp split: if_splits)
  have "pwa_logs s [?m] (pwa_hint u s)"
    unfolding e by (simp add: pwa_logs_def pwa_revBoard_def pwa_fwdBoard_def set_cell_restore)
  then show ?thesis by (intro exI[of _ "[?m]"]) simp
qed

lemma pwa_logs_handle:
  assumes "pwa_edit_event e"
  shows "\<exists>new. pwa_logs s new (pwa_handle e s) \<and> length new \<le> 1"
proof (cases e)
  case (PwaInputNumber num)
  then show ?thesis using pwa_logs_inputNumber by simp
next
  case PwaErase
  then show ?thesis using pwa_logs_erase by simp
next
  case (PwaHint u)
  then show ?thesis using pwa_logs_hint by simp
next
  case (PwaSelectCell row col)
  have "pwa_logs s [] (pwa_selectCell row col s)"
    by (rule pwa_logs_same) (simp_all add: pwa_selectCell_def)
  then show ?thesis using PwaSelectCell by (intro exI[of _ "[]"]) simp
next
  case PwaToggleNotes
  have "pwa_logs s [] (pwa_toggleNotes s)"
    by (rule pwa_logs_same) (simp_all add: pwa_toggleNotes_def)
  then show ?thesis using PwaToggleNotes by (intro exI[of _ "[]"]) simp
next
  case PwaTogglePause
  have "pwa_logs s [] (pwa_togglePause s)"
    by (rule pwa_logs_same) (simp_all add: pwa_togglePause_def)
  then show ?thesis using PwaTogglePause by (intro exI[of _ "[]"]) simp
next
  case (PwaSetAutoRemoveNotes b)
  have "pwa_logs s [] (s\<lparr>autoRemoveNotes := b\<rparr>)"
    by (rule pwa_logs_same) simp_all
  then show ?thesis using PwaSetAutoRemoveNotes by (intro exI[of _ "[]"]) simp
qed (use assms in \<open>simp_all add: pwa_edit_event_def\<close>)

lemma pwa_logs_run:
  assumes "list_all pwa_edit_event es"
  shows "\<exists>new. pwa_logs s new (pwa_run es s)"
  using assms
proof (induction es rule: rev_induct)
  case Nil
  then show ?case using pwa_logs_refl by (auto simp: pwa_run_def)
next
  case (snoc e es)
  then obtain n1 where l1: "pwa_logs s n1 (pwa_run es s)" by auto
  have "pwa_edit_event e" using snoc.prems by simp
  then obtain n2 where "pwa_logs (pwa_run es s) n2 (pwa_handle e (pwa_run es s))"
    using pwa_logs_handle by blast
  with l1 have "pwa_logs s (n1 @ n2) (pwa_run (es @ [e]) s)"
    by (simp add: pwa_run_def pwa_logs_trans)
  then show ?case by blast
qed

lemma pwa_undo_iter:
  assumes "pwa_active s" "moveHistory s = H @ N"
  shows "pwa_board ((pwa_undo ^^ length N) s) = foldr pwa_revBoard N (pwa_board s) \<and>
         moveHistory ((pwa_undo ^^ length N) s) = H \<and>
         redoStack ((pwa_undo ^^ length N) s) = redoStack s @ rev N \<and>
         pwa_active ((pwa_undo ^^ length N) s)"
  using assms
proof (induction N arbitrary: s rule: rev_induct)
  case Nil
  then show ?case by simp
next
  case (snoc m N)
  let ?s1 = "s\<lparr>moveHistory := H @ N, redoStack := redoStack s @ [m],
       pwa_board := set_cell (pwa_board s) (moveRow m) (moveCol m) (oldValue m),
       pwa_notes := set_notes (pwa_notes s) (moveRow m) (moveCol m) (oldNotes m)\<rparr>"
  have u: "pwa_undo s = ?s1"
    using snoc.prems by (simp add: pwa_undo_def pwa_active_def Let_def butlast_append)
  have act1: "pwa_active ?s1" using snoc.prems(1) by (simp add: pwa_active_def)
  have h1: "moveHistory ?s1 = H @ N" by simp
  have b1: "pwa_board ?s1 = pwa_revBoard m (pwa_board s)" by (simp add: pwa_revBoard_def)
  from snoc.IH[OF act1 h1] b1
  have "pwa_board ((pwa_undo ^^ length N) ?s1) = foldr pwa_revBoard N (pwa_revBoard m (pwa_board s)) \<and>
        moveHistory ((pwa_undo ^^ length N) ?s1) = H \<and>
        redoStack ((pwa_undo ^^ length N) ?s1) = redoStack s @ m # rev N \<and>
        pwa_active ((pwa_undo ^^ length N) ?s1)"
    by simp
  moreover have "(pwa_undo ^^ length (N @ [m])) s = (pwa_undo ^^ length N) ?s1"
    using u by (simp add: funpow_swap1)
  ultimately show ?case by simp
qed

lemma pwa_redo_iter:
  assumes "pwa_active s" "redoStack s = R @ rev N"
  shows "pwa_board ((pwa_redo ^^ length N) s) = pwa_replay (pwa_board s) N \<and>
         moveHistory ((pwa_redo ^^ length N) s) = moveHistory s @ N \<and>
         redoStack ((pwa_redo ^^ length N) s) = R"
  using assms
proof (induction N arbitrary: s)
  case Nil
  then show ?case by simp
next
  case (Cons m N)
  let ?s1 = "s\<lparr>redoStack := R @ rev N, moveHistory := moveHistory s @ [m],
       pwa_board := set_cell (pwa_board s) (moveRow m) (moveCol m) (newValue m),
       pwa_notes := set_notes (pwa_notes s) (moveRow m) (moveCol m)
                      (case newNotes m of None \<Rightarrow> {} | Some ns \<Rightarrow> ns)\<rparr>"
  have rs: "redoStack s = R @ rev N @ [m]" using Cons.prems(2) by simp
  have bl: "butlast (R @ rev N @ [m]) = R @ rev N" by (simp add: butlast_append)
  have u: "pwa_redo s = ?s1"
    using Cons.prems(1) unfolding pwa_redo_def Let_def rs
    by (simp add: pwa_active_def bl)
  have act1: "pwa_active ?s1" using Cons.prems(1) by (simp add: pwa_active_def)
  have h1: "redoStack ?s1 = R @ rev N" by simp
  have b1: "pwa_board ?s1 = pwa_fwdBoard m (pwa_board s)" by (simp add: pwa_fwdBoard_def)
  from Cons.IH[OF act1 h1] b1
  have "pwa_board ((pwa_redo ^^ length N) ?s1)
          = pwa_replay (pwa_fwdBoard m (pwa_board s)) N \<and>
        moveHistory ((pwa_redo ^^ length N) ?s1) = moveHistory s @ m # N \<and>
        redoStack ((pwa_redo ^^ length N) ?s1) = R"
    by simp
  moreover have "(pwa_redo ^^ length (m # N)) s = (pwa_redo ^^ length N) ?s1"
    using u by (simp add: funpow_swap1)
  ultimately show ?case by simp
qed

lemma pwa_undo_redo_board:
  assumes es: "list_all pwa_edit_event es" and act: "pwa_active (pwa_run es s0)"
  defines "sk \<equiv> pwa_run es s0"
  defines "M \<equiv> length (moveHistory sk) - length (moveHistory s0)"
  shows "pwa_board ((pwa_undo ^^ M) sk) = pwa_board s0 \<and>
         moveHistory ((pwa_undo ^^ M) sk) = moveHistory s0 \<and>
         pwa_board ((pwa_redo ^^ M) ((pwa_undo ^^ M) sk)) = pwa_board sk \<and>
         moveHistory ((pwa_redo ^^ M) ((pwa_undo ^^ M) sk)) = moveHistory sk"
proof -
  obtain N where l: "pwa_logs s0 N sk" using pwa_logs_run[OF es] unfolding sk_def by blast
  then have mh: "moveHistory sk = moveHistory s0 @ N"
    and co: "pwa_coherent (pwa_board s0) N"
    and fw: "pwa_replay (pwa_board s0) N = pwa_board sk"
    by (simp_all add: pwa_logs_def)
  have rv: "foldr pwa_revBoard N (pwa_board sk) = pwa_board s0"
    using pwa_coherent_foldr[OF co] fw by simp
  have M: "M = length N" unfolding M_def mh by simp
  let ?u = "(pwa_undo ^^ length N) sk"
  from pwa_undo_iter[OF act[folded sk_def] mh]
  have u: "pwa_board ?u = pwa_board s0" "moveHistory ?u = moveHistory s0"
    "redoStack ?u = redoStack sk @ rev N" "pwa_active ?u"
    using rv by simp_all
  from pwa_redo_iter[OF u(4,3)]
  have "pwa_board ((pwa_redo ^^ length N) ?u) = pwa_board sk"
    "moveHistory ((pwa_redo ^^ length N) ?u) = moveHistory sk"
    using u(1,2) fw mh by simp_all
  then show ?thesis unfolding M using u(1,2) by simp
qed

lemma pwa_idle:
  assumes "\<not> pwa_active s" "pwa_edit_event e"
  shows "moveHistory (pwa_handle e s) = moveHistory s"
  using assms
  by (cases e)
     (auto simp: pwa_active_def pwa_edit_event_def pwa_inputNumber_def pwa_erase_def
        pwa_hint_def pwa_selectCell_def pwa_toggleNotes_def pwa_togglePause_def
        split: option.splits)

lemma pwa_synced_logs:
  assumes "pwa_synced b0 s" "pwa_logs s new s'"
  shows "pwa_synced b0 s'"
proof (cases "new = []")
  case True
  then show ?thesis using assms by (simp add: pwa_synced_def pwa_logs_def)
next
  case False
  then show ?thesis using assms by (simp add: pwa_synced_def pwa_logs_def)
qed

lemma pwa_synced_undo:
  assumes "pwa_synced b0 s"
  shows "pwa_synced b0 (pwa_undo s)"
proof (cases "moveHistory s = [] \<or> pwa_isPaused s \<or> pwa_isComplete s")
  case True
  then show ?thesis using assms by (simp add: pwa_undo_def)
next
  case False
  then obtain H m where h: "moveHistory s = H @ [m]"
    by (cases "moveHistory s" rule: rev_cases) auto
  have u: "pwa_undo s = s\<lparr>moveHistory := H, redoStack := redoStack s @ [m],
       pwa_board := pwa_revBoard m (pwa_board s),
       pwa_notes := set_notes (pwa_notes s) (moveRow m) (moveCol m) (oldNotes m)\<rparr>"
    using False h by (simp add: pwa_undo_def Let_def pwa_revBoard_def)
  from assms have c: "pwa_coherent b0 (H @ [m] @ rev (redoStack s))"
    and b: "pwa_board s = pwa_fwdBoard m (pwa_replay b0 H)"
    unfolding pwa_synced_def h by simp_all
  from c have "pwa_revBoard m (pwa_fwdBoard m (pwa_replay b0 H)) = pwa_replay b0 H"
    unfolding pwa_coherent_append by simp
  then show ?thesis unfolding u using c b by (simp add: pwa_synced_def)
qed

lemma pwa_synced_redo:
  assumes "pwa_synced b0 s"
  shows "pwa_synced b0 (pwa_redo s)"
proof (cases "redoStack s = [] \<or> pwa_isPaused s \<or> pwa_isComplete s")
  case True
  then show ?thesis using assms by (simp add: pwa_redo_def)
next
  case False
  then obtain R m where h: "redoStack s = R @ [m]"
    by (cases "redoStack s" rule: rev_cases) auto
  have u: "pwa_redo s = s\<lparr>redoStack := R, moveHistory := moveHistory s @ [m],
       pwa_board := pwa_fwdBoard m (pwa_board s),
       pwa_notes := set_notes (pwa_notes s) (moveRow m) (moveCol m)
                      (case newNotes m of None \<Rightarrow> {} | Some ns \<Rightarrow> ns)\<rparr>"
    using False h by (simp add: pwa_redo_def Let_def pwa_fwdBoard_def)
  from assms show ?thesis unfolding u pwa_synced_def h by simp
qed

lemma pwa_synced_handle:
  assumes "pwa_synced b0 s" "pwa_plain_event e"
  shows "pwa_synced b0 (pwa_handle e s)"
proof (cases "pwa_edit_event e")
  case True
  then obtain new where "pwa_logs s new (pwa_handle e s)" using pwa_logs_handle by blast
  with assms(1) show ?thesis by (rule pwa_synced_logs)
next
  case False
  then have "e = PwaUndo \<or> e = PwaRedo"
    using assms(2) by (cases e) (simp_all add: pwa_edit_event_def pwa_plain_event_def)
  then show ?thesis using pwa_synced_undo[OF assms(1)] pwa_synced_redo[OF assms(1)] by auto
qed

lemma pwa_synced_run:
  assumes "pwa_synced b0 s" "list_all pwa_plain_event es"
  shows "pwa_synced b0 (pwa_run es s)"
  using assms(2)
proof (induction es rule: rev_induct)
  case Nil
  then show ?case using assms(1) by (simp add: pwa_run_def)
next
  case (snoc e es)
  then have "pwa_synced b0 (pwa_run es s)" "pwa_plain_event e" by simp_all
  then have "pwa_synced b0 (pwa_handle e (pwa_run es s))" by (rule pwa_synced_handle)
  then show ?case by (simp add: pwa_run_def)
qed

lemma pwa_synced_newGameState: "pwa_synced puzzle (pwa_newGameState puzzle sol d ar)"
  by (simp add: pwa_synced_def pwa_newGameState_def)

lemma pwa_tape_undo_redo:
  "moveHistory (pwa_undo s) @ rev (redoStack (pwa_undo s)) = moveHistory s @ rev (redoStack s)"
  "moveHistory (pwa_redo s) @ rev (redoStack (pwa_redo s)) = moveHistory s @ rev (redoStack s)"
proof -
  show "moveHistory (pwa_undo s) @ rev (redoStack (pwa_undo s)) = moveHistory s @ rev (redoStack s)"
    by (cases "moveHistory s" rule: rev_cases) (simp_all add: pwa_undo_def Let_def)
  show "moveHistory (pwa_redo s) @ rev (redoStack (pwa_redo s)) = moveHistory s @ rev (redoStack s)"
    by (cases "redoStack s" rule: rev_cases) (simp_all add: pwa_redo_def Let_def)
qed

lemma pwa_tape_run:
  assumes "list_all pwa_undo_redo_event ur"
  shows "moveHistory (pwa_run ur s) @ rev (redoStack (pwa_run ur s))
           = moveHistory s @ rev (redoStack s)"
  using assms
proof (induction ur rule: rev_induct)
  case Nil
  then show ?case by (simp add: pwa_run_def)
next
  case (snoc e ur)
  then have "e = PwaUndo \<or> e = PwaRedo" by (simp add: pwa_undo_redo_event_def)
  then have "moveHistory (pwa_handle e (pwa_run ur s)) @ rev (redoStack (pwa_handle e (pwa_run ur s)))
      = moveHistory (pwa_run ur s) @ rev (redoStack (pwa_run ur s))"
    using pwa_tape_undo_redo by auto
  with snoc show ?case by (simp add: pwa_run_def)
qed

lemma pwa_board_by_length:
  assumes sy: "pwa_synced b0 s0" and es: "list_all pwa_edit_event es"
    and ur: "list_all pwa_undo_redo_event ur"
  defines "sk \<equiv> pwa_run es s0"
  defines "s \<equiv> pwa_run ur (pwa_run es s0)"
  shows "length (moveHistory s) = length (moveHistory s0) \<Longrightarrow> pwa_board s = pwa_board s0"
    and "length (moveHistory s) = length (moveHistory sk) \<Longrightarrow> pwa_board s = pwa_board sk"
proof -
  obtain N where l: "pwa_logs s0 N sk" using pwa_logs_run[OF es] unfolding sk_def by blast
  then have mh: "moveHistory sk = moveHistory s0 @ N" by (simp add: pwa_logs_def)
  have syk: "pwa_synced b0 sk" using sy l by (rule pwa_synced_logs)
  have plain: "list_all pwa_plain_event ur"
    using ur by (auto simp: list_all_iff pwa_undo_redo_event_def pwa_plain_event_def)
  have sys: "pwa_synced b0 s"
    unfolding s_def using syk[unfolded sk_def] plain by (rule pwa_synced_run)
  have tape: "moveHistory s @ rev (redoStack s) = moveHistory sk @ rev (redoStack sk)"
    unfolding s_def sk_def using ur by (rule pwa_tape_run)
  have bs: "pwa_board s = pwa_replay b0 (moveHistory s)" using sys by (simp add: pwa_synced_def)
  have bk: "pwa_board sk = pwa_replay b0 (moveHistory sk)" using syk by (simp add: pwa_synced_def)
  have b0: "pwa_board s0 = pwa_replay b0 (moveHistory s0)" using sy by (simp add: pwa_synced_def)
  {
    assume "length (moveHistory s) = length (moveHistory sk)"
    with tape have "moveHistory s = moveHistory sk" by (simp add: append_eq_append_conv)
    then show "pwa_board s = pwa_board sk" using bs bk by simp
  }
  {
    assume "length (moveHistory s) = length (moveHistory s0)"
    moreover have "moveHistory s @ rev (redoStack s) = moveHistory s0 @ N @ rev (redoStack sk)"
      using tape mh by simp
    ultimately have "moveHistory s = moveHistory s0" by (simp add: append_eq_append_conv)
    then show "pwa_board s = pwa_board s0" using bs b0 by simp
  }
qed

section \<open>The notes under undo and redo, \<open>sudoku-pwa/script.js\<close>\<close>

lemma pwa_nreplay_simps [simp]:
  "pwa_nreplay n [] = n"
  "pwa_nreplay n (m # ms) = pwa_nreplay (pwa_fwdNotes m n) ms"
  "pwa_nreplay n (ms @ ns) = pwa_nreplay (pwa_nreplay n ms) ns"
  by (simp_all add: pwa_nreplay_def)

lemma pwa_ncoherent_append [simp]:
  "pwa_ncoherent n (ms @ ns) = (pwa_ncoherent n ms \<and> pwa_ncoherent (pwa_nreplay n ms) ns)"
  by (induction ms arbitrary: n) auto

lemma pwa_ncoherent_foldr:
  "pwa_ncoherent n ms \<Longrightarrow> foldr pwa_revNotes ms (pwa_nreplay n ms) = n"
  by (induction ms arbitrary: n) auto

lemma pwa_checkWin_notes [simp]: "pwa_notes (pwa_checkWin s) = pwa_notes s"
  by (simp add: pwa_checkWin_def)

lemma pwa_nlogs_refl: "pwa_nlogs s [] s"
  by (simp add: pwa_nlogs_def pwa_logs_refl)

lemma pwa_nlogs_same:
  "moveHistory s' = moveHistory s \<Longrightarrow> redoStack s' = redoStack s \<Longrightarrow>
   pwa_board s' = pwa_board s \<Longrightarrow> pwa_notes s' = pwa_notes s \<Longrightarrow> pwa_nlogs s [] s'"
  by (simp add: pwa_nlogs_def pwa_logs_same)

lemma pwa_nlogs_trans:
  "pwa_nlogs s n1 t \<Longrightarrow> pwa_nlogs t n2 u \<Longrightarrow> pwa_nlogs s (n1 @ n2) u"
  using pwa_logs_trans[of s n1 t n2 u] by (auto simp: pwa_nlogs_def)

lemma pwa_nlogs_edit:
  assumes "moveRow m = row" "moveCol m = col" "oldValue m = pwa_board s ! row ! col"
    "newValue m = v" "oldNotes m = pwa_notes s ! row ! col"
    "n = set_notes (pwa_notes s) row col (case newNotes m of None \<Rightarrow> {} | Some ns \<Rightarrow> ns)"
  shows "pwa_nlogs s [m] (pwa_checkWin
       (s\<lparr>pwa_board := set_cell (pwa_board s) row col v, pwa_notes := n,
          moveHistory := moveHistory s @ [m], redoStack := []\<rparr>))"
  unfolding pwa_nlogs_def
  using pwa_logs_edit[OF assms(1-4), of n] assms
  by (simp add: pwa_revNotes_def pwa_fwdNotes_def set_notes_restore)

lemma pwa_nlogs_inputNumber:
  assumes k: "pwa_notes_kept s (PwaInputNumber num)"
  shows "\<exists>new. pwa_nlogs s new (pwa_inputNumber num s)"
proof (cases "pwa_selected s = None \<or> pwa_isPaused s \<or> pwa_isComplete s \<or>
     (\<exists>row col. pwa_selected s = Some (row, col) \<and> pwa_initial s ! row ! col \<noteq> 0)")
  case True
  then have "pwa_inputNumber num s = s" by (rule pwa_inputNumber_idle)
  then show ?thesis using pwa_nlogs_refl[of s] by auto
next
  case False
  then obtain row col where sel: "pwa_selected s = Some (row, col)"
    and f: "\<not> pwa_isPaused s" "\<not> pwa_isComplete s" "pwa_initial s ! row ! col = 0"
    by (cases "pwa_selected s") auto
  show ?thesis
  proof (cases "pwa_isNotesMode s")
    case True
    have "pwa_nlogs s [pwa_noteEntry num s row col] (pwa_inputNumber num s)"
      unfolding pwa_inputNumber_note[OF sel f True]
      by (rule pwa_nlogs_edit) (simp_all add: pwa_noteEntry_def)
    then show ?thesis by blast
  next
    case nm: False
    show ?thesis
    proof (cases "pwa_board s ! row ! col = num")
      case True
      have emp: "pwa_notes s ! row ! col = {}"
        using k sel nm True by (simp add: pwa_notes_kept_def)
      have e: "s\<lparr>pwa_board := set_cell (pwa_board s) row col 0,
          moveHistory := moveHistory s @ [pwa_valueEntry num s row col], redoStack := []\<rparr>
        = s\<lparr>pwa_board := set_cell (pwa_board s) row col 0, pwa_notes := pwa_notes s,
          moveHistory := moveHistory s @ [pwa_valueEntry num s row col], redoStack := []\<rparr>"
        by simp
      have "pwa_nlogs s [pwa_valueEntry num s row col] (pwa_inputNumber num s)"
        unfolding pwa_inputNumber_off[OF sel f nm True] e
        by (rule pwa_nlogs_edit)
           (simp_all add: pwa_valueEntry_def True set_notes_same[OF emp])
      then show ?thesis by blast
    next
      case False
      have n: "(if autoRemoveNotes s
                then removeRelatedNotes (set_notes (pwa_notes s) row col {}) row col num
                else set_notes (pwa_notes s) row col {}) = set_notes (pwa_notes s) row col {}"
        using k sel nm False by (auto simp: pwa_notes_kept_def)
      have "pwa_nlogs s [pwa_valueEntry num s row col] (pwa_inputNumber num s)"
        unfolding pwa_inputNumber_set[OF sel f nm False] n
        by (rule pwa_nlogs_edit) (simp_all add: pwa_valueEntry_def False)
      then show ?thesis by blast
    qed
  qed
qed

lemma pwa_nlogs_erase: "\<exists>new. pwa_nlogs s new (pwa_erase s)"
proof (cases "pwa_erase s = s")
  case True
  then show ?thesis using pwa_nlogs_refl[of s] by auto
next
  case False
  then obtain row col where sel: "pwa_selected s = Some (row, col)"
    by (cases "pwa_selected s") (auto simp: pwa_erase_def)
  let ?m = "\<lparr>moveType = EraseMove, moveRow = row, moveCol = col,
     oldValue = pwa_board s ! row ! col, oldNotes = pwa_notes s ! row ! col,
     newValue = 0, newNotes = Some {}\<rparr>"
  have e: "pwa_erase s = s\<lparr>moveHistory := moveHistory s @ [?m], redoStack := [],
       pwa_board := set_cell (pwa_board s) row col 0,
       pwa_notes := set_notes (pwa_notes s) row col {}\<rparr>"
    using False sel by (auto simp: pwa_erase_def Let_def split: if_splits)
  have "pwa_nlogs s [?m] (pwa_erase s)"
    unfolding e
    by (simp add: pwa_nlogs_def pwa_logs_def pwa_revBoard_def pwa_fwdBoard_def set_cell_restore
        pwa_revNotes_def pwa_fwdNotes_def set_notes_restore)
  then show ?thesis by blast
qed

lemma pwa_nlogs_hint: "\<exists>new. pwa_nlogs s new (pwa_hint u s)"
proof (cases "pwa_hint u s = s")
  case True
  then show ?thesis using pwa_nlogs_refl[of s] by auto
next
  case False
  define cands where
    "cands = filter (\<lambda>(r, c). pwa_board s ! r ! c \<noteq> pwa_solution s ! r ! c) allPositions"
  obtain row col where rc: "cands ! (u mod length cands) = (row, col)"
    by (cases "cands ! (u mod length cands)")
  let ?m = "\<lparr>moveType = HintMove, moveRow = row, moveCol = col,
     oldValue = pwa_board s ! row ! col, oldNotes = pwa_notes s ! row ! col,
     newValue = pwa_solution s ! row ! col, newNotes = Some {}\<rparr>"
  have e: "pwa_hint u s = pwa_checkWin (s\<lparr>moveHistory := moveHistory s @ [?m],
       redoStack := [],
       pwa_board := set_cell (pwa_board s) row col (pwa_solution s ! row ! col),
       pwa_notes := set_notes (pwa_notes s) row col {},
       pwa_hintsRemaining := pwa_hintsRemaining s - 1,
       pwa_hintsUsed := pwa_hintsUsed s + 1\<rparr>)"
    using False rc unfolding pwa_hint_def Let_def cands_def
    by (simp split: if_splits)
  have "pwa_nlogs s [?m] (pwa_hint u s)"
    unfolding e
    by (simp add: pwa_nlogs_def pwa_logs_def pwa_revBoard_def pwa_fwdBoard_def set_cell_restore
        pwa_revNotes_def pwa_fwdNotes_def set_notes_restore)
  then show ?thesis by blast
qed

lemma pwa_nlogs_handle:
  assumes "pwa_edit_event e" "pwa_notes_kept s e"
  shows "\<exists>new. pwa_nlogs s new (pwa_handle e s)"
proof (cases e)
  case (PwaInputNumber num)
  then show ?thesis using pwa_nlogs_inputNumber assms(2) by simp
next
  case PwaErase
  then show ?thesis using pwa_nlogs_erase by simp
next
  case (PwaHint u)
  then show ?thesis using pwa_nlogs_hint by simp
next
  case (PwaSelectCell row col)
  have "pwa_nlogs s [] (pwa_selectCell row col s)"
    by (rule pwa_nlogs_same) (simp_all add: pwa_selectCell_def)
  then show ?thesis using PwaSelectCell by auto
next
  case PwaToggleNotes
  have "pwa_nlogs s [] (pwa_toggleNotes s)"
    by (rule pwa_nlogs_same) (simp_all add: pwa_toggleNotes_def)
  then show ?thesis using PwaToggleNotes by auto
next
  case PwaTogglePause
  have "pwa_nlogs s [] (pwa_togglePause s)"
    by (rule pwa_nlogs_same) (simp_all add: pwa_togglePause_def)
  then show ?thesis using PwaTogglePause by auto
next
  case (PwaSetAutoRemoveNotes b)
  have "pwa_nlogs s [] (s\<lparr>autoRemoveNotes := b\<rparr>)"
    by (rule pwa_nlogs_same) simp_all
  then show ?thesis using PwaSetAutoRemoveNotes by auto
qed (use assms in \<open>simp_all add: pwa_edit_event_def\<close>)

lemma pwa_run_Cons: "pwa_run (e # es) s = pwa_run es (pwa_handle e s)"
  by (simp add: pwa_run_def)

lemma pwa_nlogs_run:
  assumes "list_all pwa_edit_event es" "pwa_notes_kept_run es s"
  shows "\<exists>new. pwa_nlogs s new (pwa_run es s)"
  using assms
proof (induction es arbitrary: s)
  case Nil
  then show ?case using pwa_nlogs_refl by (auto simp: pwa_run_def)
next
  case (Cons e es)
  then obtain n1 where l1: "pwa_nlogs s n1 (pwa_handle e s)"
    using pwa_nlogs_handle[of e s] by auto
  from Cons obtain n2 where "pwa_nlogs (pwa_handle e s) n2 (pwa_run es (pwa_handle e s))"
    by auto
  with l1 have "pwa_nlogs s (n1 @ n2) (pwa_run (e # es) s)"
    unfolding pwa_run_Cons by (rule pwa_nlogs_trans)
  then show ?case by blast
qed

lemma pwa_undo_step:
  assumes "pwa_active s" "moveHistory s = H @ [m]"
  shows "pwa_undo s = s\<lparr>moveHistory := H, redoStack := redoStack s @ [m],
       pwa_board := pwa_revBoard m (pwa_board s),
       pwa_notes := pwa_revNotes m (pwa_notes s)\<rparr>"
  using assms
  by (simp add: pwa_undo_def pwa_active_def Let_def pwa_revBoard_def pwa_revNotes_def)

lemma pwa_redo_step:
  assumes "pwa_active s" "redoStack s = R @ [m]"
  shows "pwa_redo s = s\<lparr>redoStack := R, moveHistory := moveHistory s @ [m],
       pwa_board := pwa_fwdBoard m (pwa_board s),
       pwa_notes := pwa_fwdNotes m (pwa_notes s)\<rparr>"
  using assms
  by (simp add: pwa_redo_def pwa_active_def Let_def pwa_fwdBoard_def pwa_fwdNotes_def)

lemma pwa_undo_iter_notes:
  assumes "pwa_active s" "moveHistory s = H @ N"
  shows "pwa_notes ((pwa_undo ^^ length N) s) = foldr pwa_revNotes N (pwa_notes s)"
  using assms
proof (induction N arbitrary: s rule: rev_induct)
  case Nil
  then show ?case by simp
next
  case (snoc m N)
  have mh: "moveHistory s = (H @ N) @ [m]" using snoc.prems(2) by simp
  note u = pwa_undo_step[OF snoc.prems(1) mh]
  have act1: "pwa_active (pwa_undo s)" using snoc.prems(1) unfolding u by (simp add: pwa_active_def)
  have h1: "moveHistory (pwa_undo s) = H @ N" unfolding u by simp
  from snoc.IH[OF act1 h1]
  have "pwa_notes ((pwa_undo ^^ length N) (pwa_undo s))
          = foldr pwa_revNotes N (pwa_revNotes m (pwa_notes s))"
    unfolding u by simp
  moreover have "(pwa_undo ^^ length (N @ [m])) s = (pwa_undo ^^ length N) (pwa_undo s)"
    by (simp add: funpow_swap1)
  ultimately show ?case by simp
qed

lemma pwa_redo_iter_notes:
  assumes "pwa_active s" "redoStack s = R @ rev N"
  shows "pwa_notes ((pwa_redo ^^ length N) s) = pwa_nreplay (pwa_notes s) N"
  using assms
proof (induction N arbitrary: s)
  case Nil
  then show ?case by simp
next
  case (Cons m N)
  have rs: "redoStack s = (R @ rev N) @ [m]" using Cons.prems(2) by simp
  note u = pwa_redo_step[OF Cons.prems(1) rs]
  have act1: "pwa_active (pwa_redo s)" using Cons.prems(1) unfolding u by (simp add: pwa_active_def)
  have h1: "redoStack (pwa_redo s) = R @ rev N" unfolding u by simp
  from Cons.IH[OF act1 h1]
  have "pwa_notes ((pwa_redo ^^ length N) (pwa_redo s))
          = pwa_nreplay (pwa_fwdNotes m (pwa_notes s)) N"
    unfolding u by simp
  moreover have "(pwa_redo ^^ length (m # N)) s = (pwa_redo ^^ length N) (pwa_redo s)"
    by (simp add: funpow_swap1)
  ultimately show ?case by simp
qed

lemma pwa_undo_redo_notes:
  assumes es: "list_all pwa_edit_event es" and act: "pwa_active (pwa_run es s0)"
    and kept: "pwa_notes_kept_run es s0"
  defines "sk \<equiv> pwa_run es s0"
  defines "M \<equiv> length (moveHistory sk) - length (moveHistory s0)"
  shows "pwa_notes ((pwa_undo ^^ M) sk) = pwa_notes s0 \<and>
         pwa_notes ((pwa_redo ^^ M) ((pwa_undo ^^ M) sk)) = pwa_notes sk"
proof -
  obtain N where nl: "pwa_nlogs s0 N sk" using pwa_nlogs_run[OF es kept] unfolding sk_def by blast
  then have mh: "moveHistory sk = moveHistory s0 @ N"
    and co: "pwa_ncoherent (pwa_notes s0) N"
    and fw: "pwa_nreplay (pwa_notes s0) N = pwa_notes sk"
    by (simp_all add: pwa_nlogs_def pwa_logs_def)
  have rv: "foldr pwa_revNotes N (pwa_notes sk) = pwa_notes s0"
    using pwa_ncoherent_foldr[OF co] fw by simp
  have M: "M = length N" unfolding M_def mh by simp
  let ?u = "(pwa_undo ^^ length N) sk"
  have un: "pwa_notes ?u = pwa_notes s0"
    using pwa_undo_iter_notes[OF act[folded sk_def] mh] rv by simp
  from pwa_undo_iter[OF act[folded sk_def] mh]
  have u: "redoStack ?u = redoStack sk @ rev N" "pwa_active ?u" by simp_all
  have "pwa_notes ((pwa_redo ^^ length N) ?u) = pwa_notes sk"
    using pwa_redo_iter_notes[OF u(2,1)] un fw by simp
  then show ?thesis unfolding M using un by simp
qed

lemma pwa_nsynced_logs:
  assumes "pwa_nsynced n0 s" "pwa_nlogs s new s'"
  shows "pwa_nsynced n0 s'"
proof (cases "new = []")
  case True
  then show ?thesis using assms by (simp add: pwa_nsynced_def pwa_nlogs_def pwa_logs_def)
next
  case False
  then show ?thesis using assms by (simp add: pwa_nsynced_def pwa_nlogs_def pwa_logs_def)
qed

lemma pwa_nsynced_undo:
  assumes "pwa_nsynced n0 s"
  shows "pwa_nsynced n0 (pwa_undo s)"
proof (cases "moveHistory s = [] \<or> pwa_isPaused s \<or> pwa_isComplete s")
  case True
  then show ?thesis using assms by (simp add: pwa_undo_def)
next
  case False
  then obtain H m where h: "moveHistory s = H @ [m]"
    by (cases "moveHistory s" rule: rev_cases) auto
  have act: "pwa_active s" using False by (simp add: pwa_active_def)
  note u = pwa_undo_step[OF act h]
  from assms have c: "pwa_ncoherent n0 (H @ [m] @ rev (redoStack s))"
    and b: "pwa_notes s = pwa_fwdNotes m (pwa_nreplay n0 H)"
    unfolding pwa_nsynced_def h by simp_all
  from c have "pwa_revNotes m (pwa_fwdNotes m (pwa_nreplay n0 H)) = pwa_nreplay n0 H"
    unfolding pwa_ncoherent_append by simp
  then show ?thesis unfolding u using c b by (simp add: pwa_nsynced_def)
qed

lemma pwa_nsynced_redo:
  assumes "pwa_nsynced n0 s"
  shows "pwa_nsynced n0 (pwa_redo s)"
proof (cases "redoStack s = [] \<or> pwa_isPaused s \<or> pwa_isComplete s")
  case True
  then show ?thesis using assms by (simp add: pwa_redo_def)
next
  case False
  then obtain R m where h: "redoStack s = R @ [m]"
    by (cases "redoStack s" rule: rev_cases) auto
  have act: "pwa_active s" using False by (simp add: pwa_active_def)
  note u = pwa_redo_step[OF act h]
  from assms show ?thesis unfolding u pwa_nsynced_def h by simp
qed

lemma pwa_nsynced_handle:
  assumes "pwa_nsynced n0 s" "pwa_plain_event e" "pwa_notes_kept s e"
  shows "pwa_nsynced n0 (pwa_handle e s)"
proof (cases "pwa_edit_event e")
  case True
  then obtain new where "pwa_nlogs s new (pwa_handle e s)"
    using pwa_nlogs_handle assms(3) by blast
  with assms(1) show ?thesis by (rule pwa_nsynced_logs)
next
  case False
  then have "e = PwaUndo \<or> e = PwaRedo"
    using assms(2) by (cases e) (simp_all add: pwa_edit_event_def pwa_plain_event_def)
  then show ?thesis using pwa_nsynced_undo[OF assms(1)] pwa_nsynced_redo[OF assms(1)] by auto
qed

lemma pwa_nsynced_run:
  assumes "pwa_nsynced n0 s" "list_all pwa_plain_event es" "pwa_notes_kept_run es s"
  shows "pwa_nsynced n0 (pwa_run es s)"
  using assms
proof (induction es arbitrary: s)
  case Nil
  then show ?case by (simp add: pwa_run_def)
next
  case (Cons e es)
  then have "pwa_nsynced n0 (pwa_handle e s)" using pwa_nsynced_handle[of n0 s e] by simp
  with Cons show ?case unfolding pwa_run_Cons by simp
qed

lemma pwa_nsynced_newGameState:
  "pwa_nsynced (replicate 9 (replicate 9 {})) (pwa_newGameState puzzle sol d ar)"
  by (simp add: pwa_nsynced_def pwa_newGameState_def)

lemma pwa_notes_kept_run_undo_redo:
  "list_all pwa_undo_redo_event ur \<Longrightarrow> pwa_notes_kept_run ur s"
  by (induction ur arbitrary: s) (auto simp: pwa_undo_redo_event_def pwa_notes_kept_def)

lemma pwa_notes_kept_run_append:
  "pwa_notes_kept_run (es @ fs) s
     = (pwa_notes_kept_run es s \<and> pwa_notes_kept_run fs (pwa_run es s))"
  by (induction es arbitrary: s) (simp_all add: pwa_run_def)

lemma pwa_notes_by_length:
  assumes pre: "list_all pwa_plain_event pre" and es: "list_all pwa_edit_event es"
    and ur: "list_all pwa_undo_redo_event ur"
    and kept: "pwa_notes_kept_run (pre @ es) (pwa_newGameState puzzle sol d ar)"
  defines "s0 \<equiv> pwa_run pre (pwa_newGameState puzzle sol d ar)"
  defines "sk \<equiv> pwa_run es (pwa_run pre (pwa_newGameState puzzle sol d ar))"
  defines "s \<equiv> pwa_run ur (pwa_run es (pwa_run pre (pwa_newGameState puzzle sol d ar)))"
  shows "length (moveHistory s) = length (moveHistory s0) \<Longrightarrow> pwa_notes s = pwa_notes s0"
    and "length (moveHistory s) = length (moveHistory sk) \<Longrightarrow> pwa_notes s = pwa_notes sk"
proof -
  let ?n0 = "replicate 9 (replicate 9 {}) :: notes_grid"
  have k: "pwa_notes_kept_run pre (pwa_newGameState puzzle sol d ar)" "pwa_notes_kept_run es s0"
    using kept unfolding s0_def pwa_notes_kept_run_append by simp_all
  have sy0: "pwa_nsynced ?n0 s0"
    unfolding s0_def using pwa_nsynced_newGameState pre k(1) by (rule pwa_nsynced_run)
  have pes: "list_all pwa_plain_event es"
    using es by (auto simp: list_all_iff pwa_edit_event_def pwa_plain_event_def)
  have pur: "list_all pwa_plain_event ur"
    using ur by (auto simp: list_all_iff pwa_undo_redo_event_def pwa_plain_event_def)
  have syk: "pwa_nsynced ?n0 sk"
    unfolding sk_def using sy0[unfolded s0_def] pes k(2)[unfolded s0_def]
    by (rule pwa_nsynced_run)
  have sys: "pwa_nsynced ?n0 s"
    unfolding s_def using syk[unfolded sk_def] pur pwa_notes_kept_run_undo_redo[OF ur]
    by (rule pwa_nsynced_run)
  obtain N where "pwa_logs s0 N sk" using pwa_logs_run[OF es] unfolding sk_def s0_def by blast
  then have mh: "moveHistory sk = moveHistory s0 @ N" by (simp add: pwa_logs_def)
  have tape: "moveHistory s @ rev (redoStack s) = moveHistory sk @ rev (redoStack sk)"
    unfolding s_def sk_def using ur by (rule pwa_tape_run)
  have bs: "pwa_notes s = pwa_nreplay ?n0 (moveHistory s)" using sys by (simp add: pwa_nsynced_def)
  have bk: "pwa_notes sk = pwa_nreplay ?n0 (moveHistory sk)" using syk by (simp add: pwa_nsynced_def)
  have b0: "pwa_notes s0 = pwa_nreplay ?n0 (moveHistory s0)" using sy0 by (simp add: pwa_nsynced_def)
  {
    assume "length (moveHistory s) = length (moveHistory sk)"
    with tape have "moveHistory s = moveHistory sk" by (simp add: append_eq_append_conv)
    then show "pwa_notes s = pwa_notes sk" using bs bk by simp
  }
  {
    assume "length (moveHistory s) = length (moveHistory s0)"
    moreover have "moveHistory s @ rev (redoStack s) = moveHistory s0 @ N @ rev (redoStack sk)"
      using tape mh by simp
    ultimately have "moveHistory s = moveHistory s0" by (simp add: append_eq_append_conv)
    then show "pwa_notes s = pwa_notes s0" using bs b0 by simp
  }
qed

section \<open>Recording an entry\<close>

lemma redo_at_end:
  assumes "int (length (history s)) - 1 \<le> historyIndex s"
  shows "redo s = s"
  using assms by (simp add: redo_def)

lemma addToHistory_end:
  assumes "ledger_ok s"
  shows "historyIndex (addToHistory a s) = int (length (history (addToHistory a s))) - 1"
proof -
  have "length (history (addToHistory a s)) = Suc (length (applied s))"
    using history_addToHistory[OF assms, of a] by simp
  moreover have "historyIndex (addToHistory a s) = historyIndex s + 1"
    by (simp add: addToHistory_def)
  ultimately show ?thesis
    using length_applied[OF assms] assms by (simp add: ledger_ok_def; linarith)
qed

lemma addToHistory_flags [simp]:
  "isPaused (addToHistory a s) = isPaused s" "isComplete (addToHistory a s) = isComplete s"
  by (simp_all add: addToHistory_def)

lemma undo_addToHistory:
  assumes "ledger_ok s" "active s"
  shows "applied (undo (addToHistory a s)) = applied s" "ledger_ok (undo (addToHistory a s))"
proof -
  let ?t = "addToHistory a s"
  have ok: "ledger_ok ?t" using applied_addToHistory(2)[OF assms(1)] .
  have act: "active ?t" using assms(2) by (simp add: active_def)
  have ap: "applied ?t = applied s @ [a]" using applied_addToHistory(1)[OF assms(1)] .
  from undo_iter[OF act ok ap]
  show "applied (undo ?t) = applied s" "ledger_ok (undo ?t)" by simp_all
qed

lemma pwa_redo_empty: "redoStack s = [] \<Longrightarrow> pwa_redo s = s"
  by (simp add: pwa_redo_def)

lemma pwa_recorded:
  assumes "pwa_edit_event e" "moveHistory (pwa_handle e t) \<noteq> moveHistory t"
  shows "redoStack (pwa_handle e t) = []"
    and "\<exists>m. moveHistory (pwa_handle e t) = moveHistory t @ [m]"
proof -
  obtain new where l: "pwa_logs t new (pwa_handle e t)" and n: "length new \<le> 1"
    using pwa_logs_handle[OF assms(1)] by blast
  from l assms(2) have ne: "new \<noteq> []" by (auto simp: pwa_logs_def)
  with l show "redoStack (pwa_handle e t) = []" by (simp add: pwa_logs_def)
  from ne n obtain m where "new = [m]" by (cases new) auto
  with l show "\<exists>m. moveHistory (pwa_handle e t) = moveHistory t @ [m]"
    by (auto simp: pwa_logs_def)
qed

lemma pwa_undo_one:
  assumes "pwa_active s" "moveHistory s = H @ [m]"
  shows "moveHistory (pwa_undo s) = H"
  using pwa_undo_iter[OF assms(1), of H "[m]"] assms(2) by simp

lemma pwa_undo_idle: "\<not> pwa_active s \<Longrightarrow> pwa_undo s = s"
  by (auto simp: pwa_undo_def pwa_active_def)

section \<open>The store model simulates the solver\<close>

lemma frame_refl: "frame st st s"
  by (simp add: frame_def)

lemma frame_trans: "frame st st1 s \<Longrightarrow> frame st1 st2 s \<Longrightarrow> frame st st2 s"
  by (simp add: frame_def)

lemma owned_frame: "owned st s \<Longrightarrow> frame st st' s \<Longrightarrow> owned st' s"
  by (simp add: owned_def frame_def)

lemma length_view: "length (view st s) = length (gridObjs st ! s)"
  by (simp add: view_def)

lemma frame_writeCell:
  assumes "row < length (gridObjs st ! s)"
  shows "frame st (writeCell st s row col v) s"
proof -
  have "gridObjs st ! s ! row \<in> set (gridObjs st ! s)" using assms by (rule nth_mem)
  then have "gridObjs st ! s ! row \<noteq> a" if "a \<notin> set (gridObjs st ! s)" for a
    using that by auto
  then show ?thesis by (auto simp: frame_def writeCell_def Let_def)
qed

lemma view_writeCell:
  assumes "owned st s" "row < length (gridObjs st ! s)"
  shows "view (writeCell st s row col v) s = set_cell (view st s) row col v"
proof (rule nth_equalityI)
  show "length (view (writeCell st s row col v) s) = length (set_cell (view st s) row col v)"
    by (simp add: view_def writeCell_def Let_def set_cell_def)
next
  fix i assume "i < length (view (writeCell st s row col v) s)"
  then have i: "i < length (gridObjs st ! s)" by (simp add: view_def writeCell_def Let_def)
  let ?rs = "gridObjs st ! s"
  have a: "?rs ! row < length (rowObjs st)" "?rs ! i < length (rowObjs st)"
    using assms i by (simp_all add: owned_def)
  have d: "?rs ! i = ?rs ! row \<longleftrightarrow> i = row"
    using assms i by (simp add: owned_def nth_eq_iff_index_eq)
  show "view (writeCell st s row col v) s ! i = set_cell (view st s) row col v ! i"
    using i assms(2) a d
    by (cases "i = row") (simp_all add: view_def writeCell_def Let_def set_cell_def)
qed

lemma store_simulates:
  "\<forall>st. owned st s \<and> view st s = copy \<longrightarrow>
      sim_res s st (backtrack copy row col) (store_backtrack st s row col)"
  "\<forall>st. owned st s \<and> view st s = copy \<and> row < length copy \<longrightarrow>
      sim_res s st (tryNums copy row col nums) (store_tryNums st s row col nums)"
proof (induction copy row col and copy row col nums rule: backtrack_tryNums.induct)
  case (1 copy row col)
  let ?row = "if col = 9 then row + 1 else row"
  let ?col = "if col = 9 then 0 else col"
  show ?case
  proof (intro allI impI, elim conjE)
    fix st assume o: "owned st s" and v: "view st s = copy"
    show "sim_res s st (backtrack copy row col) (store_backtrack st s row col)"
    proof (cases "?row = 9")
      case True
      then show ?thesis
        using v by (simp add: backtrack.simps[of copy row col]
            store_backtrack.simps[of st s row col] sim_res_def frame_refl)
    next
      case n9: False
      show ?thesis
      proof (cases "9 < ?row \<or> 9 < ?col")
        case True
        then show ?thesis
          using n9 by (simp add: backtrack.simps[of copy row col]
              store_backtrack.simps[of st s row col] sim_res_def Let_def)
      next
        case inb: False
        show ?thesis
        proof (cases "cell copy ?row ?col \<noteq> Some 0")
          case True
          from "1.IH"(1)[OF refl refl n9 inb True] o v
          have "sim_res s st (backtrack copy ?row (?col + 1)) (store_backtrack st s ?row (?col + 1))"
            by blast
          moreover have "backtrack copy row col = backtrack copy ?row (?col + 1)"
            using n9 inb True by (simp add: backtrack.simps[of copy row col] Let_def)
          moreover have "store_backtrack st s row col = store_backtrack st s ?row (?col + 1)"
            using n9 inb True v by (simp add: store_backtrack.simps[of st s row col] Let_def)
          ultimately show ?thesis by simp
        next
          case False
          then have "?row < length copy" by (auto simp: cell_def split: if_splits)
          with "1.IH"(2)[OF refl refl n9 inb False] o v
          have "sim_res s st (tryNums copy ?row ?col [1..<10])
                  (store_tryNums st s ?row ?col [1..<10])"
            by blast
          moreover have "backtrack copy row col = tryNums copy ?row ?col [1..<10]"
            using n9 inb False by (simp add: backtrack.simps[of copy row col] Let_def)
          moreover have "store_backtrack st s row col = store_tryNums st s ?row ?col [1..<10]"
            using n9 inb False v by (simp add: store_backtrack.simps[of st s row col] Let_def)
          ultimately show ?thesis by simp
        qed
      qed
    qed
  qed
next
  case (2 copy row col)
  show ?case by (simp add: sim_res_def frame_refl)
next
  case (3 copy row col num nums)
  show ?case
  proof (intro allI impI, elim conjE)
    fix st assume o: "owned st s" and v: "view st s = copy" and r: "row < length copy"
    have rl: "row < length (gridObjs st ! s)" using r v length_view[of st s] by simp
    show "sim_res s st (tryNums copy row col (num # nums)) (store_tryNums st s row col (num # nums))"
    proof (cases "isValid copy row col num")
      case False
      with "3.IH"(3)[OF False] o v r show ?thesis by simp
    next
      case True
      let ?st1 = "writeCell st s row col num"
      have f1: "frame st ?st1 s" using rl by (rule frame_writeCell)
      have o1: "owned ?st1 s" using o f1 by (rule owned_frame)
      have v1: "view ?st1 s = set_cell copy row col num"
        using view_writeCell[OF o rl] v by simp
      from "3.IH"(1)[OF True] o1 v1
      have s1: "sim_res s ?st1 (backtrack (set_cell copy row col num) row (col + 1))
                  (store_backtrack ?st1 s row (col + 1))" by blast
      show ?thesis
      proof (cases "backtrack (set_cell copy row col num) row (col + 1)")
        case None
        with s1 have "store_backtrack ?st1 s row (col + 1) = None" by (simp add: sim_res_def)
        with None True v show ?thesis by (simp add: sim_res_def)
      next
        case (Some res)
        obtain ok G' where res: "res = (ok, G')" by (cases res)
        from s1 Some res obtain st' where
          st': "store_backtrack ?st1 s row (col + 1) = Some (ok, st')"
          and v': "view st' s = G'" and f': "frame ?st1 st' s"
          by (auto simp: sim_res_def)
        have f2: "frame st st' s" using f1 f' by (rule frame_trans)
        show ?thesis
        proof (cases ok)
          case True
          then show ?thesis
            using \<open>isValid copy row col num\<close> Some res st' v v' f2 by (simp add: sim_res_def)
        next
          case False
          let ?st2 = "writeCell st' s row col 0"
          have o': "owned st' s" using o f2 by (rule owned_frame)
          have rl': "row < length (gridObjs st' ! s)" using rl f2 by (simp add: frame_def)
          have f3: "frame st' ?st2 s" using rl' by (rule frame_writeCell)
          have o2: "owned ?st2 s" using o' f3 by (rule owned_frame)
          have v2: "view ?st2 s = set_cell G' row col 0"
            using view_writeCell[OF o' rl'] v' by simp
          have r2: "row < length (set_cell G' row col 0)"
            using rl' v' length_view[of st' s] by (simp add: set_cell_def)
          have okF: "ok = False" using False by simp
          from "3.IH"(2)[OF \<open>isValid copy row col num\<close> Some res[symmetric] okF]
            o2 v2 r2
          have "sim_res s ?st2 (tryNums (set_cell G' row col 0) row col nums)
                  (store_tryNums ?st2 s row col nums)" by blast
          then have "sim_res s st (tryNums (set_cell G' row col 0) row col nums)
                  (store_tryNums ?st2 s row col nums)"
            using frame_trans[OF f2 f3]
            by (auto simp: sim_res_def split: option.splits intro: frame_trans)
          then show ?thesis
            using \<open>isValid copy row col num\<close> Some res st' v False by simp
        qed
      qed
    qed
  qed
qed



lemma copyGrid_facts:
  assumes "store_ok st" "g < length (gridObjs st)" "copyGrid st g = (st1, c)"
  shows "c = length (gridObjs st)" "owned st1 c" "view st1 c = view st g"
    "gridObjs st1 = gridObjs st @ [[length (rowObjs st)..<length (rowObjs st) + length (gridObjs st ! g)]]"
    "rowObjs st1 = rowObjs st @ view st g"
proof -
  let ?n = "length (rowObjs st)"
  let ?rs = "gridObjs st ! g"
  from assms(3) show c: "c = length (gridObjs st)"
    and g1: "gridObjs st1 = gridObjs st @ [[?n..<?n + length ?rs]]"
    and r1: "rowObjs st1 = rowObjs st @ view st g"
    by (auto simp: copyGrid_def Let_def view_def)
  show "owned st1 c" unfolding owned_def c g1 r1 by (simp add: view_def)
  show "view st1 c = view st g"
  proof (rule nth_equalityI)
    show "length (view st1 c) = length (view st g)"
      unfolding view_def c g1 by simp
  next
    fix i assume "i < length (view st1 c)"
    then have i: "i < length ?rs" unfolding view_def c g1 by simp
    then show "view st1 c ! i = view st g ! i"
      unfolding c view_def[of st1] g1 r1 by (simp add: nth_append view_def)
  qed
qed

lemma frame_after_copy:
  assumes ok: "store_ok st" and g: "g < length (gridObjs st)"
    and cp: "copyGrid st g = (st1, c)" and fr: "frame st1 st2 c"
  shows "take (length (rowObjs st)) (rowObjs st2) = rowObjs st"
    and "take (length (gridObjs st)) (gridObjs st2) = gridObjs st"
    and "view st2 g = view st g"
    and "\<forall>a\<in>set (gridObjs st2 ! c). length (rowObjs st) \<le> a \<and> a \<notin> set (gridObjs st ! g)"
    and "c \<noteq> g"
proof -
  let ?n = "length (rowObjs st)"
  note cf = copyGrid_facts[OF ok g cp]
  have g2: "gridObjs st2 = gridObjs st @ [[?n..<?n + length (gridObjs st ! g)]]"
    using fr cf(4) by (simp add: frame_def)
  have l2: "length (rowObjs st2) = ?n + length (gridObjs st ! g)"
    using fr cf(5) by (simp add: frame_def view_def)
  have old: "rowObjs st2 ! a = rowObjs st ! a" if "a < ?n" for a
  proof -
    have "a \<notin> set (gridObjs st1 ! c)" using that unfolding cf(1) cf(4) by simp
    then have "rowObjs st2 ! a = rowObjs st1 ! a" using fr by (simp add: frame_def)
    then show ?thesis using that unfolding cf(5) by (simp add: nth_append)
  qed
  show "take ?n (rowObjs st2) = rowObjs st"
    by (rule nth_equalityI) (use l2 old in simp_all)
  show "take (length (gridObjs st)) (gridObjs st2) = gridObjs st"
    unfolding g2 by simp
  have inb: "a < ?n" if "a \<in> set (gridObjs st ! g)" for a
    using ok g that by (auto simp: store_ok_def)
  show "view st2 g = view st g"
    unfolding view_def g2 using g inb old by (simp add: nth_append)
  show "\<forall>a\<in>set (gridObjs st2 ! c). ?n \<le> a \<and> a \<notin> set (gridObjs st ! g)"
    unfolding g2 cf(1) by (auto simp: nth_append dest!: inb)
  show "c \<noteq> g" using g cf(1) by simp
qed

lemma store_solve_cases:
  assumes ok: "store_ok st" and g: "g < length (gridObjs st)"
  shows "sim_res (length (gridObjs st)) (fst (copyGrid st g))
           (backtrack (view st g) 0 0)
           (store_backtrack (fst (copyGrid st g)) (length (gridObjs st)) 0 0)"
proof -
  obtain st1 c where cp: "copyGrid st g = (st1, c)" by (cases "copyGrid st g")
  note cf = copyGrid_facts[OF ok g cp]
  from store_simulates(1)[of c "view st g" 0 0] cf(2,3)
  have "sim_res c st1 (backtrack (view st g) 0 0) (store_backtrack st1 c 0 0)" by blast
  then show ?thesis using cp cf(1) by simp
qed

text \<open>
  Claim C9. For a complete solution grid and a tier with \<open>0 \<le> min \<le> max \<le> 81\<close>, let
  \<open>targetClues\<close> be the number that \<open>createPuzzle\<close> draws,
  \<open>min + Math.floor(Math.random() * (max - min + 1))\<close> with the first random number of the
  call. It lies in \<open>[min, max]\<close>, at most \<open>cellsToRemove = 81 - targetClues\<close> cells of the
  returned puzzle are empty, and so the puzzle keeps at least \<open>targetClues\<close> (hence at least
  \<open>min\<close>) clues. This holds for the shuffled visiting order of the stand-alone script and
  for the row-major order of \<open>sudoku-pwa/script.js\<close>.
\<close>

theorem createPuzzle_clue_bound:
  assumes "wf_grid S" and "complete S"
    and "tiers d = Some (mn, mx)" and "0 \<le> mn" and "mn \<le> mx" and "mx \<le> 81"
    and "createPuzzle tiers rng S d = Some (P, rng') \<or>
         pwa_createPuzzle tiers rng S d = Some (P, rng')"
    and "targetClues = mn + fst (floorRandom rng (mx - mn + 1))"
  shows "mn \<le> targetClues \<and> targetClues \<le> mx \<and>
         int (emptyCount P) \<le> 81 - targetClues \<and>
         targetClues \<le> int (clueCount P) \<and> mn \<le> int (clueCount P)"
proof -
  let ?j = "fst (floorRandom rng (mx - mn + 1))"
  let ?t = "mn + ?j"
  have j: "0 \<le> ?j \<and> ?j < mx - mn + 1"
    using assms(5) by (intro floorRandom_range) simp
  obtain ps where P: "P = removeCells S (81 - ?t) 0 ps"
    using assms(3,7)
    by (auto simp: createPuzzle_def pwa_createPuzzle_def Let_def split: prod.splits)
  have "0 \<le> 81 - ?t" using j assms(6) by simp
  from removeCells_clueCount[OF assms(1) this, of ps]
  have "?t \<le> int (clueCount P)"
    using clueCount_complete[OF assms(2)] by (simp add: P)
  moreover have "int (emptyCount P) = 81 - int (clueCount P)"
    using emptyCount_clueCount[of P] by simp
  ultimately show ?thesis using j unfolding assms(8) by simp
qed

theorem createPuzzle_clue_bound_witness:
  "wf_grid canonical \<and> complete canonical \<and> DIFFICULTY_CLUES ''easy'' = Some (40, 45) \<and>
   43 = 40 + fst (floorRandom (\<lambda>k. 3) (45 - 40 + 1)) \<and>
   (\<exists>P rng'. createPuzzle DIFFICULTY_CLUES (\<lambda>k. 3) canonical ''easy'' = Some (P, rng') \<and>
      int (emptyCount P) \<le> 81 - 43 \<and> 43 \<le> int (clueCount P) \<and>
      40 \<le> int (clueCount P))"
proof -
  have t: "DIFFICULTY_CLUES ''easy'' = Some (40, 45)"
    by (simp add: DIFFICULTY_CLUES_def)
  have d: "43 = 40 + fst (floorRandom (\<lambda>k. 3) (45 - 40 + 1))"
    by (simp add: floorRandom_def)
  obtain P rng' where c: "createPuzzle DIFFICULTY_CLUES (\<lambda>k. 3) canonical ''easy'' = Some (P, rng')"
    using createPuzzle_Some[of DIFFICULTY_CLUES "''easy''" "(40, 45)" "\<lambda>k. 3" canonical] t by blast
  from createPuzzle_clue_bound[OF canonical_wf canonical_complete t _ _ _ disjI1[OF c] d]
  show ?thesis using canonical_wf canonical_complete t c d by simp
qed

section \<open>Claims about the solver\<close>

text \<open>
  What the solver guarantees. For every 9x9 grid \<open>g\<close> with entries in 0-9, \<open>solve g\<close> does not
  throw, and a grid \<open>s\<close> it returns is a 9x9 grid without zero cells that agrees with \<open>g\<close> on
  every nonzero cell of \<open>g\<close>. If moreover no digit occurs twice in a row, a column or a box
  of \<open>g\<close>, then \<open>s\<close> satisfies the row, column and box constraints, and \<open>solve g\<close> returns
  null exactly when \<open>g\<close> has no completion.
\<close>

theorem solve_correct:
  assumes wf: "wf_grid g"
  shows "solve g \<noteq> None \<and>
    (\<forall>s. solve g = Some (Some s) \<longrightarrow> wf_grid s \<and> complete s \<and> clues_of g s) \<and>
    (consistent g \<longrightarrow>
       (\<forall>s. solve g = Some (Some s) \<longrightarrow> consistent s \<and> completion g s) \<and>
       (solve g = Some None \<longleftrightarrow> \<not> (\<exists>s. completion g s)))"
proof -
  from solve_spec[OF wf] obtain ok g' where res: "backtrack g 0 0 = Some (ok, g')"
    and sp: "if ok then search_ok g 0 0 g' else g' = g \<and> (\<forall>s. \<not> completion g s)"
    unfolding bt_spec_def by blast
  show ?thesis
  proof (cases ok)
    case True
    with sp have ok: "search_ok g 0 0 g'" by simp
    have s: "solve g = Some (Some g')" using res True by (simp add: solve_def)
    from ok have a: "wf_grid g'" "complete g'" "clues_of g g'" "consistent g \<longrightarrow> consistent g'"
      by (simp_all add: search_ok_def filled_from_complete)
    then have "consistent g \<longrightarrow> completion g g'" by (simp add: completion_def)
    with a s show ?thesis by auto
  next
    case False
    with sp have "\<forall>s. \<not> completion g s" by simp
    moreover have "solve g = Some None" using res False by (simp add: solve_def)
    ultimately show ?thesis by simp
  qed
qed

theorem solve_correct_witness:
  "wf_grid rowZeroed \<and> consistent rowZeroed \<and> solve rowZeroed = Some (Some canonical) \<and>
   wf_grid canonical \<and> complete canonical \<and> clues_of rowZeroed canonical \<and>
   consistent canonical \<and> completion rowZeroed canonical"
proof -
  have wf: "wf_grid rowZeroed" by code_simp
  have con: "consistent rowZeroed" by code_simp
  have s: "solve rowZeroed = Some (Some canonical)" by code_simp
  from solve_correct[OF wf] s con show ?thesis using wf by simp
qed

text \<open>
  Claim C2. A grid returned by \<open>solve\<close> should satisfy the row, column and box constraints,
  and \<open>solve\<close> should return null exactly when its argument has no completion. The code
  does neither on \<open>dupRow\<close>, a grid without empty cells that has the digit 3 in the first
  two cells of row 0: no grid completes it, and \<open>solve\<close> returns it unchanged instead of
  null, because the search never checks the cells that are already filled.
\<close>

theorem solve_dupRow_unsolved:
  "wf_grid dupRow \<and> complete dupRow \<and> dupRow ! 0 ! 0 = 3 \<and> dupRow ! 0 ! 1 = 3 \<and>
   \<not> consistent dupRow \<and> solve dupRow = Some (Some dupRow)"
  by code_simp

text \<open>
  Claim C5. A grid with the same nonzero digit twice in a row should make \<open>solve\<close> return
  null. The code never looks at the cells that are already filled: on \<open>dupRowOpen\<close>, which
  has 3 in the first two cells of row 0 and one empty cell, it fills the empty cell and
  returns a grid.
\<close>

theorem solve_dupRowOpen:
  "wf_grid dupRowOpen \<and> dupRowOpen ! 0 ! 0 = 3 \<and> dupRowOpen ! 0 ! 1 = 3 \<and>
   solve dupRowOpen = Some (Some dupRow)"
  by code_simp

section \<open>Claims about the generator\<close>

text \<open>
  Claim C4. Whatever the random source yields, \<open>generateSolution\<close> called on the all-zero
  grid at position \<open>(0, 0)\<close> returns true, and the grid it leaves is a complete valid
  solution: every row, every column and every 3x3 box is a permutation of the digits 1-9.
\<close>

theorem generateSolution_succeeds:
  "\<exists>s rng'. generateSolution rng createEmptyGrid 0 0 = Some (True, s, rng') \<and>
      wf_grid s \<and> complete s \<and> consistent s \<and> solved s"
proof -
  have "bt_spec createEmptyGrid 0 0
          (map_option drop_rng (generateSolution rng createEmptyGrid 0 0))"
    using generate_spec(1)[of createEmptyGrid 0 0 rng] createEmptyGrid_wf by simp
  then obtain ok s where res: "map_option drop_rng (generateSolution rng createEmptyGrid 0 0) = Some (ok, s)"
    and sp: "if ok then search_ok createEmptyGrid 0 0 s
             else s = createEmptyGrid \<and> (\<forall>t. \<not> completion createEmptyGrid t)"
    unfolding bt_spec_def by blast
  have ok using sp createEmptyGrid_completion by (cases ok) auto
  with sp have "search_ok createEmptyGrid 0 0 s" by simp
  then have s: "wf_grid s" "complete s" "consistent s"
    using createEmptyGrid_consistent by (simp_all add: search_ok_def filled_from_complete)
  from res \<open>ok\<close> obtain rng' where "generateSolution rng createEmptyGrid 0 0 = Some (True, s, rng')"
    by (cases "generateSolution rng createEmptyGrid 0 0") (auto simp: drop_rng_def)
  with s solved_completion[OF s] show ?thesis by blast
qed

theorem generateSolution_succeeds_witness:
  "\<exists>s rng'. generateSolution (\<lambda>k. 0) createEmptyGrid 0 0 = Some (True, s, rng') \<and>
      wf_grid s \<and> complete s \<and> consistent s \<and> solved s"
  using generateSolution_succeeds[of "\<lambda>k. 0"] .

section \<open>Claims about counting and puzzle creation\<close>

text \<open>
  Claim C3, as amended. On every grid the counter returned by \<open>countSolutions\<close> (started at
  0) is at most 2. On every 9x9 grid with entries in 0-9 in which no digit occurs twice in
  a row, a column or a box, \<open>countSolutions\<close> returns \<open>min(n, 2)\<close>, where \<open>n\<close> is the number of
  completions of the grid, and leaves the grid as it was.
\<close>

theorem countSolutions_counts:
  "snd (countSolutions g 0) \<le> 2 \<and>
   (wf_grid g \<longrightarrow> consistent g \<longrightarrow> countSolutions g 0 = (g, min 2 (numCompletions g)))"
  using count_bound(1)[of 0 g] count_spec(1)[of g 0] by simp

theorem countSolutions_counts_witness:
  "wf_grid rowZeroed \<and> consistent rowZeroed \<and> countSolutions rowZeroed 0 = (rowZeroed, 1) \<and>
   min 2 (numCompletions rowZeroed) = 1 \<and> snd (countSolutions rowZeroed 0) \<le> 2"
proof -
  have wf: "wf_grid rowZeroed" by code_simp
  have con: "consistent rowZeroed" by code_simp
  have c: "countSolutions rowZeroed 0 = (rowZeroed, 1)" by code_simp
  from countSolutions_counts[of rowZeroed] wf con c show ?thesis by simp
qed

text \<open>
  The claim as stated fails on a grid that already breaks the rules: \<open>dupRow\<close> is complete,
  so the counter becomes 1, but a grid with the digit 3 twice in row 0 has no completion.
\<close>

theorem countSolutions_dupRow_counterexample:
  "wf_grid dupRow \<and> countSolutions dupRow 0 = (dupRow, 1) \<and> numCompletions dupRow = 0"
proof -
  have "\<not> consistent dupRow" by code_simp
  then have "{s. completion dupRow s} = {}" using completion_consistent by blast
  then have "numCompletions dupRow = 0" by (simp add: numCompletions_def)
  moreover have "wf_grid dupRow \<and> countSolutions dupRow 0 = (dupRow, 1)" by code_simp
  ultimately show ?thesis by simp
qed

text \<open>
  Claim C1. For a complete valid solution grid \<open>S\<close> and any difficulty of the table, the puzzle
  \<open>P\<close> returned by \<open>createPuzzle\<close> keeps only cells of \<open>S\<close> (every nonzero cell of \<open>P\<close> equals the
  cell of \<open>S\<close>), \<open>countSolutions\<close> on a copy of \<open>P\<close> returns 1, and \<open>P\<close> has exactly one
  completion, which is \<open>S\<close>. This holds for both variants of \<open>createPuzzle\<close>.
\<close>

theorem createPuzzle_unique:
  assumes "wf_grid S" and "complete S" and "consistent S"
    and "createPuzzle tiers rng S d = Some (P, rng') \<or>
         pwa_createPuzzle tiers rng S d = Some (P, rng')"
  shows "clues_of P S \<and> snd (countSolutions (map (\<lambda>row. row) P) 0) = 1 \<and>
         numCompletions P = 1 \<and> completion P S"
proof -
  obtain k ps where P: "P = removeCells S k 0 ps"
    using assms(4)
    by (auto simp: createPuzzle_def pwa_createPuzzle_def Let_def split: option.splits prod.splits)
  have "snd (countSolutions S 0) = 1"
    using countSolutions_complete[OF assms(1,2)] by simp
  then have one: "snd (countSolutions P 0) = 1" unfolding P by (rule removeCells_count)
  have wf: "wf_grid P" unfolding P using assms(1) by (rule removeCells_wf)
  have cl: "clues_of P S" unfolding P using assms(1) clues_of_refl by (rule removeCells_clues)
  then have comp: "completion P S" using assms(1-3) by (simp add: completion_def)
  then have "consistent P" by (rule completion_consistent)
  with count_spec(1)[of P 0] wf one have "min 2 (numCompletions P) = 1" by simp
  then have "numCompletions P = 1" by simp
  with cl one comp show ?thesis by simp
qed

theorem createPuzzle_unique_witness:
  "wf_grid canonical \<and> complete canonical \<and> consistent canonical \<and>
   (\<exists>P rng'. createPuzzle DIFFICULTY_CLUES (\<lambda>k. 0) canonical ''easy'' = Some (P, rng') \<and>
      clues_of P canonical \<and> snd (countSolutions (map (\<lambda>row. row) P) 0) = 1 \<and>
      numCompletions P = 1 \<and> completion P canonical)"
proof -
  have t: "DIFFICULTY_CLUES ''easy'' = Some (40, 45)"
    by (simp add: DIFFICULTY_CLUES_def)
  obtain P rng' where c: "createPuzzle DIFFICULTY_CLUES (\<lambda>k. 0) canonical ''easy'' = Some (P, rng')"
    using createPuzzle_Some[of DIFFICULTY_CLUES "''easy''" "(40, 45)" "\<lambda>k. 0" canonical] t by blast
  from createPuzzle_unique[OF canonical_wf canonical_complete canonical_consistent disjI1[OF c]]
  show ?thesis using canonical_wf canonical_complete canonical_consistent c by blast
qed

section \<open>Claims about the game state\<close>

lemma generateSolution_Some:
  "\<exists>ok s rng'. generateSolution rng createEmptyGrid 0 0 = Some (ok, s, rng')"
proof -
  have "bt_spec createEmptyGrid 0 0
          (map_option drop_rng (generateSolution rng createEmptyGrid 0 0))"
    using generate_spec(1)[of createEmptyGrid 0 0 rng] createEmptyGrid_wf by simp
  then show ?thesis
    by (cases "generateSolution rng createEmptyGrid 0 0") (auto simp: bt_spec_def)
qed

lemma startNewGame_Some:
  assumes "tiers d = Some t"
  shows "\<exists>s rng'. startNewGame tiers rng d = Some (s, rng')"
proof -
  obtain ok sol rng1 where "generateSolution rng createEmptyGrid 0 0 = Some (ok, sol, rng1)"
    using generateSolution_Some by blast
  moreover obtain P rng2 where "createPuzzle tiers rng1 sol d = Some (P, rng2)"
    using createPuzzle_Some[of tiers d t rng1 sol] assms by blast
  ultimately show ?thesis by (simp add: startNewGame_def generatePuzzle_def)
qed

lemma pwa_newGame_Some:
  assumes "tiers d = Some t"
  shows "\<exists>s rng'. pwa_newGame tiers rng d ar = Some (s, rng')"
proof -
  obtain ok sol rng1 where "generateSolution rng createEmptyGrid 0 0 = Some (ok, sol, rng1)"
    using generateSolution_Some by blast
  moreover obtain P rng2 where "pwa_createPuzzle tiers rng1 sol d = Some (P, rng2)"
    using pwa_createPuzzle_Some[of tiers d t rng1 sol] assms by blast
  ultimately show ?thesis by (simp add: pwa_newGame_def pwa_generate_def)
qed

text \<open>
  Claim C8. In every state that a freshly started game reaches through any sequence of user
  events (cell selection, number input, erase, hint, undo, redo, notes toggle, pause,
  auto-solve), the clue grid \<open>initial\<close> is still the generated puzzle and every cell that is
  nonzero in it holds its initial value on the board. This holds for both scripts.
\<close>

theorem prefilled_cells_read_only:
  "(reachable tiers rng d s \<longrightarrow>
      (\<exists>puzzle sol rng'. generatePuzzle tiers rng d = Some ((puzzle, sol), rng') \<and>
         initial s = puzzle \<and>
         (\<forall>r<9. \<forall>c<9. puzzle ! r ! c \<noteq> 0 \<longrightarrow> board s ! r ! c = puzzle ! r ! c))) \<and>
   (pwa_reachable tiers rng d ar t \<longrightarrow>
      (\<exists>puzzle sol rng'. pwa_generate tiers rng d = Some ((puzzle, sol), rng') \<and>
         pwa_initial t = puzzle \<and>
         (\<forall>r<9. \<forall>c<9. puzzle ! r ! c \<noteq> 0 \<longrightarrow> pwa_board t ! r ! c = puzzle ! r ! c)))"
proof (intro conjI impI)
  assume r: "reachable tiers rng d s"
  from reachable_inv[OF r] have "prefilled_kept (initial s) (board s)"
    by (simp add: game_inv_def)
  with reachable_initial[OF r]
  show "\<exists>puzzle sol rng'. generatePuzzle tiers rng d = Some ((puzzle, sol), rng') \<and>
         initial s = puzzle \<and>
         (\<forall>r<9. \<forall>c<9. puzzle ! r ! c \<noteq> 0 \<longrightarrow> board s ! r ! c = puzzle ! r ! c)"
    unfolding prefilled_kept_def by blast
next
  assume r: "pwa_reachable tiers rng d ar t"
  from pwa_reachable_inv[OF r] have "prefilled_kept (pwa_initial t) (pwa_board t)"
    by (simp add: pwa_inv_def)
  with pwa_reachable_initial[OF r]
  show "\<exists>puzzle sol rng'. pwa_generate tiers rng d = Some ((puzzle, sol), rng') \<and>
         pwa_initial t = puzzle \<and>
         (\<forall>r<9. \<forall>c<9. puzzle ! r ! c \<noteq> 0 \<longrightarrow> pwa_board t ! r ! c = puzzle ! r ! c)"
    unfolding prefilled_kept_def by blast
qed

theorem prefilled_cells_read_only_witness:
  "(\<exists>s. reachable DIFFICULTY_CLUES (\<lambda>k. 0) ''easy'' s \<and>
      (\<exists>puzzle sol rng'. generatePuzzle DIFFICULTY_CLUES (\<lambda>k. 0) ''easy'' = Some ((puzzle, sol), rng') \<and>
         initial s = puzzle \<and>
         (\<forall>r<9. \<forall>c<9. puzzle ! r ! c \<noteq> 0 \<longrightarrow> board s ! r ! c = puzzle ! r ! c))) \<and>
   (\<exists>t. pwa_reachable DIFFICULTY_CLUES (\<lambda>k. 0) ''easy'' True t \<and>
      (\<exists>puzzle sol rng'. pwa_generate DIFFICULTY_CLUES (\<lambda>k. 0) ''easy'' = Some ((puzzle, sol), rng') \<and>
         pwa_initial t = puzzle \<and>
         (\<forall>r<9. \<forall>c<9. puzzle ! r ! c \<noteq> 0 \<longrightarrow> pwa_board t ! r ! c = puzzle ! r ! c)))"
proof -
  have t: "DIFFICULTY_CLUES ''easy'' = Some (40, 45)"
    by (simp add: DIFFICULTY_CLUES_def)
  obtain s0 rng' where "startNewGame DIFFICULTY_CLUES (\<lambda>k. 0) ''easy'' = Some (s0, rng')"
    using startNewGame_Some[of DIFFICULTY_CLUES "''easy''" "(40, 45)" "\<lambda>k. 0"] t by blast
  then have "reachable DIFFICULTY_CLUES (\<lambda>k. 0) ''easy'' s0" by (rule reachable.start)
  then have "reachable DIFFICULTY_CLUES (\<lambda>k. 0) ''easy'' (handle (SelectCell 0 0) s0)"
    by (rule reachable.step) (simp add: ui_event_def)
  then have r: "reachable DIFFICULTY_CLUES (\<lambda>k. 0) ''easy''
      (handle (InputNumber 5) (handle (SelectCell 0 0) s0))"
    by (rule reachable.step) (simp add: ui_event_def)
  obtain t0 rng'' where "pwa_newGame DIFFICULTY_CLUES (\<lambda>k. 0) ''easy'' True = Some (t0, rng'')"
    using pwa_newGame_Some[of DIFFICULTY_CLUES "''easy''" "(40, 45)" "\<lambda>k. 0" True] t by blast
  then have "pwa_reachable DIFFICULTY_CLUES (\<lambda>k. 0) ''easy'' True t0" by (rule pwa_reachable.pwa_start)
  then have "pwa_reachable DIFFICULTY_CLUES (\<lambda>k. 0) ''easy'' True (pwa_handle (PwaSelectCell 0 0) t0)"
    by (rule pwa_reachable.pwa_step) (simp add: pwa_ui_event_def)
  then have r': "pwa_reachable DIFFICULTY_CLUES (\<lambda>k. 0) ''easy'' True
      (pwa_handle (PwaInputNumber 5) (pwa_handle (PwaSelectCell 0 0) t0))"
    by (rule pwa_reachable.pwa_step) (simp add: pwa_ui_event_def)
  from prefilled_cells_read_only[of DIFFICULTY_CLUES "\<lambda>k. 0" "''easy''"
      "handle (InputNumber 5) (handle (SelectCell 0 0) s0)" True
      "pwa_handle (PwaInputNumber 5) (pwa_handle (PwaSelectCell 0 0) t0)"] r r'
  show ?thesis by blast
qed

section \<open>Claim C7: recording discards the redo tail\<close>

text \<open>
  Claim C7. Recording a new history entry discards the redo tail. In the stand-alone script,
  after \<open>addToHistory\<close> on a state whose index lies within the log, the index is the last
  position of the log and an immediately following \<open>redo\<close> changes nothing; and
  \<open>addToHistory a\<close>, \<open>undo\<close>, \<open>addToHistory x\<close> in a running game leave the log as its
  previously applied part followed by \<open>x\<close> alone, which is exactly \<open>[x]\<close> when the log was
  empty. In \<open>sudoku-pwa/script.js\<close>, every event other than undo, redo and auto-solve that
  pushes an entry on \<open>moveHistory\<close> leaves \<open>redoStack\<close> empty, so that \<open>redo\<close> changes
  nothing; and from an empty history, a recording event, \<open>undo\<close> and a second recording
  event leave exactly one entry, again with nothing to redo.
\<close>

theorem record_discards_redo_tail:
  "(ledger_ok s \<longrightarrow>
      historyIndex (addToHistory a s) = int (length (history (addToHistory a s))) - 1 \<and>
      redo (addToHistory a s) = addToHistory a s) \<and>
   (ledger_ok s \<and> active s \<longrightarrow>
      history (addToHistory x (undo (addToHistory a s))) = applied s @ [x] \<and>
      redo (addToHistory x (undo (addToHistory a s))) = addToHistory x (undo (addToHistory a s))) \<and>
   (history s = [] \<and> historyIndex s = - 1 \<and> active s \<longrightarrow>
      history (addToHistory x (undo (addToHistory a s))) = [x]) \<and>
   (pwa_edit_event e \<and> moveHistory (pwa_handle e t) \<noteq> moveHistory t \<longrightarrow>
      redoStack (pwa_handle e t) = [] \<and> pwa_redo (pwa_handle e t) = pwa_handle e t) \<and>
   (moveHistory t = [] \<and> pwa_edit_event e1 \<and> pwa_edit_event e2 \<and>
    moveHistory (pwa_handle e1 t) \<noteq> [] \<and>
    moveHistory (pwa_handle e2 (pwa_undo (pwa_handle e1 t)))
      \<noteq> moveHistory (pwa_undo (pwa_handle e1 t)) \<longrightarrow>
      length (moveHistory (pwa_handle e2 (pwa_undo (pwa_handle e1 t)))) = 1 \<and>
      pwa_redo (pwa_handle e2 (pwa_undo (pwa_handle e1 t)))
        = pwa_handle e2 (pwa_undo (pwa_handle e1 t)))"
proof (intro conjI impI; (elim conjE)?)
  assume ok: "ledger_ok s"
  show "historyIndex (addToHistory a s) = int (length (history (addToHistory a s))) - 1"
    using ok by (rule addToHistory_end)
  then show "redo (addToHistory a s) = addToHistory a s" by (simp add: redo_at_end)
next
  assume ok: "ledger_ok s" and act: "active s"
  let ?u = "undo (addToHistory a s)"
  have oku: "ledger_ok ?u" and apu: "applied ?u = applied s"
    using undo_addToHistory[OF ok act] by simp_all
  show h: "history (addToHistory x ?u) = applied s @ [x]"
    using history_addToHistory[OF oku, of x] apu by simp
  show "redo (addToHistory x ?u) = addToHistory x ?u"
    using addToHistory_end[OF oku, of x] by (simp add: redo_at_end)
next
  assume e: "history s = []" "historyIndex s = - 1" and act: "active s"
  have ok: "ledger_ok s" using e by (simp add: ledger_ok_def)
  let ?u = "undo (addToHistory a s)"
  have oku: "ledger_ok ?u" and apu: "applied ?u = applied s"
    using undo_addToHistory[OF ok act] by simp_all
  show "history (addToHistory x ?u) = [x]"
    using history_addToHistory[OF oku, of x] apu e by (simp add: applied_def)
next
  assume e: "pwa_edit_event e" "moveHistory (pwa_handle e t) \<noteq> moveHistory t"
  show "redoStack (pwa_handle e t) = []" using e by (rule pwa_recorded(1))
  then show "pwa_redo (pwa_handle e t) = pwa_handle e t" by (rule pwa_redo_empty)
next
  let ?s1 = "pwa_handle e1 t"
  let ?s2 = "pwa_undo ?s1"
  let ?s3 = "pwa_handle e2 ?s2"
  assume h0: "moveHistory t = []" and e1: "pwa_edit_event e1" and e2: "pwa_edit_event e2"
    and r1: "moveHistory ?s1 \<noteq> []" and r2: "moveHistory ?s3 \<noteq> moveHistory ?s2"
  from r1 h0 have r1': "moveHistory ?s1 \<noteq> moveHistory t" by simp
  obtain m where m: "moveHistory ?s1 = [] @ [m]"
    using pwa_recorded(2)[OF e1 r1'] h0 by auto
  have act: "pwa_active ?s1"
  proof (rule ccontr)
    assume n: "\<not> pwa_active ?s1"
    then have "?s2 = ?s1" by (rule pwa_undo_idle)
    with pwa_idle[OF n e2] r2 show False by simp
  qed
  have h2: "moveHistory ?s2 = []" using pwa_undo_one[OF act m] .
  obtain x where "moveHistory ?s3 = moveHistory ?s2 @ [x]"
    using pwa_recorded(2)[OF e2 r2] by blast
  with h2 show "length (moveHistory ?s3) = 1" by simp
  show "pwa_redo ?s3 = ?s3" using pwa_recorded(1)[OF e2 r2] by (rule pwa_redo_empty)
qed

theorem record_discards_redo_tail_witness:
  "history (addToHistory (ValueAction 0 1 0 3) (undo (addToHistory (ValueAction 0 0 0 5) demoGame)))
     = [ValueAction 0 1 0 3] \<and>
   redo (addToHistory (ValueAction 0 1 0 3) (undo (addToHistory (ValueAction 0 0 0 5) demoGame)))
     = addToHistory (ValueAction 0 1 0 3) (undo (addToHistory (ValueAction 0 0 0 5) demoGame)) \<and>
   redo (addToHistory (ValueAction 0 0 0 5) demoGame) = addToHistory (ValueAction 0 0 0 5) demoGame \<and>
   redoStack (pwa_handle (PwaInputNumber 3) (pwa_handle (PwaSelectCell 0 0) pwa_demoGame)) = [] \<and>
   length (moveHistory (pwa_handle (PwaInputNumber 4) (pwa_undo
      (pwa_handle (PwaInputNumber 3) (pwa_handle (PwaSelectCell 0 0) pwa_demoGame))))) = 1 \<and>
   pwa_redo (pwa_handle (PwaInputNumber 4) (pwa_undo
      (pwa_handle (PwaInputNumber 3) (pwa_handle (PwaSelectCell 0 0) pwa_demoGame))))
     = pwa_handle (PwaInputNumber 4) (pwa_undo
      (pwa_handle (PwaInputNumber 3) (pwa_handle (PwaSelectCell 0 0) pwa_demoGame)))"
proof -
  let ?t = "pwa_handle (PwaSelectCell 0 0) pwa_demoGame"
  have g: "ledger_ok demoGame" "active demoGame" "history demoGame = []"
    "historyIndex demoGame = - 1" "applied demoGame = []"
    by (simp_all add: demoGame_def newGameState_def ledger_ok_def active_def applied_def)
  have e: "pwa_edit_event (PwaInputNumber 3)" "pwa_edit_event (PwaInputNumber 4)"
    by (simp_all add: pwa_edit_event_def)
  have h0: "moveHistory ?t = []" by code_simp
  have h1: "moveHistory (pwa_handle (PwaInputNumber 3) ?t) \<noteq> []" by code_simp
  have h2: "moveHistory (pwa_handle (PwaInputNumber 4) (pwa_undo (pwa_handle (PwaInputNumber 3) ?t)))
      \<noteq> moveHistory (pwa_undo (pwa_handle (PwaInputNumber 3) ?t))" by code_simp
  from record_discards_redo_tail[of demoGame "ValueAction 0 0 0 5" "ValueAction 0 1 0 3"
      "PwaInputNumber 3" ?t "PwaInputNumber 3" "PwaInputNumber 4"] g e h0 h1 h2
  show ?thesis by simp
qed

section \<open>Claim C6: the undo/redo round trip\<close>

text \<open>
  Claim C6, in the form that holds. In both scripts, take any state (in the stand-alone
  script, with the history index within the log) and feed it any events other than undo,
  redo and auto-solve; let \<open>k\<close> be the number of history entries they recorded. If the game
  is neither paused nor complete afterwards, then \<open>k\<close> undos restore the board that held
  before the first event, cell by cell, and the history position; \<open>k\<close> redos after that
  restore the board and the position that held after the last event. The notes are
  restored in the same way when every event kept them (\<open>notes_kept_run\<close>): no new value or
  hint landed on a cell holding notes in the stand-alone script, no value was toggled off
  on a cell holding notes and no note was removed from a related cell in
  \<open>sudoku-pwa/script.js\<close>. Moreover, in a game started from a new-game state and played
  without auto-solve, after such events followed by any interleaving of undos and redos,
  the board (and under the same condition the notes) is again the one before the events
  whenever the history position is the one before them, and the one after the events
  whenever the position is the one after them.
\<close>

theorem undo_redo_round_trip:
  "(ledger_ok s0 \<and> list_all edit_event es \<and> active (run es s0) \<and>
    k = nat (historyIndex (run es s0) - historyIndex s0) \<longrightarrow>
      board ((undo ^^ k) (run es s0)) = board s0 \<and>
      historyIndex ((undo ^^ k) (run es s0)) = historyIndex s0 \<and>
      board ((redo ^^ k) ((undo ^^ k) (run es s0))) = board (run es s0) \<and>
      historyIndex ((redo ^^ k) ((undo ^^ k) (run es s0))) = historyIndex (run es s0) \<and>
      (notes_kept_run es s0 \<longrightarrow>
         notes' ((undo ^^ k) (run es s0)) = notes' s0 \<and>
         notes' ((redo ^^ k) ((undo ^^ k) (run es s0))) = notes' (run es s0))) \<and>
   (list_all plain_event pre \<and> list_all edit_event es' \<and> list_all undo_redo_event ur \<and>
    g0 = run pre (newGameState puzzle sol d) \<and> gk = run es' g0 \<and> g = run ur gk \<longrightarrow>
      history g = history gk \<and>
      (historyIndex g = historyIndex g0 \<longrightarrow> board g = board g0 \<and>
         (notes_kept_run (pre @ es') (newGameState puzzle sol d) \<longrightarrow> notes' g = notes' g0)) \<and>
      (historyIndex g = historyIndex gk \<longrightarrow> board g = board gk \<and>
         (notes_kept_run (pre @ es') (newGameState puzzle sol d) \<longrightarrow> notes' g = notes' gk))) \<and>
   (list_all pwa_edit_event ps \<and> pwa_active (pwa_run ps t0) \<and>
    j = length (moveHistory (pwa_run ps t0)) - length (moveHistory t0) \<longrightarrow>
      pwa_board ((pwa_undo ^^ j) (pwa_run ps t0)) = pwa_board t0 \<and>
      moveHistory ((pwa_undo ^^ j) (pwa_run ps t0)) = moveHistory t0 \<and>
      pwa_board ((pwa_redo ^^ j) ((pwa_undo ^^ j) (pwa_run ps t0))) = pwa_board (pwa_run ps t0) \<and>
      moveHistory ((pwa_redo ^^ j) ((pwa_undo ^^ j) (pwa_run ps t0)))
        = moveHistory (pwa_run ps t0) \<and>
      (pwa_notes_kept_run ps t0 \<longrightarrow>
         pwa_notes ((pwa_undo ^^ j) (pwa_run ps t0)) = pwa_notes t0 \<and>
         pwa_notes ((pwa_redo ^^ j) ((pwa_undo ^^ j) (pwa_run ps t0)))
           = pwa_notes (pwa_run ps t0))) \<and>
   (list_all pwa_plain_event ppre \<and> list_all pwa_edit_event ps' \<and>
    list_all pwa_undo_redo_event pur \<and>
    h0 = pwa_run ppre (pwa_newGameState puzzle' sol' d' ar) \<and> hk = pwa_run ps' h0 \<and>
    h = pwa_run pur hk \<longrightarrow>
      (length (moveHistory h) = length (moveHistory h0) \<longrightarrow> pwa_board h = pwa_board h0 \<and>
         (pwa_notes_kept_run (ppre @ ps') (pwa_newGameState puzzle' sol' d' ar) \<longrightarrow>
            pwa_notes h = pwa_notes h0)) \<and>
      (length (moveHistory h) = length (moveHistory hk) \<longrightarrow> pwa_board h = pwa_board hk \<and>
         (pwa_notes_kept_run (ppre @ ps') (pwa_newGameState puzzle' sol' d' ar) \<longrightarrow>
            pwa_notes h = pwa_notes hk)))"
proof (intro conjI impI; (elim conjE)?)
  assume a: "ledger_ok s0" "list_all edit_event es" "active (run es s0)"
    and k: "k = nat (historyIndex (run es s0) - historyIndex s0)"
  note r = undo_redo_board[OF a, folded k]
  show "board ((undo ^^ k) (run es s0)) = board s0" using r by simp
  show "historyIndex ((undo ^^ k) (run es s0)) = historyIndex s0" using r by simp
  show "board ((redo ^^ k) ((undo ^^ k) (run es s0))) = board (run es s0)" using r by simp
  show "historyIndex ((redo ^^ k) ((undo ^^ k) (run es s0))) = historyIndex (run es s0)"
    using r by simp
  {
    assume kept: "notes_kept_run es s0"
    note n = undo_redo_notes[OF a kept, folded k]
    show "notes' ((undo ^^ k) (run es s0)) = notes' s0" using n by simp
    show "notes' ((redo ^^ k) ((undo ^^ k) (run es s0))) = notes' (run es s0)" using n by simp
  }
next
  assume a: "list_all plain_event pre" "list_all edit_event es'" "list_all undo_redo_event ur"
    and e: "g0 = run pre (newGameState puzzle sol d)" "gk = run es' g0" "g = run ur gk"
  have sy: "synced puzzle g0"
    unfolding e using synced_newGameState a(1) by (rule synced_run)
  note r = board_by_index[OF sy a(2,3), folded e(2), folded e(3)]
  show "history g = history gk" using r(1) .
  {
    assume "historyIndex g = historyIndex g0"
    then show "board g = board g0" by (rule r(2))
  }
  {
    assume "historyIndex g = historyIndex gk"
    then show "board g = board gk" by (rule r(3))
  }
  {
    assume kept: "notes_kept_run (pre @ es') (newGameState puzzle sol d)"
    note n = notes_by_index[OF a kept, folded e(1), folded e(2), folded e(3)]
    {
      assume "historyIndex g = historyIndex g0"
      then show "notes' g = notes' g0" by (rule n(1))
    }
    {
      assume "historyIndex g = historyIndex gk"
      then show "notes' g = notes' gk" by (rule n(2))
    }
  }
next
  assume a: "list_all pwa_edit_event ps" "pwa_active (pwa_run ps t0)"
    and j: "j = length (moveHistory (pwa_run ps t0)) - length (moveHistory t0)"
  note r = pwa_undo_redo_board[OF a, folded j]
  show "pwa_board ((pwa_undo ^^ j) (pwa_run ps t0)) = pwa_board t0" using r by simp
  show "moveHistory ((pwa_undo ^^ j) (pwa_run ps t0)) = moveHistory t0" using r by simp
  show "pwa_board ((pwa_redo ^^ j) ((pwa_undo ^^ j) (pwa_run ps t0))) = pwa_board (pwa_run ps t0)"
    using r by simp
  show "moveHistory ((pwa_redo ^^ j) ((pwa_undo ^^ j) (pwa_run ps t0)))
        = moveHistory (pwa_run ps t0)" using r by simp
  {
    assume kept: "pwa_notes_kept_run ps t0"
    note n = pwa_undo_redo_notes[OF a kept, folded j]
    show "pwa_notes ((pwa_undo ^^ j) (pwa_run ps t0)) = pwa_notes t0" using n by simp
    show "pwa_notes ((pwa_redo ^^ j) ((pwa_undo ^^ j) (pwa_run ps t0)))
           = pwa_notes (pwa_run ps t0)" using n by simp
  }
next
  assume a: "list_all pwa_plain_event ppre" "list_all pwa_edit_event ps'"
    "list_all pwa_undo_redo_event pur"
    and e: "h0 = pwa_run ppre (pwa_newGameState puzzle' sol' d' ar)" "hk = pwa_run ps' h0"
      "h = pwa_run pur hk"
  have sy: "pwa_synced puzzle' h0"
    unfolding e using pwa_synced_newGameState a(1) by (rule pwa_synced_run)
  note r = pwa_board_by_length[OF sy a(2,3), folded e(2), folded e(3)]
  {
    assume "length (moveHistory h) = length (moveHistory h0)"
    then show "pwa_board h = pwa_board h0" by (rule r(1))
  }
  {
    assume "length (moveHistory h) = length (moveHistory hk)"
    then show "pwa_board h = pwa_board hk" by (rule r(2))
  }
  {
    assume kept: "pwa_notes_kept_run (ppre @ ps') (pwa_newGameState puzzle' sol' d' ar)"
    note n = pwa_notes_by_length[OF a kept, folded e(1), folded e(2), folded e(3)]
    {
      assume "length (moveHistory h) = length (moveHistory h0)"
      then show "pwa_notes h = pwa_notes h0" by (rule n(1))
    }
    {
      assume "length (moveHistory h) = length (moveHistory hk)"
      then show "pwa_notes h = pwa_notes hk" by (rule n(2))
    }
  }
qed

theorem undo_redo_round_trip_witness:
  "board ((undo ^^ 2) (run demoEdits demoStart)) = board demoStart \<and>
   notes' ((undo ^^ 2) (run demoEdits demoStart)) = notes' demoStart \<and>
   board ((redo ^^ 2) ((undo ^^ 2) (run demoEdits demoStart))) = board (run demoEdits demoStart) \<and>
   notes' ((redo ^^ 2) ((undo ^^ 2) (run demoEdits demoStart)))
     = notes' (run demoEdits demoStart) \<and>
   board (run [Undo, Redo, Undo, Undo] (run demoEdits demoStart)) = board demoStart \<and>
   notes' (run [Undo, Redo, Undo, Undo] (run demoEdits demoStart)) = notes' demoStart \<and>
   pwa_board ((pwa_undo ^^ 2) (pwa_run pwa_demoEdits pwa_demoStart)) = pwa_board pwa_demoStart \<and>
   pwa_notes ((pwa_undo ^^ 2) (pwa_run pwa_demoEdits pwa_demoStart)) = pwa_notes pwa_demoStart \<and>
   pwa_board ((pwa_redo ^^ 2) ((pwa_undo ^^ 2) (pwa_run pwa_demoEdits pwa_demoStart)))
     = pwa_board (pwa_run pwa_demoEdits pwa_demoStart) \<and>
   pwa_notes ((pwa_redo ^^ 2) ((pwa_undo ^^ 2) (pwa_run pwa_demoEdits pwa_demoStart)))
     = pwa_notes (pwa_run pwa_demoEdits pwa_demoStart) \<and>
   pwa_board (pwa_run [PwaUndo, PwaRedo, PwaUndo, PwaUndo] (pwa_run pwa_demoEdits pwa_demoStart))
     = pwa_board pwa_demoStart \<and>
   pwa_notes (pwa_run [PwaUndo, PwaRedo, PwaUndo, PwaUndo] (pwa_run pwa_demoEdits pwa_demoStart))
     = pwa_notes pwa_demoStart"
proof -
  have a: "ledger_ok demoStart" "list_all edit_event demoEdits"
    "active (run demoEdits demoStart)"
    "2 = nat (historyIndex (run demoEdits demoStart) - historyIndex demoStart)"
    "notes_kept_run demoEdits demoStart"
    by code_simp+
  have b: "list_all plain_event [SelectCell 0 0]"
    "list_all undo_redo_event [Undo, Redo, Undo, Undo]"
    "demoStart = run [SelectCell 0 0] (newGameState rowZeroed canonical ''easy'')"
    "historyIndex (run [Undo, Redo, Undo, Undo] (run demoEdits demoStart))
       = historyIndex demoStart"
    by (simp_all add: plain_event_def undo_redo_event_def demoStart_def demoGame_def) code_simp
  have b': "notes_kept_run ([SelectCell 0 0] @ demoEdits)
       (newGameState rowZeroed canonical ''easy'')"
    by code_simp
  have c: "list_all pwa_edit_event pwa_demoEdits"
    "pwa_active (pwa_run pwa_demoEdits pwa_demoStart)"
    "2 = length (moveHistory (pwa_run pwa_demoEdits pwa_demoStart))
           - length (moveHistory pwa_demoStart)"
    "pwa_notes_kept_run pwa_demoEdits pwa_demoStart"
    by code_simp+
  have d: "list_all pwa_plain_event [PwaSelectCell 0 0]"
    "list_all pwa_undo_redo_event [PwaUndo, PwaRedo, PwaUndo, PwaUndo]"
    "pwa_demoStart = pwa_run [PwaSelectCell 0 0] (pwa_newGameState rowZeroed canonical ''easy'' True)"
    "length (moveHistory (pwa_run [PwaUndo, PwaRedo, PwaUndo, PwaUndo]
        (pwa_run pwa_demoEdits pwa_demoStart))) = length (moveHistory pwa_demoStart)"
    by (simp_all add: pwa_plain_event_def pwa_undo_redo_event_def pwa_demoStart_def
        pwa_demoGame_def) code_simp
  have d': "pwa_notes_kept_run ([PwaSelectCell 0 0] @ pwa_demoEdits)
       (pwa_newGameState rowZeroed canonical ''easy'' True)"
    by code_simp
  from undo_redo_round_trip[where ?s0.0 = demoStart and es = demoEdits and k = 2
      and pre = "[SelectCell 0 0]" and es' = demoEdits and ur = "[Undo, Redo, Undo, Undo]"
      and ?g0.0 = demoStart and puzzle = rowZeroed and sol = canonical and d = "''easy''"
      and gk = "run demoEdits demoStart"
      and g = "run [Undo, Redo, Undo, Undo] (run demoEdits demoStart)"
      and ps = pwa_demoEdits and ?t0.0 = pwa_demoStart and j = 2
      and ppre = "[PwaSelectCell 0 0]" and ps' = pwa_demoEdits
      and pur = "[PwaUndo, PwaRedo, PwaUndo, PwaUndo]"
      and ?h0.0 = pwa_demoStart and puzzle' = rowZeroed and sol' = canonical
      and d' = "''easy''" and ar = True
      and hk = "pwa_run pwa_demoEdits pwa_demoStart"
      and h = "pwa_run [PwaUndo, PwaRedo, PwaUndo, PwaUndo] (pwa_run pwa_demoEdits pwa_demoStart)"]
    a b b' c d d'
  show ?thesis by simp
qed

text \<open>
  The notes are not restored by every undo, and a paused or complete game ignores undo. In the
  stand-alone script a cell holds the note 5; entering the value 7 records one entry and
  clears the note, and undo leaves the note set empty. In \<open>sudoku-pwa/script.js\<close> (with
  \<open>autoRemoveNotes\<close> on) cell (0,1) holds the note 7; entering 7 in cell (0,0) records one
  entry and removes that note, and undo does not bring it back. And when the recorded
  entry fills the last open cell, the game is complete and undo leaves the 9 on the board.
\<close>

theorem undo_loses_notes_counterexample:
  "historyIndex (handle (InputNumber 7) notedGame) = historyIndex notedGame + 1 \<and>
   notes' notedGame ! 0 ! 0 = {5} \<and>
   notes' (undo (handle (InputNumber 7) notedGame)) ! 0 ! 0 = {} \<and>
   length (moveHistory (pwa_handle (PwaInputNumber 7) pwa_notedGame))
     = length (moveHistory pwa_notedGame) + 1 \<and>
   pwa_notes pwa_notedGame ! 0 ! 1 = {7} \<and>
   pwa_notes (pwa_undo (pwa_handle (PwaInputNumber 7) pwa_notedGame)) ! 0 ! 1 = {} \<and>
   historyIndex (handle (InputNumber 9) lastOpenGame) = historyIndex lastOpenGame + 1 \<and>
   board lastOpenGame ! 8 ! 8 = 0 \<and>
   board (undo (handle (InputNumber 9) lastOpenGame)) ! 8 ! 8 = 9"
  by (intro conjI; code_simp)

section \<open>Claim C10: the solver leaves its argument unchanged\<close>

text \<open>
  Claim C10. \<open>solve\<close> never mutates its argument. In a store whose outer arrays hold
  addresses of row objects, let \<open>g\<close> be the address of a grid. The call throws exactly when
  the solver over plain grids does, and not at all on a 9x9 grid with entries in 0-9.
  When it returns, every row object and every outer array that existed before the call is
  unchanged, so \<open>g\<close> shows the same grid cell for cell; the result is null or the address of
  an outer array that did not exist before the call (hence not \<open>g\<close>), whose rows are all new
  objects, none of them a row of \<open>g\<close>; and what it shows is the grid that the solver over
  plain grids returns.
\<close>

theorem solve_leaves_argument:
  assumes "store_ok st" and "g < length (gridObjs st)"
  shows "(store_solve st g = None \<longleftrightarrow> solve (view st g) = None) \<and>
         (wf_grid (view st g) \<longrightarrow> store_solve st g \<noteq> None) \<and>
         (\<forall>res st'. store_solve st g = Some (res, st') \<longrightarrow>
            take (length (rowObjs st)) (rowObjs st') = rowObjs st \<and>
            take (length (gridObjs st)) (gridObjs st') = gridObjs st \<and>
            view st' g = view st g \<and>
            solve (view st g) = Some (map_option (view st') res) \<and>
            (\<forall>s. res = Some s \<longrightarrow> s = length (gridObjs st) \<and> s \<noteq> g \<and>
               (\<forall>a\<in>set (gridObjs st' ! s).
                  length (rowObjs st) \<le> a \<and> a \<notin> set (gridObjs st ! g))))"
proof -
  obtain st1 c where cp: "copyGrid st g = (st1, c)" by (cases "copyGrid st g")
  note cf = copyGrid_facts[OF assms cp]
  have sim: "sim_res c st1 (backtrack (view st g) 0 0) (store_backtrack st1 c 0 0)"
    using store_solve_cases[OF assms] cp cf(1) by simp
  have sv: "solve (view st g) =
      (case backtrack (view st g) 0 0 of None \<Rightarrow> None
       | Some (True, copy') \<Rightarrow> Some (Some copy') | Some (False, copy') \<Rightarrow> Some None)"
    by (simp add: solve_def)
  have ss: "store_solve st g =
      (case store_backtrack st1 c 0 0 of None \<Rightarrow> None
       | Some (True, st2) \<Rightarrow> Some (Some c, st2) | Some (False, st2) \<Rightarrow> Some (None, st2))"
    by (simp add: store_solve_def cp)
  have none: "store_solve st g = None \<longleftrightarrow> solve (view st g) = None"
    unfolding sv ss using sim
    by (auto simp: sim_res_def split: option.splits bool.splits)
  have total: "store_solve st g \<noteq> None" if "wf_grid (view st g)"
  proof -
    from solve_spec[OF that] obtain ok g' where "backtrack (view st g) 0 0 = Some (ok, g')"
      unfolding bt_spec_def by blast
    then have "solve (view st g) \<noteq> None" unfolding sv by (cases ok) simp_all
    with none show ?thesis by simp
  qed
  have post: "take (length (rowObjs st)) (rowObjs st') = rowObjs st \<and>
            take (length (gridObjs st)) (gridObjs st') = gridObjs st \<and>
            view st' g = view st g \<and>
            solve (view st g) = Some (map_option (view st') res) \<and>
            (\<forall>s. res = Some s \<longrightarrow> s = length (gridObjs st) \<and> s \<noteq> g \<and>
               (\<forall>a\<in>set (gridObjs st' ! s).
                  length (rowObjs st) \<le> a \<and> a \<notin> set (gridObjs st ! g)))"
    if r: "store_solve st g = Some (res, st')" for res st'
  proof -
    obtain ok st2 where sb: "store_backtrack st1 c 0 0 = Some (ok, st2)"
      using r unfolding ss by (cases "store_backtrack st1 c 0 0") auto
    have st2: "st2 = st'" and res: "res = (if ok then Some c else None)"
      using r unfolding ss sb by (cases ok; simp)+
    obtain G' where bt: "backtrack (view st g) 0 0 = Some (ok, G')"
      and v: "view st' c = G'" and fr: "frame st1 st' c"
      using sim unfolding sb st2
      by (cases "backtrack (view st g) 0 0") (auto simp: sim_res_def)
    note fa = frame_after_copy[OF assms cp fr]
    have sol: "solve (view st g) = Some (map_option (view st') res)"
      unfolding sv bt res using v by (cases ok) simp_all
    have fresh: "\<forall>s. res = Some s \<longrightarrow> s = length (gridObjs st) \<and> s \<noteq> g \<and>
               (\<forall>a\<in>set (gridObjs st' ! s).
                  length (rowObjs st) \<le> a \<and> a \<notin> set (gridObjs st ! g))"
    proof (intro allI impI)
      fix s assume "res = Some s"
      then have "s = c" using res by (cases ok) simp_all
      then show "s = length (gridObjs st) \<and> s \<noteq> g \<and>
               (\<forall>a\<in>set (gridObjs st' ! s).
                  length (rowObjs st) \<le> a \<and> a \<notin> set (gridObjs st ! g))"
        using fa(4,5) cf(1) by simp
    qed
    show ?thesis
      by (intro conjI) (rule fa(1), rule fa(2), rule fa(3), rule sol, rule fresh)
  qed
  show ?thesis
  proof (intro conjI)
    show "store_solve st g = None \<longleftrightarrow> solve (view st g) = None" by (rule none)
  next
    show "wf_grid (view st g) \<longrightarrow> store_solve st g \<noteq> None" using total by (rule impI)
  next
    show "\<forall>res st'. store_solve st g = Some (res, st') \<longrightarrow> take (length (rowObjs st)) (rowObjs st') = rowObjs st \<and>
            take (length (gridObjs st)) (gridObjs st') = gridObjs st \<and>
            view st' g = view st g \<and>
            solve (view st g) = Some (map_option (view st') res) \<and>
            (\<forall>s. res = Some s \<longrightarrow> s = length (gridObjs st) \<and> s \<noteq> g \<and>
               (\<forall>a\<in>set (gridObjs st' ! s).
                  length (rowObjs st) \<le> a \<and> a \<notin> set (gridObjs st ! g)))"
      by (intro allI impI) (rule post)
  qed
qed

theorem solve_leaves_argument_witness:
  "\<exists>st'. store_solve demoStore 0 = Some (Some 1, st') \<and>
     take 9 (rowObjs st') = rowZeroed \<and> take 1 (gridObjs st') = gridObjs demoStore \<and>
     view st' 0 = rowZeroed \<and> view st' 1 = canonical"
proof -
  have ok: "store_ok demoStore" by code_simp
  have g: "0 < length (gridObjs demoStore)" by (simp add: demoStore_def)
  have v: "view demoStore 0 = rowZeroed" by code_simp
  have wf: "wf_grid (view demoStore 0)" unfolding v by code_simp
  have s: "solve (view demoStore 0) = Some (Some canonical)" unfolding v by code_simp
  have l: "length (rowObjs demoStore) = 9" "length (gridObjs demoStore) = 1"
    "rowObjs demoStore = rowZeroed"
    by (simp_all add: demoStore_def rowZeroed_def canonical_def)
  note t = solve_leaves_argument[OF ok g]
  from t wf obtain res st' where r: "store_solve demoStore 0 = Some (res, st')" by auto
  with t have p: "take (length (rowObjs demoStore)) (rowObjs st') = rowObjs demoStore"
    "take (length (gridObjs demoStore)) (gridObjs st') = gridObjs demoStore"
    "view st' 0 = view demoStore 0"
    "solve (view demoStore 0) = Some (map_option (view st') res)"
    "\<forall>s. res = Some s \<longrightarrow> s = length (gridObjs demoStore)"
    by blast+
  from p(4) s obtain c where c: "res = Some c" "view st' c = canonical" by (cases res) auto
  with p(5) l have "c = 1" by simp
  with r c p(1,2,3) v l show ?thesis by auto
qed


end
